theory Spec2Isabelle
  imports Main "HOL-Library.Word"
begin

section \<open>The NILFS2 checkpoint file (fs/nilfs2/cpfile.c)\<close>

text \<open>
  A shallow embedding of the checkpoint file of NILFS2.  Checkpoint numbers, the
  header counters and the snapshot-list links are 64-bit words, the per-block census
  is a 32-bit word; block offsets and slot numbers (\<open>unsigned long\<close> quotients and
  remainders of a division by the number of entries per block) are naturals.  The
  loop counters \<open>ncps\<close>, \<open>nicps\<close>, \<open>nss\<close> and \<open>n\<close> of the C code are \<open>int\<close>s that
  count slots visited by one call; they are kept as naturals.
\<close>

subsection \<open>On-disk records\<close>

type_synonym u64 = "64 word"
type_synonym u32 = "32 word"

datatype errno = EINVAL | ENOENT | ENOMEM | EIO | EBUSY | EROFS

text \<open>The raw on-disk inode embedded in a checkpoint and the in-memory inode of the
  ifile are opaque to the checkpoint file; both are kept as numbers.\<close>

type_synonym nilfs_inode = nat
type_synonym inode = nat

record nilfs_snapshot_list =
  ssl_next :: u64
  ssl_prev :: u64

record nilfs_checkpoint =
  cp_flags :: u32
  cp_checkpoints_count :: u32
  cp_snapshot_list :: nilfs_snapshot_list
  cp_cno :: u64
  cp_create :: u64
  cp_nblk_inc :: u64
  cp_inodes_count :: u64
  cp_blocks_count :: u64
  cp_ifile_inode :: nilfs_inode

record nilfs_cpfile_header =
  ch_ncheckpoints :: u64
  ch_nsnapshots :: u64
  ch_snapshot_list :: nilfs_snapshot_list

record nilfs_cpinfo =
  ci_flags :: u32
  ci_cno :: u64
  ci_create :: u64
  ci_nblk_inc :: u64
  ci_inodes_count :: u64
  ci_blocks_count :: u64
  ci_next :: u64

record nilfs_root =
  inodes_count :: u64
  blocks_count :: u64
  ifile :: "inode option"

text \<open>Modelled from the spec: the flag accessors of the on-disk format header
  (\<open>nilfs_checkpoint_invalid\<close>, \<open>nilfs_checkpoint_set_invalid\<close>, ... are macros that are
  not part of the source file).  Section 3 of the specification fixes the bits:
  bit 0 is INVALID, bit 1 is SNAPSHOT, bit 2 is MINOR.\<close>

definition NILFS_CHECKPOINT_INVALID :: nat where
  "NILFS_CHECKPOINT_INVALID = 0"

definition NILFS_CHECKPOINT_SNAPSHOT :: nat where
  "NILFS_CHECKPOINT_SNAPSHOT = 1"

definition NILFS_CHECKPOINT_MINOR :: nat where
  "NILFS_CHECKPOINT_MINOR = 2"

definition nilfs_checkpoint_invalid :: "nilfs_checkpoint \<Rightarrow> bool" where
  "nilfs_checkpoint_invalid cp = bit (cp_flags cp) NILFS_CHECKPOINT_INVALID"

definition nilfs_checkpoint_set_invalid :: "nilfs_checkpoint \<Rightarrow> nilfs_checkpoint" where
  "nilfs_checkpoint_set_invalid cp =
     cp\<lparr>cp_flags := set_bit NILFS_CHECKPOINT_INVALID (cp_flags cp)\<rparr>"

definition nilfs_checkpoint_clear_invalid :: "nilfs_checkpoint \<Rightarrow> nilfs_checkpoint" where
  "nilfs_checkpoint_clear_invalid cp =
     cp\<lparr>cp_flags := unset_bit NILFS_CHECKPOINT_INVALID (cp_flags cp)\<rparr>"

definition nilfs_checkpoint_snapshot :: "nilfs_checkpoint \<Rightarrow> bool" where
  "nilfs_checkpoint_snapshot cp = bit (cp_flags cp) NILFS_CHECKPOINT_SNAPSHOT"

definition nilfs_checkpoint_set_snapshot :: "nilfs_checkpoint \<Rightarrow> nilfs_checkpoint" where
  "nilfs_checkpoint_set_snapshot cp =
     cp\<lparr>cp_flags := set_bit NILFS_CHECKPOINT_SNAPSHOT (cp_flags cp)\<rparr>"

definition nilfs_checkpoint_clear_snapshot :: "nilfs_checkpoint \<Rightarrow> nilfs_checkpoint" where
  "nilfs_checkpoint_clear_snapshot cp =
     cp\<lparr>cp_flags := unset_bit NILFS_CHECKPOINT_SNAPSHOT (cp_flags cp)\<rparr>"

definition nilfs_checkpoint_minor :: "nilfs_checkpoint \<Rightarrow> bool" where
  "nilfs_checkpoint_minor cp = bit (cp_flags cp) NILFS_CHECKPOINT_MINOR"

definition nilfs_checkpoint_set_minor :: "nilfs_checkpoint \<Rightarrow> nilfs_checkpoint" where
  "nilfs_checkpoint_set_minor cp =
     cp\<lparr>cp_flags := set_bit NILFS_CHECKPOINT_MINOR (cp_flags cp)\<rparr>"

definition nilfs_checkpoint_clear_minor :: "nilfs_checkpoint \<Rightarrow> nilfs_checkpoint" where
  "nilfs_checkpoint_clear_minor cp =
     cp\<lparr>cp_flags := unset_bit NILFS_CHECKPOINT_MINOR (cp_flags cp)\<rparr>"

definition nilfs_cpinfo_snapshot :: "nilfs_cpinfo \<Rightarrow> bool" where
  "nilfs_cpinfo_snapshot ci = bit (ci_flags ci) NILFS_CHECKPOINT_SNAPSHOT"

subsection \<open>The metadata file underneath\<close>

text \<open>A block of the checkpoint file.  Block 0 starts with the header, which takes the
  place of its slot 0; every other block holds checkpoint entries only, and its header
  component is not used.  Slots are addressed by their index in the block.\<close>

record cp_block =
  b_header :: nilfs_cpfile_header
  b_cps :: "nat \<Rightarrow> nilfs_checkpoint"

text \<open>The checkpoint file inode with its metadata-file information: the geometry
  (\<open>mi_entries_per_block\<close>, \<open>mi_first_entry_offset\<close>), the next checkpoint number
  \<open>nilfs_mdt_cno\<close>, the sparse block map, the dirty marks, and the diagnostics logged with
  \<open>nilfs_error\<close> and \<open>nilfs_err\<close>.  The failures of the block layer (I/O error, out of
  memory, read-only file system) are given by two fault tables, one for fetching and one
  for deleting a block.\<close>

record cpfile =
  mi_entries_per_block :: nat
  mi_first_entry_offset :: nat
  mi_cno :: u64
  mi_blocks :: "nat \<Rightarrow> cp_block option"
  mi_get_fault :: "nat \<Rightarrow> errno option"
  mi_delete_fault :: "nat \<Rightarrow> errno option"
  bh_dirty :: "nat set"
  mi_dirty :: bool
  sb_log :: "string list"

definition zero_snapshot_list :: nilfs_snapshot_list where
  "zero_snapshot_list = \<lparr>ssl_next = 0, ssl_prev = 0\<rparr>"

definition zero_checkpoint :: nilfs_checkpoint where
  "zero_checkpoint =
     \<lparr>cp_flags = 0, cp_checkpoints_count = 0, cp_snapshot_list = zero_snapshot_list,
      cp_cno = 0, cp_create = 0, cp_nblk_inc = 0, cp_inodes_count = 0,
      cp_blocks_count = 0, cp_ifile_inode = 0\<rparr>"

definition zero_block :: cp_block where
  "zero_block =
     \<lparr>b_header = \<lparr>ch_ncheckpoints = 0, ch_nsnapshots = 0,
                   ch_snapshot_list = zero_snapshot_list\<rparr>,
      b_cps = (\<lambda>_. zero_checkpoint)\<rparr>"

text \<open>Modelled from the spec: \<open>nilfs_mdt_get_block\<close>, \<open>nilfs_mdt_find_block\<close>,
  \<open>nilfs_mdt_delete_block\<close>, \<open>nilfs_mdt_cno\<close>, \<open>nilfs_mdt_mark_dirty\<close> and
  \<open>mark_buffer_dirty\<close> belong to the metadata-file layer, which is not part of the source
  file; they follow the contract of section 6.  \<open>get_block\<close> returns the block, or
  \<open>-ENOENT\<close> for a hole, or a fault; with \<open>create\<close> it allocates a missing block,
  zero-filled (section 4.4.1: fields other than the flag are left zero), and runs the
  initialiser on it.  \<open>find_block\<close> returns the first existing block of an inclusive range
  of block offsets.  \<open>delete_block\<close> removes a block or fails.  A buffer head is
  represented by the offset of the block it maps.\<close>

definition nilfs_mdt_cno :: "cpfile \<Rightarrow> u64" where
  "nilfs_mdt_cno st = mi_cno st"

definition nilfs_mdt_get_block ::
  "cpfile \<Rightarrow> nat \<Rightarrow> bool \<Rightarrow> (cpfile \<Rightarrow> cp_block \<Rightarrow> cp_block) \<Rightarrow> (errno + nat) \<times> cpfile" where
  "nilfs_mdt_get_block st blkoff create init_block =
     (case mi_get_fault st blkoff of
        Some e \<Rightarrow> (Inl e, st)
      | None \<Rightarrow>
          (case mi_blocks st blkoff of
             Some b \<Rightarrow> (Inr blkoff, st)
           | None \<Rightarrow>
               if create
               then (Inr blkoff,
                     st\<lparr>mi_blocks := (mi_blocks st)(blkoff \<mapsto> init_block st zero_block)\<rparr>)
               else (Inl ENOENT, st)))"

definition nilfs_mdt_find_block :: "cpfile \<Rightarrow> nat \<Rightarrow> nat \<Rightarrow> errno + nat" where
  "nilfs_mdt_find_block st start end_blkoff =
     (case List.find (\<lambda>b. mi_blocks st b \<noteq> None \<or> mi_get_fault st b \<noteq> None)
             [start ..< Suc end_blkoff] of
        None \<Rightarrow> Inl ENOENT
      | Some b \<Rightarrow> (case mi_get_fault st b of Some e \<Rightarrow> Inl e | None \<Rightarrow> Inr b))"

definition nilfs_mdt_delete_block :: "cpfile \<Rightarrow> nat \<Rightarrow> (errno + unit) \<times> cpfile" where
  "nilfs_mdt_delete_block st blkoff =
     (case mi_delete_fault st blkoff of
        Some e \<Rightarrow> (Inl e, st)
      | None \<Rightarrow> (Inr (), st\<lparr>mi_blocks := (mi_blocks st)(blkoff := None)\<rparr>))"

definition nilfs_mdt_mark_dirty :: "cpfile \<Rightarrow> cpfile" where
  "nilfs_mdt_mark_dirty st = st\<lparr>mi_dirty := True\<rparr>"

definition mark_buffer_dirty :: "cpfile \<Rightarrow> nat \<Rightarrow> cpfile" where
  "mark_buffer_dirty st bh = st\<lparr>bh_dirty := insert bh (bh_dirty st)\<rparr>"

definition nilfs_error :: "cpfile \<Rightarrow> string \<Rightarrow> cpfile" where
  "nilfs_error st msg = st\<lparr>sb_log := sb_log st @ [msg]\<rparr>"

definition nilfs_err :: "cpfile \<Rightarrow> string \<Rightarrow> cpfile" where
  "nilfs_err st msg = st\<lparr>sb_log := sb_log st @ [msg]\<rparr>"

text \<open>Reading and writing through a buffer head.  Every buffer head used below comes
  from a successful \<open>get_block\<close> and is released before its block is deleted, so the
  block it maps exists whenever it is read or written.\<close>

definition bh_data :: "cpfile \<Rightarrow> nat \<Rightarrow> cp_block" where
  "bh_data st bh = (case mi_blocks st bh of Some b \<Rightarrow> b | None \<Rightarrow> zero_block)"

definition bh_update :: "cpfile \<Rightarrow> nat \<Rightarrow> (cp_block \<Rightarrow> cp_block) \<Rightarrow> cpfile" where
  "bh_update st bh f =
     (case mi_blocks st bh of
        Some b \<Rightarrow> st\<lparr>mi_blocks := (mi_blocks st)(bh \<mapsto> f b)\<rparr>
      | None \<Rightarrow> st)"

definition cp_write :: "cpfile \<Rightarrow> nat \<Rightarrow> nat \<Rightarrow> (nilfs_checkpoint \<Rightarrow> nilfs_checkpoint) \<Rightarrow> cpfile" where
  "cp_write st bh slot f =
     bh_update st bh (\<lambda>b. b\<lparr>b_cps := (b_cps b)(slot := f (b_cps b slot))\<rparr>)"

definition header_write ::
  "cpfile \<Rightarrow> nat \<Rightarrow> (nilfs_cpfile_header \<Rightarrow> nilfs_cpfile_header) \<Rightarrow> cpfile" where
  "header_write st bh f = bh_update st bh (\<lambda>b. b\<lparr>b_header := f (b_header b)\<rparr>)"

subsection \<open>Block layout\<close>

definition nilfs_cpfile_checkpoints_per_block :: "cpfile \<Rightarrow> nat" where
  "nilfs_cpfile_checkpoints_per_block st = mi_entries_per_block st"

definition nilfs_cpfile_get_blkoff :: "cpfile \<Rightarrow> u64 \<Rightarrow> nat" where
  "nilfs_cpfile_get_blkoff st cno =
     (let tcno = cno + of_nat (mi_first_entry_offset st) - 1
      in unat tcno div nilfs_cpfile_checkpoints_per_block st)"

definition nilfs_cpfile_get_offset :: "cpfile \<Rightarrow> u64 \<Rightarrow> nat" where
  "nilfs_cpfile_get_offset st cno =
     (let tcno = cno + of_nat (mi_first_entry_offset st) - 1
      in unat tcno mod nilfs_cpfile_checkpoints_per_block st)"

definition nilfs_cpfile_first_checkpoint_in_block :: "cpfile \<Rightarrow> nat \<Rightarrow> u64" where
  "nilfs_cpfile_first_checkpoint_in_block st blkoff =
     of_nat (nilfs_cpfile_checkpoints_per_block st) * of_nat blkoff
       + 1 - of_nat (mi_first_entry_offset st)"

definition nilfs_cpfile_checkpoints_in_block :: "cpfile \<Rightarrow> u64 \<Rightarrow> u64 \<Rightarrow> nat" where
  "nilfs_cpfile_checkpoints_in_block st curr_cno max_cno =
     min (nilfs_cpfile_checkpoints_per_block st - nilfs_cpfile_get_offset st curr_cno)
         (unat (max_cno - curr_cno))"

definition nilfs_cpfile_is_in_first :: "cpfile \<Rightarrow> u64 \<Rightarrow> bool" where
  "nilfs_cpfile_is_in_first st cno = (nilfs_cpfile_get_blkoff st cno = 0)"

text \<open>The geometry the checkpoint file is set up with: at least one entry per block
  (the division of the layout functions is by this number) and the header filling
  exactly the first slot of block 0.\<close>

definition geometry_ok :: "cpfile \<Rightarrow> bool" where
  "geometry_ok st = (0 < mi_entries_per_block st \<and> mi_first_entry_offset st = 1)"

subsection \<open>Per-block census and block accessors\<close>

definition nilfs_cpfile_block_add_valid_checkpoints :: "cpfile \<Rightarrow> nat \<Rightarrow> u32 \<Rightarrow> u32 \<times> cpfile" where
  "nilfs_cpfile_block_add_valid_checkpoints st bh n =
     (let count = cp_checkpoints_count (b_cps (bh_data st bh) 0) + n
      in (count, cp_write st bh 0 (\<lambda>cp. cp\<lparr>cp_checkpoints_count := count\<rparr>)))"

definition nilfs_cpfile_block_sub_valid_checkpoints :: "cpfile \<Rightarrow> nat \<Rightarrow> u32 \<Rightarrow> u32 \<times> cpfile" where
  "nilfs_cpfile_block_sub_valid_checkpoints st bh n =
     (let count = cp_checkpoints_count (b_cps (bh_data st bh) 0) - n
      in (count, cp_write st bh 0 (\<lambda>cp. cp\<lparr>cp_checkpoints_count := count\<rparr>)))"

definition nilfs_cpfile_block_init :: "cpfile \<Rightarrow> cp_block \<Rightarrow> cp_block" where
  "nilfs_cpfile_block_init st b =
     b\<lparr>b_cps := (\<lambda>i. if i < nilfs_cpfile_checkpoints_per_block st
                      then nilfs_checkpoint_set_invalid (b_cps b i) else b_cps b i)\<rparr>"

definition nilfs_cpfile_get_header_block :: "cpfile \<Rightarrow> (errno + nat) \<times> cpfile" where
  "nilfs_cpfile_get_header_block st =
     (case nilfs_mdt_get_block st 0 False (\<lambda>_ b. b) of
        (Inl e, st') \<Rightarrow>
          if e = ENOENT
          then (Inl EIO, nilfs_error st' ''missing header block in checkpoint metadata'')
          else (Inl e, st')
      | (Inr bh, st') \<Rightarrow> (Inr bh, st'))"

definition nilfs_cpfile_get_checkpoint_block ::
  "cpfile \<Rightarrow> u64 \<Rightarrow> bool \<Rightarrow> (errno + nat) \<times> cpfile" where
  "nilfs_cpfile_get_checkpoint_block st cno create =
     nilfs_mdt_get_block st (nilfs_cpfile_get_blkoff st cno) create nilfs_cpfile_block_init"

definition nilfs_cpfile_find_checkpoint_block ::
  "cpfile \<Rightarrow> u64 \<Rightarrow> u64 \<Rightarrow> errno + (u64 \<times> nat)" where
  "nilfs_cpfile_find_checkpoint_block st start_cno end_cno =
     (if start_cno > end_cno then Inl ENOENT
      else
        let start = nilfs_cpfile_get_blkoff st start_cno;
            end_blkoff = nilfs_cpfile_get_blkoff st end_cno
        in case nilfs_mdt_find_block st start end_blkoff of
             Inl e \<Rightarrow> Inl e
           | Inr blkoff \<Rightarrow>
               Inr (if blkoff = start then start_cno
                    else nilfs_cpfile_first_checkpoint_in_block st blkoff, blkoff))"

definition nilfs_cpfile_delete_checkpoint_block :: "cpfile \<Rightarrow> u64 \<Rightarrow> (errno + unit) \<times> cpfile" where
  "nilfs_cpfile_delete_checkpoint_block st cno =
     nilfs_mdt_delete_block st (nilfs_cpfile_get_blkoff st cno)"

subsection \<open>Creating a checkpoint entry\<close>

definition nilfs_cpfile_create_checkpoint :: "cpfile \<Rightarrow> u64 \<Rightarrow> (errno + unit) \<times> cpfile" where
  "nilfs_cpfile_create_checkpoint st cno =
     (if cno < 1 then (Inl EIO, st)
      else
        case nilfs_cpfile_get_header_block st of
          (Inl e, st1) \<Rightarrow> (Inl e, st1)
        | (Inr header_bh, st1) \<Rightarrow>
            (case nilfs_cpfile_get_checkpoint_block st1 cno True of
               (Inl e, st2) \<Rightarrow> (Inl e, st2)
             | (Inr cp_bh, st2) \<Rightarrow>
                 let offset = nilfs_cpfile_get_offset st2 cno;
                     st6 =
                       (if nilfs_checkpoint_invalid (b_cps (bh_data st2 cp_bh) offset)
                        then
                          let st3 = cp_write st2 cp_bh offset nilfs_checkpoint_clear_invalid;
                              st4 = (if \<not> nilfs_cpfile_is_in_first st3 cno
                                     then snd (nilfs_cpfile_block_add_valid_checkpoints st3 cp_bh 1)
                                     else st3);
                              st5 = header_write st4 header_bh
                                      (\<lambda>h. h\<lparr>ch_ncheckpoints := ch_ncheckpoints h + 1\<rparr>)
                          in mark_buffer_dirty st5 header_bh
                        else st2)
                 in (Inr (), nilfs_mdt_mark_dirty (mark_buffer_dirty st6 cp_bh))))"

text \<open>The same function with the lock and the buffers made visible.  The calls
  \<open>down_write\<close> and \<open>up_write\<close> on \<open>mi_sem\<close>, every block requested from the metadata file
  (\<open>nilfs_cpfile_get_header_block\<close> asks for block 0 without creation,
  \<open>nilfs_cpfile_get_checkpoint_block\<close> for the block of \<open>cno\<close> with creation) and every
  \<open>brelse\<close> are recorded, in the order of the C code, in a list of events returned beside
  the result.  The labels \<open>out_header\<close> and \<open>out_sem\<close> are the tails of the three lists.\<close>

datatype cp_event = Down_write | Up_write | Get_block nat bool | Brelse nat

definition nilfs_cpfile_create_checkpoint_ev ::
  "cpfile \<Rightarrow> u64 \<Rightarrow> ((errno + unit) \<times> cpfile) \<times> cp_event list" where
  "nilfs_cpfile_create_checkpoint_ev st cno =
     (if cno < 1 then ((Inl EIO, st), [])
      else
        case nilfs_cpfile_get_header_block st of
          (Inl e, st1) \<Rightarrow> ((Inl e, st1), [Down_write, Get_block 0 False, Up_write])
        | (Inr header_bh, st1) \<Rightarrow>
            (case nilfs_cpfile_get_checkpoint_block st1 cno True of
               (Inl e, st2) \<Rightarrow>
                 ((Inl e, st2),
                  [Down_write, Get_block 0 False,
                   Get_block (nilfs_cpfile_get_blkoff st1 cno) True,
                   Brelse header_bh, Up_write])
             | (Inr cp_bh, st2) \<Rightarrow>
                 let offset = nilfs_cpfile_get_offset st2 cno;
                     st6 =
                       (if nilfs_checkpoint_invalid (b_cps (bh_data st2 cp_bh) offset)
                        then
                          let st3 = cp_write st2 cp_bh offset nilfs_checkpoint_clear_invalid;
                              st4 = (if \<not> nilfs_cpfile_is_in_first st3 cno
                                     then snd (nilfs_cpfile_block_add_valid_checkpoints st3 cp_bh 1)
                                     else st3);
                              st5 = header_write st4 header_bh
                                      (\<lambda>h. h\<lparr>ch_ncheckpoints := ch_ncheckpoints h + 1\<rparr>)
                          in mark_buffer_dirty st5 header_bh
                        else st2)
                 in ((Inr (), nilfs_mdt_mark_dirty (mark_buffer_dirty st6 cp_bh)),
                     [Down_write, Get_block 0 False,
                      Get_block (nilfs_cpfile_get_blkoff st1 cno) True,
                      Brelse cp_bh, Brelse header_bh, Up_write])))"

text \<open>The result and the state of the two versions are the same, and for every
  \<open>cno \<ge> 1\<close> the lock is taken and block 0 is requested.\<close>

lemma create_checkpoint_ev_result:
  "fst (nilfs_cpfile_create_checkpoint_ev st cno) = nilfs_cpfile_create_checkpoint st cno"
  by (simp add: nilfs_cpfile_create_checkpoint_ev_def nilfs_cpfile_create_checkpoint_def Let_def
      split: prod.splits sum.splits)

lemma create_checkpoint_ev_locks:
  "1 \<le> cno \<Longrightarrow>
   \<exists>evs. snd (nilfs_cpfile_create_checkpoint_ev st cno) =
           Down_write # Get_block 0 False # evs @ [Up_write]"
  by (auto simp: nilfs_cpfile_create_checkpoint_ev_def Let_def not_less
      split: prod.splits sum.splits)

text \<open>C9: \<open>create_checkpoint\<close> called with \<open>cno = 0\<close> returns \<open>-EIO\<close> and leaves the whole
  state of the checkpoint file (blocks, header, dirty marks, log) as it was; its list of
  events is empty, that is, the lock \<open>mi_sem\<close> is not taken and no block is requested or
  released on this path.\<close>

theorem create_checkpoint_zero_eio:
  "nilfs_cpfile_create_checkpoint st 0 = (Inl EIO, st) \<and>
   nilfs_cpfile_create_checkpoint_ev st 0 = ((Inl EIO, st), [])"
  by (simp add: nilfs_cpfile_create_checkpoint_def nilfs_cpfile_create_checkpoint_ev_def)

subsection \<open>Reading and finalizing a checkpoint entry\<close>

text \<open>\<open>nilfs_read_inode_common\<close>, \<open>nilfs_write_inode_common\<close> and \<open>nilfs_bmap_write\<close> belong
  to the inode layer; the two operations below take them as parameters: the reader
  returns its error code and the inode it filled, the writer (the inode writer followed by
  the bmap writer) returns the raw inode it produced.\<close>

definition nilfs_cpfile_read_checkpoint ::
  "(inode \<Rightarrow> nilfs_inode \<Rightarrow> int \<times> inode) \<Rightarrow> cpfile \<Rightarrow> u64 \<Rightarrow> nilfs_root \<Rightarrow> inode
     \<Rightarrow> (errno + unit) \<times> cpfile \<times> nilfs_root \<times> inode" where
  "nilfs_cpfile_read_checkpoint nilfs_read_inode_common st cno root ifile_inode =
     (if cno < 1 \<or> cno > nilfs_mdt_cno st then (Inl EINVAL, st, root, ifile_inode)
      else
        case nilfs_cpfile_get_checkpoint_block st cno False of
          (Inl e, st1) \<Rightarrow> (Inl (if e = ENOENT then EINVAL else e), st1, root, ifile_inode)
        | (Inr cp_bh, st1) \<Rightarrow>
            let offset = nilfs_cpfile_get_offset st1 cno;
                cp = b_cps (bh_data st1 cp_bh) offset
            in if nilfs_checkpoint_invalid cp then (Inl EINVAL, st1, root, ifile_inode)
               else
                 (case nilfs_read_inode_common ifile_inode (cp_ifile_inode cp) of
                    (ret, ifile_inode') \<Rightarrow>
                      if ret \<noteq> 0
                      then (Inl EIO,
                            nilfs_err st1 ''ifile inode (checkpoint number=%llu) corrupted'',
                            root, ifile_inode')
                      else (Inr (), st1,
                            root\<lparr>inodes_count := cp_inodes_count cp,
                                 blocks_count := cp_blocks_count cp,
                                 ifile := Some ifile_inode'\<rparr>,
                            ifile_inode')))"

definition finalize_fill ::
  "(inode option \<Rightarrow> nilfs_inode \<Rightarrow> nilfs_inode) \<Rightarrow> u64 \<Rightarrow> nilfs_root \<Rightarrow> u64 \<Rightarrow> u64 \<Rightarrow> bool
     \<Rightarrow> nilfs_checkpoint \<Rightarrow> nilfs_checkpoint" where
  "finalize_fill write_inode cno root blkinc ctime minor cp =
     (let cp1 = cp\<lparr>cp_snapshot_list := (cp_snapshot_list cp)\<lparr>ssl_next := 0, ssl_prev := 0\<rparr>,
                   cp_inodes_count := inodes_count root,
                   cp_blocks_count := blocks_count root,
                   cp_nblk_inc := blkinc,
                   cp_create := ctime,
                   cp_cno := cno\<rparr>;
          cp2 = (if minor then nilfs_checkpoint_set_minor cp1
                 else nilfs_checkpoint_clear_minor cp1)
      in cp2\<lparr>cp_ifile_inode := write_inode (ifile root) (cp_ifile_inode cp2)\<rparr>)"

definition nilfs_cpfile_finalize_checkpoint ::
  "(inode option \<Rightarrow> nilfs_inode \<Rightarrow> nilfs_inode) \<Rightarrow> cpfile \<Rightarrow> u64 \<Rightarrow> nilfs_root \<Rightarrow> u64 \<Rightarrow> u64
     \<Rightarrow> bool \<Rightarrow> (errno + unit) \<times> cpfile" where
  "nilfs_cpfile_finalize_checkpoint write_inode st cno root blkinc ctime minor =
     (if cno < 1 then (Inl EIO, st)
      else
        case nilfs_cpfile_get_checkpoint_block st cno False of
          (Inl e, st1) \<Rightarrow>
            if e = ENOENT
            then (Inl EIO,
                  nilfs_error st1 ''checkpoint finalization failed due to metadata corruption.'')
            else (Inl e, st1)
        | (Inr cp_bh, st1) \<Rightarrow>
            let offset = nilfs_cpfile_get_offset st1 cno
            in if nilfs_checkpoint_invalid (b_cps (bh_data st1 cp_bh) offset)
               then (Inl EIO,
                     nilfs_error st1
                       ''checkpoint finalization failed due to metadata corruption.'')
               else (Inr (),
                     cp_write st1 cp_bh offset
                       (finalize_fill write_inode cno root blkinc ctime minor)))"

subsection \<open>Deleting a range of checkpoints\<close>

text \<open>The inner loop over the \<open>ncps\<close> slots of one block, starting at \<open>slot\<close>: a snapshot is
  counted in \<open>nss\<close> and left alone, any other valid entry is marked invalid and counted in
  \<open>nicps\<close>.\<close>

fun del_scan ::
  "(nat \<Rightarrow> nilfs_checkpoint) \<Rightarrow> nat \<Rightarrow> nat \<Rightarrow> nat \<Rightarrow> nat
     \<Rightarrow> (nat \<Rightarrow> nilfs_checkpoint) \<times> nat \<times> nat" where
  "del_scan cps slot 0 nicps nss = (cps, nicps, nss)"
| "del_scan cps slot (Suc k) nicps nss =
     (if nilfs_checkpoint_snapshot (cps slot)
      then del_scan cps (Suc slot) k nicps (Suc nss)
      else if \<not> nilfs_checkpoint_invalid (cps slot)
      then del_scan (cps(slot := nilfs_checkpoint_set_invalid (cps slot))) (Suc slot) k
             (Suc nicps) nss
      else del_scan cps (Suc slot) k nicps nss)"

text \<open>The outer loop \<open>for (cno = start; cno < end; cno += ncps)\<close>.  It returns the value
  of \<open>ret\<close> at its exit together with \<open>tnicps\<close> and \<open>nss\<close>.  With no entry per block the C
  code divides by zero; the loop of the model stops there.\<close>

function del_loop ::
  "cpfile \<Rightarrow> u64 \<Rightarrow> u64 \<Rightarrow> nat \<Rightarrow> nat \<Rightarrow> (errno + unit) \<times> cpfile \<times> nat \<times> nat" where
  "del_loop st cno end_cno tnicps nss =
     (if cno < end_cno \<and> 0 < nilfs_cpfile_checkpoints_per_block st then
        let ncps = nilfs_cpfile_checkpoints_in_block st cno end_cno
        in case nilfs_cpfile_get_checkpoint_block st cno False of
             (Inl e, st1) \<Rightarrow>
               if e \<noteq> ENOENT then (Inl e, st1, tnicps, nss)
               else del_loop st1 (cno + of_nat ncps) end_cno tnicps nss
           | (Inr cp_bh, st1) \<Rightarrow>
               let offset = nilfs_cpfile_get_offset st1 cno
               in case del_scan (b_cps (bh_data st1 cp_bh)) offset ncps 0 nss of
                    (cps', nicps, nss') \<Rightarrow>
                      let st2 = bh_update st1 cp_bh (\<lambda>b. b\<lparr>b_cps := cps'\<rparr>)
                      in if nicps \<le> 0
                         then del_loop st2 (cno + of_nat ncps) end_cno tnicps nss'
                         else
                           let tnicps' = tnicps + nicps;
                               st3 = nilfs_mdt_mark_dirty (mark_buffer_dirty st2 cp_bh)
                           in if nilfs_cpfile_is_in_first st3 cno
                              then del_loop st3 (cno + of_nat ncps) end_cno tnicps' nss'
                              else
                                (case nilfs_cpfile_block_sub_valid_checkpoints st3 cp_bh
                                        (of_nat nicps) of
                                   (count, st4) \<Rightarrow>
                                     if count \<noteq> 0
                                     then del_loop st4 (cno + of_nat ncps) end_cno tnicps' nss'
                                     else
                                       (case nilfs_cpfile_delete_checkpoint_block st4 cno of
                                          (Inl e, st5) \<Rightarrow>
                                            (Inl e,
                                             nilfs_err st5 ''error %d deleting checkpoint block'',
                                             tnicps', nss')
                                        | (Inr u, st5) \<Rightarrow>
                                            del_loop st5 (cno + of_nat ncps) end_cno
                                              tnicps' nss'))
      else (Inr (), st, tnicps, nss))"
  by pat_completeness auto

lemma word_advance_unat:
  fixes cno end_cno :: u64
  assumes "cno < end_cno" "n \<le> unat (end_cno - cno)"
  shows "unat (cno + of_nat n) = unat cno + n"
proof -
  have le: "cno \<le> end_cno" using assms(1) by simp
  have "unat (end_cno - cno) = unat end_cno - unat cno"
    using le by (simp add: unat_sub)
  then have b: "unat cno + n \<le> unat end_cno" using assms le
    by (simp add: word_le_nat_alt)
  have "unat end_cno < 2 ^ 64" using unsigned_less[of end_cno, where 'a=nat] by simp
  then have lt: "unat cno + n < 2 ^ LENGTH(64)" using b by simp
  have un: "unat (word_of_nat n :: u64) = n"
    using assms(2) by (rule le_unat_uoi)
  have "unat cno + unat (word_of_nat n :: u64) < 2 ^ LENGTH(64)"
    using lt un by simp
  then have "unat (cno + word_of_nat n) = unat cno + unat (word_of_nat n :: u64)"
    by (simp only: unat_add_lem)
  then show ?thesis using un by simp
qed

lemma checkpoints_in_block_pos:
  "cno < end_cno \<Longrightarrow> 0 < nilfs_cpfile_checkpoints_per_block st
     \<Longrightarrow> 0 < nilfs_cpfile_checkpoints_in_block st cno end_cno"
  by (auto simp: nilfs_cpfile_checkpoints_in_block_def nilfs_cpfile_get_offset_def Let_def
        unat_gt_0)

lemma checkpoints_in_block_le:
  "nilfs_cpfile_checkpoints_in_block st cno end_cno \<le> unat (end_cno - cno)"
  by (simp add: nilfs_cpfile_checkpoints_in_block_def)

lemma del_loop_measure:
  fixes cno end_cno :: u64
  assumes "cno < end_cno" "0 < nilfs_cpfile_checkpoints_per_block st"
  shows "unat end_cno - unat (cno + of_nat (nilfs_cpfile_checkpoints_in_block st cno end_cno))
           < unat end_cno - unat cno"
proof -
  let ?n = "nilfs_cpfile_checkpoints_in_block st cno end_cno"
  have "unat (cno + of_nat ?n) = unat cno + ?n"
    by (rule word_advance_unat[OF assms(1) checkpoints_in_block_le])
  moreover have "0 < ?n" by (rule checkpoints_in_block_pos[OF assms])
  moreover have "unat cno < unat end_cno" using assms(1) by (simp add: word_less_nat_alt)
  ultimately show ?thesis by simp
qed

termination del_loop
  apply (relation "measure (\<lambda>(st, cno, end_cno, tnicps, nss). unat end_cno - unat cno)")
  apply simp
  apply (auto simp: del_loop_measure)
  done

definition nilfs_cpfile_delete_checkpoints ::
  "cpfile \<Rightarrow> u64 \<Rightarrow> u64 \<Rightarrow> (errno + unit) \<times> cpfile" where
  "nilfs_cpfile_delete_checkpoints st start end_cno =
     (if start = 0 \<or> start > end_cno
      then (Inl EINVAL,
            nilfs_err st ''cannot delete checkpoints: invalid range [%llu, %llu)'')
      else
        case nilfs_cpfile_get_header_block st of
          (Inl e, st1) \<Rightarrow> (Inl e, st1)
        | (Inr header_bh, st1) \<Rightarrow>
            (case del_loop st1 start end_cno 0 0 of
               (ret, st2, tnicps, nss) \<Rightarrow>
                 let st3 =
                       (if tnicps > 0
                        then nilfs_mdt_mark_dirty
                               (mark_buffer_dirty
                                  (header_write st2 header_bh
                                     (\<lambda>h. h\<lparr>ch_ncheckpoints :=
                                                ch_ncheckpoints h + (- of_nat tnicps)\<rparr>))
                                  header_bh)
                        else st2)
                 in (if nss > 0 then Inl EBUSY else ret, st3)))"

subsection \<open>Enumerating checkpoints and snapshots\<close>

definition nilfs_cpfile_checkpoint_to_cpinfo :: "nilfs_checkpoint \<Rightarrow> nilfs_cpinfo" where
  "nilfs_cpfile_checkpoint_to_cpinfo cp =
     \<lparr>ci_flags = cp_flags cp, ci_cno = cp_cno cp, ci_create = cp_create cp,
      ci_nblk_inc = cp_nblk_inc cp, ci_inodes_count = cp_inodes_count cp,
      ci_blocks_count = cp_blocks_count cp, ci_next = ssl_next (cp_snapshot_list cp)\<rparr>"

text \<open>The output buffer is the list of the items stored so far, \<open>n\<close> is its length.  The
  inner loop of \<open>nilfs_cpfile_do_get_cpinfo\<close> runs over the \<open>ncps\<close> slots from \<open>slot\<close> while
  \<open>n < nci\<close>.\<close>

fun cpinfo_scan ::
  "(nat \<Rightarrow> nilfs_checkpoint) \<Rightarrow> nat \<Rightarrow> nat \<Rightarrow> nat \<Rightarrow> nilfs_cpinfo list \<Rightarrow> nilfs_cpinfo list" where
  "cpinfo_scan cps slot 0 nci buf = buf"
| "cpinfo_scan cps slot (Suc k) nci buf =
     (if length buf < nci
      then (if \<not> nilfs_checkpoint_invalid (cps slot)
            then cpinfo_scan cps (Suc slot) k nci
                   (buf @ [nilfs_cpfile_checkpoint_to_cpinfo (cps slot)])
            else cpinfo_scan cps (Suc slot) k nci buf)
      else buf)"

text \<open>The outer loop \<open>for (n = 0; n < nci; cno += ncps)\<close>.  Nothing bounds it when the
  checkpoint number wraps around, so not returning is a possible outcome (\<open>None\<close>).\<close>

partial_function (option) cpinfo_loop ::
  "cpfile \<Rightarrow> u64 \<Rightarrow> nat \<Rightarrow> u64 \<Rightarrow> nilfs_cpinfo list \<Rightarrow> (errno + nilfs_cpinfo list) option" where
  "cpinfo_loop st cur_cno nci cno buf =
     (if length buf < nci then
        (case nilfs_cpfile_find_checkpoint_block st cno (cur_cno - 1) of
           Inl e \<Rightarrow> if e = ENOENT then Some (Inr buf) else Some (Inl e)
         | Inr (cno1, bh) \<Rightarrow>
             let ncps = nilfs_cpfile_checkpoints_in_block st cno1 cur_cno;
                 offset = nilfs_cpfile_get_offset st cno1
             in cpinfo_loop st cur_cno nci (cno1 + of_nat ncps)
                  (cpinfo_scan (b_cps (bh_data st bh)) offset ncps nci buf))
      else Some (Inr buf))"

definition nilfs_cpfile_do_get_cpinfo ::
  "cpfile \<Rightarrow> u64 \<Rightarrow> nat \<Rightarrow> ((errno + nilfs_cpinfo list) \<times> u64) option" where
  "nilfs_cpfile_do_get_cpinfo st cno nci =
     (if cno = 0 then Some (Inl ENOENT, cno)
      else
        case cpinfo_loop st (nilfs_mdt_cno st) nci cno [] of
          None \<Rightarrow> None
        | Some (Inl e) \<Rightarrow> Some (Inl e, cno)
        | Some (Inr buf) \<Rightarrow>
            Some (Inr buf, if length buf > 0 then ci_cno (last buf) + 1 else cno))"

text \<open>The loop of \<open>nilfs_cpfile_do_get_ssinfo\<close>: \<open>cno\<close> is the checkpoint the pointer
  \<open>cp\<close> stands on.  It returns the buffer and the value stored to \<open>*cnop\<close>, or the error of
  a failed block fetch.\<close>

function ssinfo_loop ::
  "cpfile \<Rightarrow> nat \<Rightarrow> u64 \<Rightarrow> nat \<Rightarrow> nat \<Rightarrow> nilfs_cpinfo list
     \<Rightarrow> errno + (nilfs_cpinfo list \<times> u64)" where
  "ssinfo_loop st nci cno curr_blkoff bh buf =
     (if length buf < nci then
        let cp = b_cps (bh_data st bh) (nilfs_cpfile_get_offset st cno)
        in if nilfs_checkpoint_invalid cp \<or> \<not> nilfs_checkpoint_snapshot cp
           then Inr (buf, - 1)
           else
             let buf' = buf @ [nilfs_cpfile_checkpoint_to_cpinfo cp];
                 next_cno = ssl_next (cp_snapshot_list cp)
             in if next_cno = 0 then Inr (buf', - 1)
                else
                  let next_blkoff = nilfs_cpfile_get_blkoff st next_cno
                  in if curr_blkoff \<noteq> next_blkoff
                     then (case nilfs_cpfile_get_checkpoint_block st next_cno False of
                             (Inl e, st') \<Rightarrow> Inl e
                           | (Inr bh', st') \<Rightarrow>
                               ssinfo_loop st nci next_cno next_blkoff bh' buf')
                     else ssinfo_loop st nci next_cno next_blkoff bh buf'
      else Inr (buf, cno))"
  by pat_completeness auto
termination
  by (relation "measure (\<lambda>(st, nci, cno, curr_blkoff, bh, buf). nci - length buf)") auto

definition ssinfo_walk ::
  "cpfile \<Rightarrow> u64 \<Rightarrow> u64 \<Rightarrow> nat \<Rightarrow> (errno + nilfs_cpinfo list) \<times> u64 \<times> cpfile" where
  "ssinfo_walk st cno c nci =
     (let curr_blkoff = nilfs_cpfile_get_blkoff st c
      in case nilfs_cpfile_get_checkpoint_block st c False of
           (Inl e, st2) \<Rightarrow> (if e = ENOENT then Inr [] else Inl e, cno, st2)
         | (Inr bh, st2) \<Rightarrow>
             (case ssinfo_loop st2 nci c curr_blkoff bh [] of
                Inl e \<Rightarrow> (Inl e, cno, st2)
              | Inr (buf, c') \<Rightarrow> (Inr buf, c', st2)))"

text \<open>\<open>nilfs_cpfile_do_get_ssinfo\<close> returns the items (or the error), the value of \<open>*cnop\<close>
  after the call, and the state; \<open>ssinfo_walk\<close> is its part from the first block fetch on,
  with \<open>c\<close> the checkpoint number the walk starts from.\<close>

definition nilfs_cpfile_do_get_ssinfo ::
  "cpfile \<Rightarrow> u64 \<Rightarrow> nat \<Rightarrow> (errno + nilfs_cpinfo list) \<times> u64 \<times> cpfile" where
  "nilfs_cpfile_do_get_ssinfo st cno nci =
     (if cno = 0 then
        (case nilfs_cpfile_get_header_block st of
           (Inl e, st1) \<Rightarrow> (Inl e, cno, st1)
         | (Inr bh, st1) \<Rightarrow>
             (let c = ssl_next (ch_snapshot_list (b_header (bh_data st1 bh)))
              in if c = 0 then (Inr [], cno, st1) else ssinfo_walk st1 cno c nci))
      else if cno = - 1 then (Inr [], cno, st)
      else ssinfo_walk st cno cno nci)"

text \<open>The two modes of the API header, which is not part of the source file; only their
  being different matters.\<close>

definition NILFS_CHECKPOINT :: int where
  "NILFS_CHECKPOINT = 0"

definition NILFS_SNAPSHOT :: int where
  "NILFS_SNAPSHOT = 1"

definition nilfs_cpfile_get_cpinfo ::
  "cpfile \<Rightarrow> u64 \<Rightarrow> int \<Rightarrow> nat \<Rightarrow> ((errno + nilfs_cpinfo list) \<times> u64 \<times> cpfile) option" where
  "nilfs_cpfile_get_cpinfo st cno mode nci =
     (if mode = NILFS_CHECKPOINT
      then (case nilfs_cpfile_do_get_cpinfo st cno nci of
              None \<Rightarrow> None
            | Some (ret, cno') \<Rightarrow> Some (ret, cno', st))
      else if mode = NILFS_SNAPSHOT then Some (nilfs_cpfile_do_get_ssinfo st cno nci)
      else Some (Inl EINVAL, cno, st))"

subsection \<open>Deleting a single checkpoint\<close>

definition nilfs_cpfile_delete_checkpoint ::
  "cpfile \<Rightarrow> u64 \<Rightarrow> ((errno + unit) \<times> cpfile) option" where
  "nilfs_cpfile_delete_checkpoint st cno =
     (case nilfs_cpfile_do_get_cpinfo st cno 1 of
        None \<Rightarrow> None
      | Some (Inl e, tcno) \<Rightarrow> Some (Inl e, st)
      | Some (Inr [], tcno) \<Rightarrow> Some (Inl ENOENT, st)
      | Some (Inr (ci # cis), tcno) \<Rightarrow>
          if ci_cno ci \<noteq> cno then Some (Inl ENOENT, st)
          else if nilfs_cpinfo_snapshot ci then Some (Inl EBUSY, st)
          else Some (nilfs_cpfile_delete_checkpoints st cno (cno + 1)))"

subsection \<open>The snapshot list\<close>

text \<open>A snapshot list is addressed through a buffer head and a byte offset that is either
  the offset of the list in the header or the offset of the list of the entry in a slot.\<close>

datatype list_offset = ChSnapshotList | CpSnapshotList nat

definition nilfs_cpfile_cp_snapshot_list_offset :: "cpfile \<Rightarrow> u64 \<Rightarrow> nat \<Rightarrow> list_offset" where
  "nilfs_cpfile_cp_snapshot_list_offset st cno bh = CpSnapshotList (nilfs_cpfile_get_offset st cno)"

definition nilfs_cpfile_ch_snapshot_list_offset :: list_offset where
  "nilfs_cpfile_ch_snapshot_list_offset = ChSnapshotList"

definition list_read :: "cpfile \<Rightarrow> nat \<Rightarrow> list_offset \<Rightarrow> nilfs_snapshot_list" where
  "list_read st bh off =
     (case off of
        ChSnapshotList \<Rightarrow> ch_snapshot_list (b_header (bh_data st bh))
      | CpSnapshotList slot \<Rightarrow> cp_snapshot_list (b_cps (bh_data st bh) slot))"

definition list_write ::
  "cpfile \<Rightarrow> nat \<Rightarrow> list_offset \<Rightarrow> (nilfs_snapshot_list \<Rightarrow> nilfs_snapshot_list) \<Rightarrow> cpfile" where
  "list_write st bh off f =
     (case off of
        ChSnapshotList \<Rightarrow>
          header_write st bh (\<lambda>h. h\<lparr>ch_snapshot_list := f (ch_snapshot_list h)\<rparr>)
      | CpSnapshotList slot \<Rightarrow>
          cp_write st bh slot (\<lambda>cp. cp\<lparr>cp_snapshot_list := f (cp_snapshot_list cp)\<rparr>))"

text \<open>The backward walk of \<open>nilfs_cpfile_set_snapshot\<close>: \<open>while (prev > cno)\<close>.  It follows
  the stored \<open>ssl_prev\<close> links, which nothing bounds on a damaged list, so not returning is
  a possible outcome (\<open>None\<close>).  It returns \<open>curr\<close>, \<open>curr_bh\<close>, \<open>curr_list_offset\<close> and
  \<open>prev\<close>, or the error of a failed block fetch.\<close>

partial_function (option) set_snapshot_walk ::
  "cpfile \<Rightarrow> u64 \<Rightarrow> u64 \<Rightarrow> nat \<Rightarrow> nat \<Rightarrow> list_offset \<Rightarrow> u64
     \<Rightarrow> (errno + (u64 \<times> nat \<times> list_offset \<times> u64)) option" where
  "set_snapshot_walk st cno curr_cno curr_blkoff curr_bh curr_list_offset prev_cno =
     (if prev_cno > cno then
        let prev_blkoff = nilfs_cpfile_get_blkoff st prev_cno
        in case (if curr_blkoff \<noteq> prev_blkoff
                 then fst (nilfs_cpfile_get_checkpoint_block st prev_cno False)
                 else Inr curr_bh) of
             Inl e \<Rightarrow> Some (Inl e)
           | Inr bh \<Rightarrow>
               let off = nilfs_cpfile_cp_snapshot_list_offset st prev_cno bh
               in set_snapshot_walk st cno prev_cno prev_blkoff bh off
                    (ssl_prev (list_read st bh off))
      else Some (Inr (curr_cno, curr_bh, curr_list_offset, prev_cno)))"

text \<open>The block and the offset of the list of a neighbour in the snapshot list: the
  entry of checkpoint \<open>c\<close>, or the header when \<open>c\<close> is 0.\<close>

definition neighbour_list :: "cpfile \<Rightarrow> nat \<Rightarrow> u64 \<Rightarrow> errno + (nat \<times> list_offset)" where
  "neighbour_list st header_bh c =
     (if c \<noteq> 0
      then (case fst (nilfs_cpfile_get_checkpoint_block st c False) of
              Inl e \<Rightarrow> Inl e
            | Inr bh \<Rightarrow> Inr (bh, nilfs_cpfile_cp_snapshot_list_offset st c bh))
      else Inr (header_bh, nilfs_cpfile_ch_snapshot_list_offset))"

definition nilfs_cpfile_set_snapshot :: "cpfile \<Rightarrow> u64 \<Rightarrow> ((errno + unit) \<times> cpfile) option" where
  "nilfs_cpfile_set_snapshot st cno =
     (if cno = 0 then Some (Inl ENOENT, st)
      else
        case nilfs_cpfile_get_header_block st of
          (Inl e, st1) \<Rightarrow> Some (Inl e, st1)
        | (Inr header_bh, st1) \<Rightarrow>
            (case nilfs_cpfile_get_checkpoint_block st1 cno False of
               (Inl e, st2) \<Rightarrow> Some (Inl e, st2)
             | (Inr cp_bh, st2) \<Rightarrow>
                 let offset = nilfs_cpfile_get_offset st2 cno;
                     cp = b_cps (bh_data st2 cp_bh) offset
                 in if nilfs_checkpoint_invalid cp then Some (Inl ENOENT, st2)
                    else if nilfs_checkpoint_snapshot cp then Some (Inr (), st2)
                    else
                      (case set_snapshot_walk st2 cno 0 0 header_bh
                              nilfs_cpfile_ch_snapshot_list_offset
                              (ssl_prev (list_read st2 header_bh
                                           nilfs_cpfile_ch_snapshot_list_offset)) of
                         None \<Rightarrow> None
                       | Some (Inl e) \<Rightarrow> Some (Inl e, st2)
                       | Some (Inr (curr_cno, curr_bh, curr_list_offset, prev_cno)) \<Rightarrow>
                           (case neighbour_list st2 header_bh prev_cno of
                              Inl e \<Rightarrow> Some (Inl e, st2)
                            | Inr (prev_bh, prev_list_offset) \<Rightarrow>
                                let st3 = list_write st2 curr_bh curr_list_offset
                                            (\<lambda>l. l\<lparr>ssl_prev := cno\<rparr>);
                                    st4 = cp_write st3 cp_bh offset
                                            (\<lambda>cp. nilfs_checkpoint_set_snapshot
                                                     (cp\<lparr>cp_snapshot_list :=
                                                           (cp_snapshot_list cp)
                                                             \<lparr>ssl_next := curr_cno,
                                                              ssl_prev := prev_cno\<rparr>\<rparr>));
                                    st5 = list_write st4 prev_bh prev_list_offset
                                            (\<lambda>l. l\<lparr>ssl_next := cno\<rparr>);
                                    st6 = header_write st5 header_bh
                                            (\<lambda>h. h\<lparr>ch_nsnapshots := ch_nsnapshots h + 1\<rparr>);
                                    st7 = mark_buffer_dirty
                                            (mark_buffer_dirty
                                               (mark_buffer_dirty
                                                  (mark_buffer_dirty st6 prev_bh) curr_bh)
                                               cp_bh)
                                            header_bh
                                in Some (Inr (), nilfs_mdt_mark_dirty st7)))))"

definition nilfs_cpfile_clear_snapshot :: "cpfile \<Rightarrow> u64 \<Rightarrow> (errno + unit) \<times> cpfile" where
  "nilfs_cpfile_clear_snapshot st cno =
     (if cno = 0 then (Inl ENOENT, st)
      else
        case nilfs_cpfile_get_header_block st of
          (Inl e, st1) \<Rightarrow> (Inl e, st1)
        | (Inr header_bh, st1) \<Rightarrow>
            (case nilfs_cpfile_get_checkpoint_block st1 cno False of
               (Inl e, st2) \<Rightarrow> (Inl e, st2)
             | (Inr cp_bh, st2) \<Rightarrow>
                 let offset = nilfs_cpfile_get_offset st2 cno;
                     cp = b_cps (bh_data st2 cp_bh) offset
                 in if nilfs_checkpoint_invalid cp then (Inl ENOENT, st2)
                    else if \<not> nilfs_checkpoint_snapshot cp then (Inr (), st2)
                    else
                      let next_cno = ssl_next (cp_snapshot_list cp);
                          prev_cno = ssl_prev (cp_snapshot_list cp)
                      in (case neighbour_list st2 header_bh next_cno of
                           Inl e \<Rightarrow> (Inl e, st2)
                         | Inr (next_bh, next_list_offset) \<Rightarrow>
                             (case neighbour_list st2 header_bh prev_cno of
                                Inl e \<Rightarrow> (Inl e, st2)
                              | Inr (prev_bh, prev_list_offset) \<Rightarrow>
                                  let st3 = list_write st2 next_bh next_list_offset
                                              (\<lambda>l. l\<lparr>ssl_prev := prev_cno\<rparr>);
                                      st4 = list_write st3 prev_bh prev_list_offset
                                              (\<lambda>l. l\<lparr>ssl_next := next_cno\<rparr>);
                                      st5 = cp_write st4 cp_bh offset
                                              (\<lambda>cp. nilfs_checkpoint_clear_snapshot
                                                       (cp\<lparr>cp_snapshot_list :=
                                                             (cp_snapshot_list cp)
                                                               \<lparr>ssl_next := 0,
                                                                ssl_prev := 0\<rparr>\<rparr>));
                                      st6 = header_write st5 header_bh
                                              (\<lambda>h. h\<lparr>ch_nsnapshots := ch_nsnapshots h + (- 1)\<rparr>);
                                      st7 = mark_buffer_dirty
                                              (mark_buffer_dirty
                                                 (mark_buffer_dirty
                                                    (mark_buffer_dirty st6 next_bh) prev_bh)
                                                 cp_bh)
                                              header_bh
                                  in (Inr (), nilfs_mdt_mark_dirty st7)))))"

section \<open>Properties\<close>

subsection \<open>Reading the file by checkpoint number; example files\<close>

text \<open>The entry of a checkpoint number, when its block exists, and the header.\<close>

definition cp_entry :: "cpfile \<Rightarrow> u64 \<Rightarrow> nilfs_checkpoint option" where
  "cp_entry st cno =
     map_option (\<lambda>b. b_cps b (nilfs_cpfile_get_offset st cno))
       (mi_blocks st (nilfs_cpfile_get_blkoff st cno))"

definition cp_header :: "cpfile \<Rightarrow> nilfs_cpfile_header option" where
  "cp_header st = map_option b_header (mi_blocks st 0)"

text \<open>Example files with four entries per block and no faults.  \<open>ex_entry\<close> builds an
  entry from its flags, census, number and list links.\<close>

definition ex_entry :: "u32 \<Rightarrow> u32 \<Rightarrow> u64 \<Rightarrow> u64 \<Rightarrow> u64 \<Rightarrow> nilfs_checkpoint" where
  "ex_entry flags count cno nxt prv =
     \<lparr>cp_flags = flags, cp_checkpoints_count = count,
      cp_snapshot_list = \<lparr>ssl_next = nxt, ssl_prev = prv\<rparr>,
      cp_cno = cno, cp_create = 0, cp_nblk_inc = 0, cp_inodes_count = 7,
      cp_blocks_count = 9, cp_ifile_inode = 0\<rparr>"

definition ex_invalid :: nilfs_checkpoint where
  "ex_invalid = ex_entry 1 0 0 0 0"

definition ex_header :: "u64 \<Rightarrow> u64 \<Rightarrow> u64 \<Rightarrow> u64 \<Rightarrow> nilfs_cpfile_header" where
  "ex_header ncps nsss nxt prv =
     \<lparr>ch_ncheckpoints = ncps, ch_nsnapshots = nsss,
      ch_snapshot_list = \<lparr>ssl_next = nxt, ssl_prev = prv\<rparr>\<rparr>"

definition ex_file :: "u64 \<Rightarrow> (nat \<Rightarrow> cp_block option) \<Rightarrow> cpfile" where
  "ex_file next_cno blocks =
     \<lparr>mi_entries_per_block = 4, mi_first_entry_offset = 1, mi_cno = next_cno,
      mi_blocks = blocks, mi_get_fault = (\<lambda>_. None), mi_delete_fault = (\<lambda>_. None),
      bh_dirty = {}, mi_dirty = False, sb_log = []\<rparr>"

text \<open>A file whose next checkpoint number is 2, with the valid plain checkpoints 1 and 2
  in block 0.\<close>

definition ex_small :: cpfile where
  "ex_small =
     ex_file 2
       [0 \<mapsto> \<lparr>b_header = ex_header 2 0 0 0,
               b_cps = (\<lambda>_. ex_invalid)(1 := ex_entry 0 0 1 0 0, 2 := ex_entry 0 0 2 0 0)\<rparr>]"

definition ex_root :: nilfs_root where
  "ex_root = \<lparr>inodes_count = 0, blocks_count = 0, ifile = None\<rparr>"

lemmas ex_defs = ex_small_def ex_file_def ex_entry_def ex_invalid_def ex_root_def
  ex_header_def zero_snapshot_list_def

lemmas layout_defs = nilfs_cpfile_get_blkoff_def nilfs_cpfile_get_offset_def
  nilfs_cpfile_checkpoints_per_block_def nilfs_cpfile_is_in_first_def

lemmas flag_defs = nilfs_checkpoint_invalid_def nilfs_checkpoint_snapshot_def
  nilfs_checkpoint_minor_def NILFS_CHECKPOINT_INVALID_def NILFS_CHECKPOINT_SNAPSHOT_def
  NILFS_CHECKPOINT_MINOR_def

subsection \<open>C1: the range check of \<open>read_checkpoint\<close>\<close>

text \<open>C1, as stated, fails at \<open>cno = next_cno\<close>: the guard of the code is
  \<open>cno < 1 || cno > nilfs_mdt_cno(cpfile)\<close>, so the checkpoint numbered \<open>next_cno\<close> is
  read when its entry is valid.  In \<open>ex_small\<close> the next checkpoint number is 2 and
  \<open>read_checkpoint\<close> of 2 succeeds and stores the counts 7 and 9 and the ifile in the
  root object.\<close>

theorem read_checkpoint_next_cno_counterexample:
  "nilfs_mdt_cno ex_small \<le> 2 \<and>
   nilfs_cpfile_read_checkpoint (\<lambda>i raw. (0, raw)) ex_small 2 ex_root 0 =
     (Inr (), ex_small, \<lparr>inodes_count = 7, blocks_count = 9, ifile = Some 0\<rparr>, 0)"
  by (simp add: nilfs_cpfile_read_checkpoint_def nilfs_mdt_cno_def ex_defs
        nilfs_cpfile_get_checkpoint_block_def nilfs_mdt_get_block_def layout_defs bh_data_def
        flag_defs)

text \<open>C1, amended: \<open>read_checkpoint\<close> returns \<open>-EINVAL\<close> and leaves the state, the root
  object and the ifile inode as they were when \<open>cno = 0\<close> or \<open>cno > next_cno\<close>, and also
  when the block of \<open>cno\<close> is fetched without a fault and is a hole or holds an INVALID
  entry at \<open>cno\<close>.\<close>

theorem read_checkpoint_einval:
  assumes "cno = 0 \<or> nilfs_mdt_cno st < cno \<or>
           (mi_get_fault st (nilfs_cpfile_get_blkoff st cno) = None \<and>
            (case cp_entry st cno of None \<Rightarrow> True | Some cp \<Rightarrow> nilfs_checkpoint_invalid cp))"
  shows "nilfs_cpfile_read_checkpoint rd st cno root ifl = (Inl EINVAL, st, root, ifl)"
  using assms
  by (auto simp: nilfs_cpfile_read_checkpoint_def nilfs_cpfile_get_checkpoint_block_def
        nilfs_mdt_get_block_def cp_entry_def bh_data_def Let_def
        split: option.splits)

theorem read_checkpoint_einval_witness:
  "nilfs_cpfile_read_checkpoint (\<lambda>i raw. (0, raw)) ex_small 0 ex_root 0
     = (Inl EINVAL, ex_small, ex_root, 0) \<and>
   nilfs_mdt_cno ex_small < 3 \<and>
   nilfs_cpfile_read_checkpoint (\<lambda>i raw. (0, raw)) ex_small 3 ex_root 0
     = (Inl EINVAL, ex_small, ex_root, 0) \<and>
   cp_entry (ex_small\<lparr>mi_cno := 9\<rparr>) 3 = Some ex_invalid \<and>
   nilfs_checkpoint_invalid ex_invalid \<and>
   nilfs_cpfile_read_checkpoint (\<lambda>i raw. (0, raw)) (ex_small\<lparr>mi_cno := 9\<rparr>) 3 ex_root 0
     = (Inl EINVAL, ex_small\<lparr>mi_cno := 9\<rparr>, ex_root, 0) \<and>
   cp_entry (ex_small\<lparr>mi_cno := 9\<rparr>) 5 = None \<and>
   nilfs_cpfile_read_checkpoint (\<lambda>i raw. (0, raw)) (ex_small\<lparr>mi_cno := 9\<rparr>) 5 ex_root 0
     = (Inl EINVAL, ex_small\<lparr>mi_cno := 9\<rparr>, ex_root, 0)"
proof -
  have e3: "cp_entry (ex_small\<lparr>mi_cno := 9\<rparr>) 3 = Some ex_invalid"
    by (simp add: cp_entry_def ex_small_def ex_file_def layout_defs)
  have e5: "cp_entry (ex_small\<lparr>mi_cno := 9\<rparr>) 5 = None"
    by (simp add: cp_entry_def ex_small_def ex_file_def layout_defs)
  have inv: "nilfs_checkpoint_invalid ex_invalid"
    by (simp add: ex_defs flag_defs)
  have nf: "mi_get_fault (ex_small\<lparr>mi_cno := 9\<rparr>) b = None" for b
    by (simp add: ex_small_def ex_file_def)
  have lt: "nilfs_mdt_cno ex_small < 3"
    by (simp add: nilfs_mdt_cno_def ex_small_def ex_file_def)
  show ?thesis
    using read_checkpoint_einval[of 0 ex_small "\<lambda>i raw. (0, raw)" ex_root 0]
      read_checkpoint_einval[of 3 ex_small "\<lambda>i raw. (0, raw)" ex_root 0]
      read_checkpoint_einval[of 3 "ex_small\<lparr>mi_cno := 9\<rparr>" "\<lambda>i raw. (0, raw)" ex_root 0]
      read_checkpoint_einval[of 5 "ex_small\<lparr>mi_cno := 9\<rparr>" "\<lambda>i raw. (0, raw)" ex_root 0]
      e3 e5 inv nf lt
    by simp
qed

subsection \<open>C4: the snapshot enumeration on an empty list\<close>


text \<open>A file with the header and no valid entry.\<close>

definition ex_empty :: cpfile where
  "ex_empty = ex_file 1 [0 \<mapsto> \<lparr>b_header = ex_header 0 0 0 0, b_cps = (\<lambda>_. ex_invalid)\<rparr>]"

text \<open>C4, as stated, fails: with \<open>*cno = 0\<close> and an empty snapshot list
  \<open>nilfs_cpfile_do_get_ssinfo\<close> sets \<open>ret = 0\<close> and leaves, so the call returns 0 (no
  item), not \<open>-ENOENT\<close>.  \<open>ex_empty\<close> is a file with a header and no snapshot.\<close>

theorem get_cpinfo_snapshot_empty_counterexample:
  "ssl_next (ch_snapshot_list (b_header (bh_data ex_empty 0))) = 0 \<and>
   nilfs_cpfile_get_cpinfo ex_empty 0 NILFS_SNAPSHOT 10 = Some (Inr [], 0, ex_empty)"
  by (simp add: nilfs_cpfile_get_cpinfo_def nilfs_cpfile_do_get_ssinfo_def NILFS_CHECKPOINT_def
      NILFS_SNAPSHOT_def nilfs_cpfile_get_header_block_def nilfs_mdt_get_block_def
      ex_empty_def ex_file_def ex_header_def bh_data_def)

text \<open>C4, amended: when \<open>get_cpinfo\<close> is called in SNAPSHOT mode with \<open>*cno = 0\<close>, the
  header block is fetched without a fault and the \<open>ssl_next\<close> of the header sentinel is
  0, the call returns 0 with no item stored and leaves \<open>*cno\<close> and the file as they
  were.\<close>

theorem get_cpinfo_snapshot_empty:
  assumes "mi_get_fault st 0 = None"
    and "cp_header st = Some h"
    and "ssl_next (ch_snapshot_list h) = 0"
  shows "nilfs_cpfile_get_cpinfo st 0 NILFS_SNAPSHOT nci = Some (Inr [], 0, st)"
  using assms
  by (auto simp: nilfs_cpfile_get_cpinfo_def nilfs_cpfile_do_get_ssinfo_def NILFS_CHECKPOINT_def
      NILFS_SNAPSHOT_def nilfs_cpfile_get_header_block_def nilfs_mdt_get_block_def
      cp_header_def bh_data_def)

theorem get_cpinfo_snapshot_empty_witness:
  "mi_get_fault ex_empty 0 = None \<and> cp_header ex_empty = Some (ex_header 0 0 0 0) \<and>
   ssl_next (ch_snapshot_list (ex_header 0 0 0 0)) = 0 \<and>
   nilfs_cpfile_get_cpinfo ex_empty 0 NILFS_SNAPSHOT 10 = Some (Inr [], 0, ex_empty)"
proof -
  have a: "mi_get_fault ex_empty 0 = None" by (simp add: ex_empty_def ex_file_def)
  have b: "cp_header ex_empty = Some (ex_header 0 0 0 0)"
    by (simp add: cp_header_def ex_empty_def ex_file_def)
  have c: "ssl_next (ch_snapshot_list (ex_header 0 0 0 0)) = 0" by (simp add: ex_header_def)
  show ?thesis using get_cpinfo_snapshot_empty[OF a b c, of 10] a b c by simp
qed

subsection \<open>Basic facts about the state primitives\<close>

lemma bh_update_fields [simp]:
  "mi_entries_per_block (bh_update st bh f) = mi_entries_per_block st"
  "mi_first_entry_offset (bh_update st bh f) = mi_first_entry_offset st"
  "mi_cno (bh_update st bh f) = mi_cno st"
  "mi_get_fault (bh_update st bh f) = mi_get_fault st"
  "mi_delete_fault (bh_update st bh f) = mi_delete_fault st"
  "bh_dirty (bh_update st bh f) = bh_dirty st"
  "mi_dirty (bh_update st bh f) = mi_dirty st"
  "sb_log (bh_update st bh f) = sb_log st"
  by (simp_all add: bh_update_def split: option.splits)

lemma mi_blocks_bh_update:
  "mi_blocks (bh_update st bh f) b =
     (if b = bh then map_option f (mi_blocks st bh) else mi_blocks st b)"
  by (simp add: bh_update_def split: option.splits)

lemma mark_buffer_dirty_fields [simp]:
  "mi_entries_per_block (mark_buffer_dirty st bh) = mi_entries_per_block st"
  "mi_first_entry_offset (mark_buffer_dirty st bh) = mi_first_entry_offset st"
  "mi_cno (mark_buffer_dirty st bh) = mi_cno st"
  "mi_blocks (mark_buffer_dirty st bh) = mi_blocks st"
  "mi_get_fault (mark_buffer_dirty st bh) = mi_get_fault st"
  "mi_delete_fault (mark_buffer_dirty st bh) = mi_delete_fault st"
  "bh_dirty (mark_buffer_dirty st bh) = insert bh (bh_dirty st)"
  "mi_dirty (mark_buffer_dirty st bh) = mi_dirty st"
  "sb_log (mark_buffer_dirty st bh) = sb_log st"
  by (simp_all add: mark_buffer_dirty_def)

lemma nilfs_mdt_mark_dirty_fields [simp]:
  "mi_entries_per_block (nilfs_mdt_mark_dirty st) = mi_entries_per_block st"
  "mi_first_entry_offset (nilfs_mdt_mark_dirty st) = mi_first_entry_offset st"
  "mi_cno (nilfs_mdt_mark_dirty st) = mi_cno st"
  "mi_blocks (nilfs_mdt_mark_dirty st) = mi_blocks st"
  "mi_get_fault (nilfs_mdt_mark_dirty st) = mi_get_fault st"
  "mi_delete_fault (nilfs_mdt_mark_dirty st) = mi_delete_fault st"
  "bh_dirty (nilfs_mdt_mark_dirty st) = bh_dirty st"
  "mi_dirty (nilfs_mdt_mark_dirty st) = True"
  "sb_log (nilfs_mdt_mark_dirty st) = sb_log st"
  by (simp_all add: nilfs_mdt_mark_dirty_def)

lemma nilfs_err_fields [simp]:
  "mi_entries_per_block (nilfs_err st m) = mi_entries_per_block st"
  "mi_first_entry_offset (nilfs_err st m) = mi_first_entry_offset st"
  "mi_cno (nilfs_err st m) = mi_cno st"
  "mi_blocks (nilfs_err st m) = mi_blocks st"
  "mi_get_fault (nilfs_err st m) = mi_get_fault st"
  "mi_delete_fault (nilfs_err st m) = mi_delete_fault st"
  "bh_dirty (nilfs_err st m) = bh_dirty st"
  "mi_dirty (nilfs_err st m) = mi_dirty st"
  "sb_log (nilfs_err st m) = sb_log st @ [m]"
  by (simp_all add: nilfs_err_def)

text \<open>The layout functions read the geometry only.\<close>

lemma layout_cong:
  assumes "mi_entries_per_block st' = mi_entries_per_block st"
    and "mi_first_entry_offset st' = mi_first_entry_offset st"
  shows "nilfs_cpfile_get_blkoff st' = nilfs_cpfile_get_blkoff st"
    and "nilfs_cpfile_get_offset st' = nilfs_cpfile_get_offset st"
    and "nilfs_cpfile_checkpoints_per_block st' = nilfs_cpfile_checkpoints_per_block st"
    and "nilfs_cpfile_is_in_first st' = nilfs_cpfile_is_in_first st"
    and "nilfs_cpfile_checkpoints_in_block st' = nilfs_cpfile_checkpoints_in_block st"
    and "geometry_ok st' = geometry_ok st"
  using assms
  by (auto simp: layout_defs nilfs_cpfile_checkpoints_in_block_def geometry_ok_def fun_eq_iff)

lemma layout_bh_update [simp]:
  "nilfs_cpfile_get_blkoff (bh_update st bh f) = nilfs_cpfile_get_blkoff st"
  "nilfs_cpfile_get_offset (bh_update st bh f) = nilfs_cpfile_get_offset st"
  "nilfs_cpfile_checkpoints_per_block (bh_update st bh f) = nilfs_cpfile_checkpoints_per_block st"
  "nilfs_cpfile_is_in_first (bh_update st bh f) = nilfs_cpfile_is_in_first st"
  "nilfs_cpfile_checkpoints_in_block (bh_update st bh f) = nilfs_cpfile_checkpoints_in_block st"
  "geometry_ok (bh_update st bh f) = geometry_ok st"
  by (rule layout_cong; simp)+

lemma layout_mark_buffer_dirty [simp]:
  "nilfs_cpfile_get_blkoff (mark_buffer_dirty st bh) = nilfs_cpfile_get_blkoff st"
  "nilfs_cpfile_get_offset (mark_buffer_dirty st bh) = nilfs_cpfile_get_offset st"
  "nilfs_cpfile_checkpoints_per_block (mark_buffer_dirty st bh) = nilfs_cpfile_checkpoints_per_block st"
  "nilfs_cpfile_is_in_first (mark_buffer_dirty st bh) = nilfs_cpfile_is_in_first st"
  "nilfs_cpfile_checkpoints_in_block (mark_buffer_dirty st bh) = nilfs_cpfile_checkpoints_in_block st"
  "geometry_ok (mark_buffer_dirty st bh) = geometry_ok st"
  by (rule layout_cong; simp)+

lemma layout_mdt_mark_dirty [simp]:
  "nilfs_cpfile_get_blkoff (nilfs_mdt_mark_dirty st) = nilfs_cpfile_get_blkoff st"
  "nilfs_cpfile_get_offset (nilfs_mdt_mark_dirty st) = nilfs_cpfile_get_offset st"
  "nilfs_cpfile_checkpoints_per_block (nilfs_mdt_mark_dirty st) = nilfs_cpfile_checkpoints_per_block st"
  "nilfs_cpfile_is_in_first (nilfs_mdt_mark_dirty st) = nilfs_cpfile_is_in_first st"
  "nilfs_cpfile_checkpoints_in_block (nilfs_mdt_mark_dirty st) = nilfs_cpfile_checkpoints_in_block st"
  "geometry_ok (nilfs_mdt_mark_dirty st) = geometry_ok st"
  by (rule layout_cong; simp)+

lemma layout_blocks_upd [simp]:
  "nilfs_cpfile_get_blkoff (st\<lparr>mi_blocks := m\<rparr>) = nilfs_cpfile_get_blkoff st"
  "nilfs_cpfile_get_offset (st\<lparr>mi_blocks := m\<rparr>) = nilfs_cpfile_get_offset st"
  "nilfs_cpfile_checkpoints_per_block (st\<lparr>mi_blocks := m\<rparr>) = nilfs_cpfile_checkpoints_per_block st"
  "nilfs_cpfile_is_in_first (st\<lparr>mi_blocks := m\<rparr>) = nilfs_cpfile_is_in_first st"
  "nilfs_cpfile_checkpoints_in_block (st\<lparr>mi_blocks := m\<rparr>) = nilfs_cpfile_checkpoints_in_block st"
  "geometry_ok (st\<lparr>mi_blocks := m\<rparr>) = geometry_ok st"
  by (rule layout_cong; simp)+

lemma bh_data_bh_update:
  "bh_data (bh_update st bh f) b =
     (if b = bh \<and> mi_blocks st bh \<noteq> None then f (bh_data st bh) else bh_data st b)"
  by (auto simp: bh_data_def mi_blocks_bh_update split: option.splits)

lemma bh_data_marks [simp]:
  "bh_data (mark_buffer_dirty st bh) = bh_data st"
  "bh_data (nilfs_mdt_mark_dirty st) = bh_data st"
  by (simp_all add: bh_data_def fun_eq_iff)

lemma bh_update_marks:
  "bh_update (mark_buffer_dirty st x) bh f = mark_buffer_dirty (bh_update st bh f) x"
  "bh_update (nilfs_mdt_mark_dirty st) bh f = nilfs_mdt_mark_dirty (bh_update st bh f)"
  by (simp_all add: bh_update_def mark_buffer_dirty_def nilfs_mdt_mark_dirty_def split: option.splits)

text \<open>Fetching a block.\<close>

lemma get_block_present:
  "mi_get_fault st b = None \<Longrightarrow> mi_blocks st b = Some blk
     \<Longrightarrow> nilfs_mdt_get_block st b c i = (Inr b, st)"
  by (simp add: nilfs_mdt_get_block_def)

lemma get_block_hole:
  "mi_get_fault st b = None \<Longrightarrow> mi_blocks st b = None
     \<Longrightarrow> nilfs_mdt_get_block st b False i = (Inl ENOENT, st)"
  by (simp add: nilfs_mdt_get_block_def)

lemma get_block_create:
  "mi_get_fault st b = None \<Longrightarrow> mi_blocks st b = None
     \<Longrightarrow> nilfs_mdt_get_block st b True i =
           (Inr b, st\<lparr>mi_blocks := (mi_blocks st)(b \<mapsto> i st zero_block)\<rparr>)"
  by (simp add: nilfs_mdt_get_block_def)

lemma get_header_block_present:
  "mi_get_fault st 0 = None \<Longrightarrow> mi_blocks st 0 = Some blk
     \<Longrightarrow> nilfs_cpfile_get_header_block st = (Inr 0, st)"
  by (simp add: nilfs_cpfile_get_header_block_def get_block_present)

lemma one_le_word_iff [simp]: "1 \<le> c \<longleftrightarrow> c \<noteq> 0" for c :: "'a::len word"
  using word_less_1[of c] by (auto simp: not_less[symmetric] simp del: word_less_1)

lemma invalid_clear [simp]:
  "\<not> nilfs_checkpoint_invalid (nilfs_checkpoint_clear_invalid cp)"
  by (simp add: nilfs_checkpoint_invalid_def nilfs_checkpoint_clear_invalid_def bit_unset_bit_iff)

lemma invalid_count_upd [simp]:
  "nilfs_checkpoint_invalid (cp\<lparr>cp_checkpoints_count := c\<rparr>) = nilfs_checkpoint_invalid cp"
  by (simp add: nilfs_checkpoint_invalid_def)



subsection \<open>C8: \<open>finalize_checkpoint\<close> on a missing or invalid entry\<close>

definition finalize_msg :: string where
  "finalize_msg = ''checkpoint finalization failed due to metadata corruption.''"

text \<open>C8: for \<open>cno \<ge> 1\<close>, when the block of \<open>cno\<close> is fetched without a memory or I/O
  fault, \<open>finalize_checkpoint\<close> returns \<open>-EIO\<close> and logs the metadata-corruption message
  (and changes nothing else) if the block is absent or the entry is INVALID; otherwise it
  returns 0 and the entry has both list pointers 0, the counts of the root object, the
  given \<open>nblk_inc\<close>, creation time and \<open>cno\<close>, MINOR set exactly when \<open>minor\<close> is given, and
  its INVALID and SNAPSHOT flags and census as before; nothing is logged.\<close>

theorem finalize_checkpoint_cases:
  assumes "1 \<le> cno" and "geometry_ok st"
    and "mi_get_fault st (nilfs_cpfile_get_blkoff st cno) = None"
  shows "case cp_entry st cno of
           None \<Rightarrow>
             nilfs_cpfile_finalize_checkpoint wr st cno root blkinc ctime minor =
               (Inl EIO, st\<lparr>sb_log := sb_log st @ [finalize_msg]\<rparr>)
         | Some cp \<Rightarrow>
             if nilfs_checkpoint_invalid cp
             then nilfs_cpfile_finalize_checkpoint wr st cno root blkinc ctime minor =
                    (Inl EIO, st\<lparr>sb_log := sb_log st @ [finalize_msg]\<rparr>)
             else (\<exists>st' cp'.
                    nilfs_cpfile_finalize_checkpoint wr st cno root blkinc ctime minor =
                      (Inr (), st') \<and>
                    cp_entry st' cno = Some cp' \<and>
                    ssl_next (cp_snapshot_list cp') = 0 \<and>
                    ssl_prev (cp_snapshot_list cp') = 0 \<and>
                    cp_inodes_count cp' = inodes_count root \<and>
                    cp_blocks_count cp' = blocks_count root \<and>
                    cp_nblk_inc cp' = blkinc \<and>
                    cp_create cp' = ctime \<and>
                    cp_cno cp' = cno \<and>
                    nilfs_checkpoint_minor cp' = minor \<and>
                    \<not> nilfs_checkpoint_invalid cp' \<and>
                    nilfs_checkpoint_snapshot cp' = nilfs_checkpoint_snapshot cp \<and>
                    cp_checkpoints_count cp' = cp_checkpoints_count cp \<and>
                    sb_log st' = sb_log st)"
  using assms
  apply (cases "cp_entry st cno")
   apply (auto simp: nilfs_cpfile_finalize_checkpoint_def nilfs_cpfile_get_checkpoint_block_def
        nilfs_mdt_get_block_def cp_entry_def bh_data_def Let_def nilfs_error_def finalize_msg_def
        word_le_def
        split: option.splits)[1]
  apply (auto simp: nilfs_cpfile_finalize_checkpoint_def nilfs_cpfile_get_checkpoint_block_def
        nilfs_mdt_get_block_def cp_entry_def bh_data_def Let_def nilfs_error_def finalize_msg_def
        cp_write_def bh_update_def finalize_fill_def layout_defs flag_defs
        nilfs_checkpoint_set_minor_def nilfs_checkpoint_clear_minor_def
        bit_set_bit_iff bit_unset_bit_iff
        split: option.splits)
  done

lemma ex_small_facts:
  "geometry_ok ex_small"
  "mi_get_fault ex_small b = None"
  "mi_blocks ex_small 0 \<noteq> None"
  "cp_entry ex_small 1 = Some (ex_entry 0 0 1 0 0)"
  "cp_entry ex_small 3 = Some ex_invalid"
  "cp_entry ex_small 5 = None"
  "nilfs_checkpoint_invalid ex_invalid"
  "\<not> nilfs_checkpoint_invalid (ex_entry 0 0 1 0 0)"
  by (simp_all add: geometry_ok_def cp_entry_def ex_small_def ex_file_def layout_defs
      ex_invalid_def ex_entry_def flag_defs)

theorem finalize_checkpoint_cases_witness:
  "(1::u64) \<le> 1 \<and> (1::u64) \<le> 3 \<and> (1::u64) \<le> 5 \<and> geometry_ok ex_small \<and>
   mi_get_fault ex_small (nilfs_cpfile_get_blkoff ex_small 1) = None \<and>
   mi_get_fault ex_small (nilfs_cpfile_get_blkoff ex_small 3) = None \<and>
   mi_get_fault ex_small (nilfs_cpfile_get_blkoff ex_small 5) = None \<and>
   cp_entry ex_small 5 = None \<and>
   nilfs_cpfile_finalize_checkpoint (\<lambda>i raw. 42) ex_small 5
       \<lparr>inodes_count = 11, blocks_count = 22, ifile = Some 5\<rparr> 3 4 True =
     (Inl EIO, ex_small\<lparr>sb_log := sb_log ex_small @ [finalize_msg]\<rparr>) \<and>
   cp_entry ex_small 3 = Some ex_invalid \<and> nilfs_checkpoint_invalid ex_invalid \<and>
   nilfs_cpfile_finalize_checkpoint (\<lambda>i raw. 42) ex_small 3
       \<lparr>inodes_count = 11, blocks_count = 22, ifile = Some 5\<rparr> 3 4 True =
     (Inl EIO, ex_small\<lparr>sb_log := sb_log ex_small @ [finalize_msg]\<rparr>) \<and>
   cp_entry ex_small 1 = Some (ex_entry 0 0 1 0 0) \<and>
   \<not> nilfs_checkpoint_invalid (ex_entry 0 0 1 0 0) \<and>
   (\<exists>st' cp'.
      nilfs_cpfile_finalize_checkpoint (\<lambda>i raw. 42) ex_small 1
          \<lparr>inodes_count = 11, blocks_count = 22, ifile = Some 5\<rparr> 3 4 True = (Inr (), st') \<and>
      cp_entry st' 1 = Some cp' \<and>
      ssl_next (cp_snapshot_list cp') = 0 \<and> ssl_prev (cp_snapshot_list cp') = 0 \<and>
      cp_inodes_count cp' = 11 \<and> cp_blocks_count cp' = 22 \<and> cp_nblk_inc cp' = 3 \<and>
      cp_create cp' = 4 \<and> cp_cno cp' = 1 \<and> nilfs_checkpoint_minor cp' \<and>
      \<not> nilfs_checkpoint_invalid cp' \<and> \<not> nilfs_checkpoint_snapshot cp' \<and>
      cp_checkpoints_count cp' = 0 \<and> sb_log st' = [])"
proof -
  have s: "\<not> nilfs_checkpoint_snapshot (ex_entry 0 0 1 0 0)"
      "cp_checkpoints_count (ex_entry 0 0 1 0 0) = 0" "sb_log ex_small = []"
    by (simp_all add: ex_entry_def flag_defs ex_small_def ex_file_def)
  have le: "(1::u64) \<le> 1" "(1::u64) \<le> 3" "(1::u64) \<le> 5" by simp_all
  show ?thesis
    using finalize_checkpoint_cases[OF le(1) ex_small_facts(1) ex_small_facts(2),
        of "\<lambda>i raw. 42" "\<lparr>inodes_count = 11, blocks_count = 22, ifile = Some 5\<rparr>" 3 4 True]
      finalize_checkpoint_cases[OF le(2) ex_small_facts(1) ex_small_facts(2),
        of "\<lambda>i raw. 42" "\<lparr>inodes_count = 11, blocks_count = 22, ifile = Some 5\<rparr>" 3 4 True]
      finalize_checkpoint_cases[OF le(3) ex_small_facts(1) ex_small_facts(2),
        of "\<lambda>i raw. 42" "\<lparr>inodes_count = 11, blocks_count = 22, ifile = Some 5\<rparr>" 3 4 True]
    by (simp add: ex_small_facts s del: one_le_word_iff)
qed

subsection \<open>C6: creating a checkpoint twice\<close>

text \<open>Creating an entry that is already valid only sets the dirty marks.\<close>

lemma create_checkpoint_valid:
  assumes "1 \<le> cno"
    and "mi_get_fault st 0 = None" and "mi_blocks st 0 = Some hb"
    and "mi_get_fault st (nilfs_cpfile_get_blkoff st cno) = None"
    and "mi_blocks st (nilfs_cpfile_get_blkoff st cno) = Some blk"
    and "\<not> nilfs_checkpoint_invalid (b_cps blk (nilfs_cpfile_get_offset st cno))"
  shows "nilfs_cpfile_create_checkpoint st cno =
           (Inr (), nilfs_mdt_mark_dirty (mark_buffer_dirty st (nilfs_cpfile_get_blkoff st cno)))"
  using assms
  by (simp add: nilfs_cpfile_create_checkpoint_def get_header_block_present
      nilfs_cpfile_get_checkpoint_block_def get_block_present bh_data_def Let_def)

definition create_fresh :: "cpfile \<Rightarrow> u64 \<Rightarrow> cpfile" where
  "create_fresh st cno =
     (let bh = nilfs_cpfile_get_blkoff st cno;
          st3 = cp_write st bh (nilfs_cpfile_get_offset st cno) nilfs_checkpoint_clear_invalid;
          st4 = (if \<not> nilfs_cpfile_is_in_first st cno
                 then snd (nilfs_cpfile_block_add_valid_checkpoints st3 bh 1) else st3);
          st5 = header_write st4 0 (\<lambda>h. h\<lparr>ch_ncheckpoints := ch_ncheckpoints h + 1\<rparr>)
      in nilfs_mdt_mark_dirty (mark_buffer_dirty (mark_buffer_dirty st5 0) bh))"

lemma create_checkpoint_invalid:
  assumes "1 \<le> cno"
    and "mi_get_fault st 0 = None" and "mi_blocks st 0 = Some hb"
    and "mi_get_fault st (nilfs_cpfile_get_blkoff st cno) = None"
    and "mi_blocks st (nilfs_cpfile_get_blkoff st cno) = Some blk"
    and "nilfs_checkpoint_invalid (b_cps blk (nilfs_cpfile_get_offset st cno))"
  shows "nilfs_cpfile_create_checkpoint st cno = (Inr (), create_fresh st cno)"
  using assms
  by (simp add: nilfs_cpfile_create_checkpoint_def get_header_block_present
      nilfs_cpfile_get_checkpoint_block_def get_block_present bh_data_def Let_def
      create_fresh_def cp_write_def)

lemma create_checkpoint_hole:
  assumes "1 \<le> cno"
    and "mi_get_fault st 0 = None" and "mi_blocks st 0 = Some hb"
    and "mi_get_fault st (nilfs_cpfile_get_blkoff st cno) = None"
    and "mi_blocks st (nilfs_cpfile_get_blkoff st cno) = None"
  shows "nilfs_cpfile_create_checkpoint st cno =
           nilfs_cpfile_create_checkpoint
             (st\<lparr>mi_blocks := (mi_blocks st)(nilfs_cpfile_get_blkoff st cno \<mapsto>
                     nilfs_cpfile_block_init st zero_block)\<rparr>) cno"
  using assms
proof -
  let ?b = "nilfs_cpfile_get_blkoff st cno"
  let ?st' = "st\<lparr>mi_blocks := (mi_blocks st)(?b \<mapsto> nilfs_cpfile_block_init st zero_block)\<rparr>"
  have b0: "?b \<noteq> 0" using assms(3,5) by (cases "?b = 0") auto
  have h: "nilfs_cpfile_get_header_block st = (Inr 0, st)"
    using assms by (simp add: get_header_block_present)
  have h': "nilfs_cpfile_get_header_block ?st' = (Inr 0, ?st')"
    using assms b0 by (simp add: get_header_block_present)
  have g: "nilfs_cpfile_get_checkpoint_block st cno True = (Inr ?b, ?st')"
    using assms by (simp add: nilfs_cpfile_get_checkpoint_block_def get_block_create)
  have g': "nilfs_cpfile_get_checkpoint_block ?st' cno True = (Inr ?b, ?st')"
    using assms by (simp add: nilfs_cpfile_get_checkpoint_block_def get_block_present)
  show ?thesis
    using assms(1) by (simp add: nilfs_cpfile_create_checkpoint_def h h' g g')
qed


lemma block_init_invalid:
  "i < nilfs_cpfile_checkpoints_per_block st
     \<Longrightarrow> nilfs_checkpoint_invalid (b_cps (nilfs_cpfile_block_init st b) i)"
  by (simp add: nilfs_cpfile_block_init_def nilfs_checkpoint_invalid_def
      nilfs_checkpoint_set_invalid_def bit_set_bit_iff NILFS_CHECKPOINT_INVALID_def)

lemma get_offset_less:
  "geometry_ok st \<Longrightarrow> nilfs_cpfile_get_offset st cno < nilfs_cpfile_checkpoints_per_block st"
  by (simp add: geometry_ok_def layout_defs)

lemma mark_buffer_dirty_idem [simp]:
  "mark_buffer_dirty (nilfs_mdt_mark_dirty (mark_buffer_dirty st b)) b
     = nilfs_mdt_mark_dirty (mark_buffer_dirty st b)"
  by (simp add: mark_buffer_dirty_def nilfs_mdt_mark_dirty_def)

lemma nilfs_mdt_mark_dirty_idem [simp]:
  "nilfs_mdt_mark_dirty (nilfs_mdt_mark_dirty st) = nilfs_mdt_mark_dirty st"
  by (simp add: nilfs_mdt_mark_dirty_def)

text \<open>A second creation after a successful one finds the entry valid.\<close>

lemma create_fresh_again:
  assumes "1 \<le> cno"
    and "mi_get_fault st 0 = None" and "mi_blocks st 0 = Some hb"
    and "mi_get_fault st (nilfs_cpfile_get_blkoff st cno) = None"
    and "mi_blocks st (nilfs_cpfile_get_blkoff st cno) = Some blk"
  shows "nilfs_cpfile_create_checkpoint (create_fresh st cno) cno = (Inr (), create_fresh st cno)"
proof -
  let ?b = "nilfs_cpfile_get_blkoff st cno"
  let ?s = "create_fresh st cno"
  have geo: "nilfs_cpfile_get_blkoff ?s = nilfs_cpfile_get_blkoff st"
      "nilfs_cpfile_get_offset ?s = nilfs_cpfile_get_offset st"
    by (simp_all add: create_fresh_def Let_def cp_write_def header_write_def
        nilfs_cpfile_block_add_valid_checkpoints_def)
  have f: "mi_get_fault ?s = mi_get_fault st"
    by (simp add: create_fresh_def Let_def cp_write_def header_write_def
        nilfs_cpfile_block_add_valid_checkpoints_def)
  have h: "mi_blocks ?s 0 \<noteq> None"
    using assms(3,5)
    by (auto simp add: create_fresh_def Let_def cp_write_def header_write_def
        nilfs_cpfile_block_add_valid_checkpoints_def mi_blocks_bh_update)
  have e: "\<exists>blk'. mi_blocks ?s ?b = Some blk' \<and>
             \<not> nilfs_checkpoint_invalid (b_cps blk' (nilfs_cpfile_get_offset st cno))"
    using assms(3,5)
    by (auto simp add: create_fresh_def Let_def cp_write_def header_write_def
        nilfs_cpfile_block_add_valid_checkpoints_def mi_blocks_bh_update)
  obtain hb' where hb': "mi_blocks ?s 0 = Some hb'" using h by auto
  obtain blk' where blk': "mi_blocks ?s ?b = Some blk'"
      "\<not> nilfs_checkpoint_invalid (b_cps blk' (nilfs_cpfile_get_offset st cno))"
    using e by auto
  have "nilfs_cpfile_create_checkpoint ?s cno =
          (Inr (), nilfs_mdt_mark_dirty (mark_buffer_dirty ?s ?b))"
    using create_checkpoint_valid[of cno ?s hb' blk'] assms(1,2,4) hb' blk'
    by (simp add: geo f)
  moreover have "nilfs_mdt_mark_dirty (mark_buffer_dirty ?s ?b) = ?s"
    by (simp add: create_fresh_def Let_def)
  ultimately show ?thesis by simp
qed

lemma create_checkpoint_idem_present:
  assumes "1 \<le> cno"
    and "mi_get_fault st 0 = None" and "mi_blocks st 0 = Some hb"
    and "mi_get_fault st (nilfs_cpfile_get_blkoff st cno) = None"
    and "mi_blocks st (nilfs_cpfile_get_blkoff st cno) = Some blk"
  shows "\<exists>st1. nilfs_cpfile_create_checkpoint st cno = (Inr (), st1) \<and>
               nilfs_cpfile_create_checkpoint st1 cno = (Inr (), st1)"
proof (cases "nilfs_checkpoint_invalid (b_cps blk (nilfs_cpfile_get_offset st cno))")
  case True
  then show ?thesis
    using create_checkpoint_invalid[OF assms True] create_fresh_again[OF assms] by simp
next
  case False
  let ?s = "nilfs_mdt_mark_dirty (mark_buffer_dirty st (nilfs_cpfile_get_blkoff st cno))"
  have "nilfs_cpfile_create_checkpoint ?s cno = (Inr (), ?s)"
    using create_checkpoint_valid[of cno ?s hb blk] assms False by simp
  then show ?thesis using create_checkpoint_valid[OF assms False] by simp
qed

text \<open>What a successful creation leaves in the slot of \<open>cno\<close>: a valid entry whose
  stored number is the one the slot held before (zero in a block allocated by the call);
  \<open>create_checkpoint\<close> writes the flags, the census and the header only.\<close>

definition stored_cno :: "cpfile \<Rightarrow> u64 \<Rightarrow> u64" where
  "stored_cno st cno = (case cp_entry st cno of None \<Rightarrow> 0 | Some cp \<Rightarrow> cp_cno cp)"

lemma create_fresh_fields:
  "nilfs_cpfile_get_blkoff (create_fresh st cno) = nilfs_cpfile_get_blkoff st"
  "nilfs_cpfile_get_offset (create_fresh st cno) = nilfs_cpfile_get_offset st"
  "mi_get_fault (create_fresh st cno) = mi_get_fault st"
  "mi_entries_per_block (create_fresh st cno) = mi_entries_per_block st"
  "mi_first_entry_offset (create_fresh st cno) = mi_first_entry_offset st"
  "mi_cno (create_fresh st cno) = mi_cno st"
  by (simp_all add: create_fresh_def Let_def cp_write_def header_write_def
      nilfs_cpfile_block_add_valid_checkpoints_def)

lemma create_fresh_entry:
  assumes "mi_blocks st 0 = Some hb"
    and "mi_blocks st (nilfs_cpfile_get_blkoff st cno) = Some blk"
  shows "\<exists>cp1. cp_entry (create_fresh st cno) cno = Some cp1 \<and>
               \<not> nilfs_checkpoint_invalid cp1 \<and>
               cp_cno cp1 = cp_cno (b_cps blk (nilfs_cpfile_get_offset st cno))"
  using assms
  by (auto simp add: cp_entry_def create_fresh_fields)
    (auto simp add: create_fresh_def Let_def cp_write_def header_write_def
      nilfs_cpfile_block_add_valid_checkpoints_def mi_blocks_bh_update
      nilfs_checkpoint_clear_invalid_def nilfs_checkpoint_invalid_def bit_unset_bit_iff)

lemma create_checkpoint_entry_present:
  assumes "1 \<le> cno"
    and "mi_get_fault st 0 = None" and "mi_blocks st 0 = Some hb"
    and "mi_get_fault st (nilfs_cpfile_get_blkoff st cno) = None"
    and "mi_blocks st (nilfs_cpfile_get_blkoff st cno) = Some blk"
  shows "\<exists>st1 cp1. nilfs_cpfile_create_checkpoint st cno = (Inr (), st1) \<and>
           cp_entry st1 cno = Some cp1 \<and> \<not> nilfs_checkpoint_invalid cp1 \<and>
           cp_cno cp1 = cp_cno (b_cps blk (nilfs_cpfile_get_offset st cno)) \<and>
           mi_get_fault st1 = mi_get_fault st \<and>
           mi_entries_per_block st1 = mi_entries_per_block st \<and>
           mi_first_entry_offset st1 = mi_first_entry_offset st \<and>
           mi_cno st1 = mi_cno st"
proof (cases "nilfs_checkpoint_invalid (b_cps blk (nilfs_cpfile_get_offset st cno))")
  case True
  show ?thesis
    using create_checkpoint_invalid[OF assms True] create_fresh_entry[OF assms(3) assms(5)]
    by (auto simp: create_fresh_fields)
next
  case False
  show ?thesis
    using create_checkpoint_valid[OF assms False] assms(5) False
    by (simp add: cp_entry_def)
qed

lemma create_checkpoint_entry:
  assumes "nilfs_cpfile_create_checkpoint st cno = (Inr (), st1)"
  shows "\<exists>cp1. cp_entry st1 cno = Some cp1 \<and> \<not> nilfs_checkpoint_invalid cp1 \<and>
               cp_cno cp1 = stored_cno st cno"
    and "mi_get_fault st1 = mi_get_fault st"
    and "mi_entries_per_block st1 = mi_entries_per_block st"
    and "mi_first_entry_offset st1 = mi_first_entry_offset st"
    and "mi_cno st1 = mi_cno st"
proof -
  let ?b = "nilfs_cpfile_get_blkoff st cno"
  have c1: "1 \<le> cno"
    using assms by (auto simp: nilfs_cpfile_create_checkpoint_def not_less split: if_splits)
  have f0: "mi_get_fault st 0 = None"
    using assms c1
    by (cases "mi_get_fault st 0")
      (auto simp: nilfs_cpfile_create_checkpoint_def nilfs_cpfile_get_header_block_def
        nilfs_mdt_get_block_def split: if_splits)
  obtain hb where hb: "mi_blocks st 0 = Some hb"
    using assms c1 f0
    by (cases "mi_blocks st 0")
      (auto simp: nilfs_cpfile_create_checkpoint_def nilfs_cpfile_get_header_block_def
        nilfs_mdt_get_block_def)
  have fb: "mi_get_fault st ?b = None"
    using assms c1
    by (cases "mi_get_fault st ?b")
      (auto simp: nilfs_cpfile_create_checkpoint_def get_header_block_present[OF f0 hb]
        nilfs_cpfile_get_checkpoint_block_def nilfs_mdt_get_block_def)
  have "(\<exists>cp1. cp_entry st1 cno = Some cp1 \<and> \<not> nilfs_checkpoint_invalid cp1 \<and>
               cp_cno cp1 = stored_cno st cno) \<and>
        mi_get_fault st1 = mi_get_fault st \<and>
        mi_entries_per_block st1 = mi_entries_per_block st \<and>
        mi_first_entry_offset st1 = mi_first_entry_offset st \<and>
        mi_cno st1 = mi_cno st"
  proof (cases "mi_blocks st ?b")
    case (Some blk)
    have "stored_cno st cno = cp_cno (b_cps blk (nilfs_cpfile_get_offset st cno))"
      using Some by (simp add: stored_cno_def cp_entry_def)
    then show ?thesis
      using create_checkpoint_entry_present[OF c1 f0 hb fb Some] assms by auto
  next
    case None
    let ?st' = "st\<lparr>mi_blocks := (mi_blocks st)(?b \<mapsto> nilfs_cpfile_block_init st zero_block)\<rparr>"
    have b0: "?b \<noteq> 0" using hb None by (cases "?b = 0") auto
    have z: "cp_cno (b_cps (nilfs_cpfile_block_init st zero_block) i) = 0" for i
      by (simp add: nilfs_cpfile_block_init_def zero_block_def zero_checkpoint_def
          nilfs_checkpoint_set_invalid_def)
    have s0: "stored_cno st cno = 0" using None by (simp add: stored_cno_def cp_entry_def)
    have r: "nilfs_cpfile_create_checkpoint ?st' cno = (Inr (), st1)"
      using create_checkpoint_hole[OF c1 f0 hb fb None] assms by simp
    have "\<exists>st2 cp1. nilfs_cpfile_create_checkpoint ?st' cno = (Inr (), st2) \<and>
           cp_entry st2 cno = Some cp1 \<and> \<not> nilfs_checkpoint_invalid cp1 \<and>
           cp_cno cp1 =
             cp_cno (b_cps (nilfs_cpfile_block_init st zero_block)
                       (nilfs_cpfile_get_offset ?st' cno)) \<and>
           mi_get_fault st2 = mi_get_fault ?st' \<and>
           mi_entries_per_block st2 = mi_entries_per_block ?st' \<and>
           mi_first_entry_offset st2 = mi_first_entry_offset ?st' \<and>
           mi_cno st2 = mi_cno ?st'"
      using c1 f0 fb hb b0
      by (intro create_checkpoint_entry_present[where hb=hb
            and blk="nilfs_cpfile_block_init st zero_block"]) simp_all
    then show ?thesis using r by (auto simp: z s0)
  qed
  then show "\<exists>cp1. cp_entry st1 cno = Some cp1 \<and> \<not> nilfs_checkpoint_invalid cp1 \<and>
               cp_cno cp1 = stored_cno st cno"
    and "mi_get_fault st1 = mi_get_fault st"
    and "mi_entries_per_block st1 = mi_entries_per_block st"
    and "mi_first_entry_offset st1 = mi_first_entry_offset st"
    and "mi_cno st1 = mi_cno st"
    by blast+
qed

text \<open>Two creations in a row.\<close>

lemma create_checkpoint_twice:
  assumes "1 \<le> cno" and "geometry_ok st"
    and "mi_blocks st 0 \<noteq> None"
    and "mi_get_fault st 0 = None"
    and "mi_get_fault st (nilfs_cpfile_get_blkoff st cno) = None"
  shows "\<exists>st1. nilfs_cpfile_create_checkpoint st cno = (Inr (), st1) \<and>
               nilfs_cpfile_create_checkpoint st1 cno = (Inr (), st1)"
proof -
  obtain hb where hb: "mi_blocks st 0 = Some hb" using assms(3) by auto
  show ?thesis
  proof (cases "mi_blocks st (nilfs_cpfile_get_blkoff st cno)")
    case (Some blk)
    show ?thesis by (rule create_checkpoint_idem_present[OF assms(1,4) hb assms(5) Some])
  next
    case None
    let ?b = "nilfs_cpfile_get_blkoff st cno"
    let ?st' = "st\<lparr>mi_blocks := (mi_blocks st)(?b \<mapsto> nilfs_cpfile_block_init st zero_block)\<rparr>"
    have b0: "?b \<noteq> 0" using hb None by (cases "?b = 0") auto
    have "\<exists>st1. nilfs_cpfile_create_checkpoint ?st' cno = (Inr (), st1) \<and>
               nilfs_cpfile_create_checkpoint st1 cno = (Inr (), st1)"
      using assms(1,4,5) hb b0
      by (intro create_checkpoint_idem_present[where hb=hb
            and blk="nilfs_cpfile_block_init st zero_block"]) simp_all
    then show ?thesis
      using create_checkpoint_hole[OF assms(1,4) hb assms(5) None] by simp
  qed
qed

text \<open>C6: for \<open>cno \<ge> 1\<close>, when the header block exists and the header block and the
  block of \<open>cno\<close> are fetched without a fault, \<open>create_checkpoint\<close> succeeds and leaves a
  valid entry in the slot of \<open>cno\<close>; a second call on the resulting file finds that entry,
  succeeds as well and returns the very same file: the entries, the header with
  \<open>ncheckpoints\<close>, the dirty marks and the log are those left by the first call.\<close>

theorem create_checkpoint_idempotent:
  assumes "1 \<le> cno" and "geometry_ok st"
    and "mi_blocks st 0 \<noteq> None"
    and "mi_get_fault st 0 = None"
    and "mi_get_fault st (nilfs_cpfile_get_blkoff st cno) = None"
  shows "\<exists>st1 cp1. nilfs_cpfile_create_checkpoint st cno = (Inr (), st1) \<and>
           cp_entry st1 cno = Some cp1 \<and> \<not> nilfs_checkpoint_invalid cp1 \<and>
           nilfs_cpfile_create_checkpoint st1 cno = (Inr (), st1)"
proof -
  from create_checkpoint_twice[OF assms] obtain st1 where
    a: "nilfs_cpfile_create_checkpoint st cno = (Inr (), st1)"
    and b: "nilfs_cpfile_create_checkpoint st1 cno = (Inr (), st1)"
    by blast
  from create_checkpoint_entry(1)[OF a] obtain cp1 where
    "cp_entry st1 cno = Some cp1" "\<not> nilfs_checkpoint_invalid cp1"
    by blast
  then show ?thesis using a b by blast
qed

theorem create_checkpoint_idempotent_witness:
  "(1::u64) \<le> 5 \<and> geometry_ok ex_small \<and> mi_blocks ex_small 0 \<noteq> None \<and>
   mi_get_fault ex_small 0 = None \<and>
   mi_get_fault ex_small (nilfs_cpfile_get_blkoff ex_small 5) = None \<and>
   cp_entry ex_small 5 = None \<and>
   (\<exists>st1 cp1. nilfs_cpfile_create_checkpoint ex_small 5 = (Inr (), st1) \<and>
          cp_entry st1 5 = Some cp1 \<and> \<not> nilfs_checkpoint_invalid cp1 \<and>
          nilfs_cpfile_create_checkpoint st1 5 = (Inr (), st1))"
proof -
  have le: "(1::u64) \<le> 5" by simp
  show ?thesis
    using create_checkpoint_idempotent[OF le ex_small_facts(1) ex_small_facts(3)
        ex_small_facts(2) ex_small_facts(2)]
    by (simp add: ex_small_facts)
qed

subsection \<open>C3 and C5: the snapshot list\<close>

text \<open>Entries and header under the write primitives.\<close>

lemma blkoff_offset_inj:
  assumes "geometry_ok st"
    and "nilfs_cpfile_get_blkoff st x = nilfs_cpfile_get_blkoff st y"
    and "nilfs_cpfile_get_offset st x = nilfs_cpfile_get_offset st y"
  shows "x = y"
proof -
  let ?E = "mi_entries_per_block st"
  have "unat x div ?E = unat y div ?E" "unat x mod ?E = unat y mod ?E"
    using assms by (simp_all add: geometry_ok_def layout_defs)
  then have "unat x = unat y"
    by (metis div_mult_mod_eq)
  then show ?thesis by (simp add: word_unat_eq_iff)
qed

lemma cp_entry_cp_write:
  "cp_entry (cp_write st bh slot f) c =
     (if nilfs_cpfile_get_blkoff st c = bh \<and> nilfs_cpfile_get_offset st c = slot
      then map_option f (cp_entry st c) else cp_entry st c)"
  by (auto simp: cp_entry_def cp_write_def mi_blocks_bh_update option.map_comp o_def
      split: option.splits)

lemma cp_header_cp_write [simp]:
  "cp_header (cp_write st bh slot f) = cp_header st"
  by (auto simp: cp_header_def cp_write_def mi_blocks_bh_update option.map_comp o_def)

lemma cp_entry_header_write [simp]:
  "cp_entry (header_write st bh f) c = cp_entry st c"
  by (auto simp: cp_entry_def header_write_def mi_blocks_bh_update option.map_comp o_def)

lemma cp_header_header_write:
  "cp_header (header_write st bh f) =
     (if bh = 0 then map_option f (cp_header st) else cp_header st)"
  by (auto simp: cp_header_def header_write_def mi_blocks_bh_update option.map_comp o_def)

lemma cp_entry_marks [simp]:
  "cp_entry (mark_buffer_dirty st bh) c = cp_entry st c"
  "cp_entry (nilfs_mdt_mark_dirty st) c = cp_entry st c"
  by (simp_all add: cp_entry_def)

lemma cp_header_marks [simp]:
  "cp_header (mark_buffer_dirty st bh) = cp_header st"
  "cp_header (nilfs_mdt_mark_dirty st) = cp_header st"
  by (simp_all add: cp_header_def)

lemma write_fields [simp]:
  "mi_get_fault (cp_write st bh slot f) = mi_get_fault st"
  "mi_get_fault (header_write st bh g) = mi_get_fault st"
  "mi_get_fault (list_write st bh off h) = mi_get_fault st"
  "geometry_ok (cp_write st bh slot f) = geometry_ok st"
  "geometry_ok (header_write st bh g) = geometry_ok st"
  "geometry_ok (list_write st bh off h) = geometry_ok st"
  "nilfs_cpfile_get_blkoff (cp_write st bh slot f) = nilfs_cpfile_get_blkoff st"
  "nilfs_cpfile_get_blkoff (header_write st bh g) = nilfs_cpfile_get_blkoff st"
  "nilfs_cpfile_get_blkoff (list_write st bh off h) = nilfs_cpfile_get_blkoff st"
  "nilfs_cpfile_get_offset (cp_write st bh slot f) = nilfs_cpfile_get_offset st"
  "nilfs_cpfile_get_offset (header_write st bh g) = nilfs_cpfile_get_offset st"
  "nilfs_cpfile_get_offset (list_write st bh off h) = nilfs_cpfile_get_offset st"
  by (simp_all add: cp_write_def header_write_def list_write_def split: list_offset.splits)

text \<open>The place of the snapshot list of a node: the header for 0, the entry otherwise.\<close>

definition list_bh :: "cpfile \<Rightarrow> u64 \<Rightarrow> nat" where
  "list_bh st c = (if c = 0 then 0 else nilfs_cpfile_get_blkoff st c)"

definition list_off :: "cpfile \<Rightarrow> u64 \<Rightarrow> list_offset" where
  "list_off st c = (if c = 0 then ChSnapshotList else CpSnapshotList (nilfs_cpfile_get_offset st c))"

definition node_list :: "cpfile \<Rightarrow> u64 \<Rightarrow> nilfs_snapshot_list option" where
  "node_list st c =
     (if c = 0 then map_option ch_snapshot_list (cp_header st)
      else map_option cp_snapshot_list (cp_entry st c))"

lemma cp_entry_list_write:
  assumes "geometry_ok st"
  shows "cp_entry (list_write st (list_bh st c) (list_off st c) f) x =
           (if c \<noteq> 0 \<and> x = c
            then map_option (\<lambda>cp. cp\<lparr>cp_snapshot_list := f (cp_snapshot_list cp)\<rparr>) (cp_entry st x)
            else cp_entry st x)"
  using blkoff_offset_inj[OF assms, of x c]
  by (auto simp: list_write_def list_bh_def list_off_def cp_entry_cp_write)

lemma cp_header_list_write:
  "cp_header (list_write st (list_bh st c) (list_off st c) f) =
     (if c = 0 then map_option (\<lambda>h. h\<lparr>ch_snapshot_list := f (ch_snapshot_list h)\<rparr>) (cp_header st)
      else cp_header st)"
  by (auto simp: list_write_def list_bh_def list_off_def cp_header_header_write)

lemma list_read_node:
  "node_list st c = Some l \<Longrightarrow> list_read st (list_bh st c) (list_off st c) = l"
  by (auto simp: node_list_def list_read_def list_bh_def list_off_def cp_header_def cp_entry_def
      bh_data_def split: if_splits option.splits)

lemma get_checkpoint_block_present:
  "mi_get_fault st (nilfs_cpfile_get_blkoff st c) = None \<Longrightarrow> cp_entry st c = Some cp
     \<Longrightarrow> nilfs_cpfile_get_checkpoint_block st c cr = (Inr (nilfs_cpfile_get_blkoff st c), st)"
  by (auto simp: nilfs_cpfile_get_checkpoint_block_def cp_entry_def get_block_present)

lemma get_header_block_header:
  "mi_get_fault st 0 = None \<Longrightarrow> cp_header st = Some h
     \<Longrightarrow> nilfs_cpfile_get_header_block st = (Inr 0, st)"
  by (auto simp: cp_header_def get_header_block_present)

lemma neighbour_list_node:
  assumes "mi_get_fault st (nilfs_cpfile_get_blkoff st c) = None" "node_list st c = Some l"
  shows "neighbour_list st 0 c = Inr (list_bh st c, list_off st c)"
  using assms
  by (auto simp: neighbour_list_def node_list_def list_bh_def list_off_def
      nilfs_cpfile_cp_snapshot_list_offset_def nilfs_cpfile_ch_snapshot_list_offset_def
      get_checkpoint_block_present split: if_splits)

text \<open>The ordered snapshot list.\<close>

text \<open>Walking the \<open>ssl_next\<close> links from \<open>n\<close> visits the snapshots \<open>xs\<close> in this order and
  ends with the link \<open>e\<close>; likewise for the \<open>ssl_prev\<close> links.  A link 0 stands for the
  header sentinel.\<close>

fun fwd_seg :: "cpfile \<Rightarrow> u64 \<Rightarrow> u64 list \<Rightarrow> u64 \<Rightarrow> bool" where
  "fwd_seg st n [] e = (n = e)"
| "fwd_seg st n (x # xs) e =
     (n = x \<and> x \<noteq> 0 \<and>
      (case cp_entry st x of
         None \<Rightarrow> False
       | Some cp \<Rightarrow> \<not> nilfs_checkpoint_invalid cp \<and> nilfs_checkpoint_snapshot cp \<and>
                   fwd_seg st (ssl_next (cp_snapshot_list cp)) xs e))"

fun bwd_seg :: "cpfile \<Rightarrow> u64 \<Rightarrow> u64 list \<Rightarrow> u64 \<Rightarrow> bool" where
  "bwd_seg st n [] e = (n = e)"
| "bwd_seg st n (x # xs) e =
     (n = x \<and> x \<noteq> 0 \<and>
      (case cp_entry st x of
         None \<Rightarrow> False
       | Some cp \<Rightarrow> \<not> nilfs_checkpoint_invalid cp \<and> nilfs_checkpoint_snapshot cp \<and>
                   bwd_seg st (ssl_prev (cp_snapshot_list cp)) xs e))"

definition snapshot_list :: "cpfile \<Rightarrow> u64 list \<Rightarrow> bool" where
  "snapshot_list st xs =
     (case cp_header st of
        None \<Rightarrow> False
      | Some h \<Rightarrow>
          fwd_seg st (ssl_next (ch_snapshot_list h)) xs 0 \<and>
          bwd_seg st (ssl_prev (ch_snapshot_list h)) (rev xs) 0 \<and>
          sorted_wrt (<) xs)"

lemma fwd_seg_append:
  "fwd_seg st n (ys @ zs) e \<longleftrightarrow> fwd_seg st n ys (hd (zs @ [e])) \<and> fwd_seg st (hd (zs @ [e])) zs e"
proof (induction ys arbitrary: n)
  case Nil
  show ?case by (cases zs) (auto split: option.splits)
next
  case (Cons y ys)
  then show ?case by (auto split: option.splits)
qed

lemma bwd_seg_append:
  "bwd_seg st n (ys @ zs) e \<longleftrightarrow> bwd_seg st n ys (hd (zs @ [e])) \<and> bwd_seg st (hd (zs @ [e])) zs e"
proof (induction ys arbitrary: n)
  case Nil
  show ?case by (cases zs) (auto split: option.splits)
next
  case (Cons y ys)
  then show ?case by (auto split: option.splits)
qed

text \<open>Both walks read, of the entries they visit, only the two flags and one link.\<close>

lemma fwd_seg_cong:
  assumes "\<And>x. x \<in> set xs \<Longrightarrow>
             rel_option (\<lambda>a b. cp_flags a = cp_flags b \<and>
                 ssl_next (cp_snapshot_list a) = ssl_next (cp_snapshot_list b))
               (cp_entry st x) (cp_entry st' x)"
  shows "fwd_seg st' n xs e = fwd_seg st n xs e"
  using assms
proof (induction xs arbitrary: n)
  case Nil
  show ?case by simp
next
  case (Cons x xs)
  have r: "rel_option (\<lambda>a b. cp_flags a = cp_flags b \<and>
                 ssl_next (cp_snapshot_list a) = ssl_next (cp_snapshot_list b))
               (cp_entry st x) (cp_entry st' x)"
    using Cons.prems by simp
  have ih: "\<And>m. fwd_seg st' m xs e = fwd_seg st m xs e"
    using Cons.IH Cons.prems by simp
  show ?case using r
    by (cases "cp_entry st x"; cases "cp_entry st' x")
      (auto simp: ih nilfs_checkpoint_invalid_def nilfs_checkpoint_snapshot_def)
qed

lemma bwd_seg_cong:
  assumes "\<And>x. x \<in> set xs \<Longrightarrow>
             rel_option (\<lambda>a b. cp_flags a = cp_flags b \<and>
                 ssl_prev (cp_snapshot_list a) = ssl_prev (cp_snapshot_list b))
               (cp_entry st x) (cp_entry st' x)"
  shows "bwd_seg st' n xs e = bwd_seg st n xs e"
  using assms
proof (induction xs arbitrary: n)
  case Nil
  show ?case by simp
next
  case (Cons x xs)
  have r: "rel_option (\<lambda>a b. cp_flags a = cp_flags b \<and>
                 ssl_prev (cp_snapshot_list a) = ssl_prev (cp_snapshot_list b))
               (cp_entry st x) (cp_entry st' x)"
    using Cons.prems by simp
  have ih: "\<And>m. bwd_seg st' m xs e = bwd_seg st m xs e"
    using Cons.IH Cons.prems by simp
  show ?case using r
    by (cases "cp_entry st x"; cases "cp_entry st' x")
      (auto simp: ih nilfs_checkpoint_invalid_def nilfs_checkpoint_snapshot_def)
qed

lemma list_place_writes [simp]:
  "list_bh (cp_write st bh slot f) = list_bh st"
  "list_bh (header_write st bh g) = list_bh st"
  "list_bh (list_write st bh off h) = list_bh st"
  "list_off (cp_write st bh slot f) = list_off st"
  "list_off (header_write st bh g) = list_off st"
  "list_off (list_write st bh off h) = list_off st"
  by (simp_all add: list_bh_def list_off_def fun_eq_iff)

lemma cp_entry_cp_write_at:
  assumes "geometry_ok st"
  shows "cp_entry (cp_write st (nilfs_cpfile_get_blkoff st c) (nilfs_cpfile_get_offset st c) f) x =
           (if x = c then map_option f (cp_entry st x) else cp_entry st x)"
  using blkoff_offset_inj[OF assms, of x c] by (auto simp: cp_entry_cp_write)

text \<open>The backward walk on a well-formed stretch of the list: from the node \<open>c\<close> with the
  link \<open>p\<close> it passes the snapshots \<open>ws\<close>, all greater than \<open>cno\<close>, and stops at the first
  link \<open>e\<close> that is not.\<close>

lemma set_snapshot_walk_bwd:
  assumes "geometry_ok st" and "\<And>b. mi_get_fault st b = None"
    and "bwd_seg st p ws e"
    and "\<And>w. w \<in> set ws \<Longrightarrow> cno < w"
    and "\<not> cno < e"
  shows "set_snapshot_walk st cno c (list_bh st c) (list_bh st c) (list_off st c) p =
           Some (Inr (last (c # ws), list_bh st (last (c # ws)), list_off st (last (c # ws)), e))"
  using assms(3,4)
proof (induction ws arbitrary: c p)
  case Nil
  then show ?case using assms(5)
    by (subst set_snapshot_walk.simps) simp
next
  case (Cons w ws)
  from Cons.prems(1) obtain cp where
    p: "p = w" and w0: "w \<noteq> 0" and cp: "cp_entry st w = Some cp"
    and rest: "bwd_seg st (ssl_prev (cp_snapshot_list cp)) ws e"
    by (auto split: option.splits)
  have gt: "cno < w" using Cons.prems(2) by simp
  have g: "fst (nilfs_cpfile_get_checkpoint_block st w False) = Inr (list_bh st w)"
    using w0 cp assms(2) by (simp add: get_checkpoint_block_present list_bh_def)
  have off: "nilfs_cpfile_cp_snapshot_list_offset st w (list_bh st w) = list_off st w"
    using w0 by (simp add: nilfs_cpfile_cp_snapshot_list_offset_def list_off_def)
  have nl: "node_list st w = Some (cp_snapshot_list cp)"
    using w0 cp by (simp add: node_list_def)
  have rd: "list_read st (list_bh st w) (list_off st w) = cp_snapshot_list cp"
    by (rule list_read_node[OF nl])
  have ih: "set_snapshot_walk st cno w (list_bh st w) (list_bh st w) (list_off st w)
              (ssl_prev (cp_snapshot_list cp)) =
            Some (Inr (last (w # ws), list_bh st (last (w # ws)), list_off st (last (w # ws)), e))"
    using Cons.IH[OF rest] Cons.prems(2) by simp
  have blk: "nilfs_cpfile_get_blkoff st w = list_bh st w" using w0 by (simp add: list_bh_def)
  have l: "last (c # w # ws) = last (w # ws)" by simp
  show ?case
    unfolding l
    apply (subst set_snapshot_walk.simps)
    apply (cases "list_bh st c = list_bh st w")
     apply (simp_all only: p gt if_True if_False Let_def blk g sum.case off rd ih
        not_True_eq_False not_False_eq_True refl)
    done
qed

text \<open>Splitting a sorted list around a number that is not in it.\<close>

lemma sorted_split:
  fixes cno :: u64
  assumes "sorted_wrt (<) xs" "cno \<notin> set xs"
  shows "\<exists>ys zs. xs = ys @ zs \<and> (\<forall>y\<in>set ys. y < cno) \<and> (\<forall>z\<in>set zs. cno < z)"
  using assms
proof (induction xs)
  case Nil
  show ?case by simp
next
  case (Cons x xs)
  show ?case
  proof (cases "x < cno")
    case True
    from Cons obtain ys zs where "xs = ys @ zs" "\<forall>y\<in>set ys. y < cno" "\<forall>z\<in>set zs. cno < z"
      by auto
    then have "x # xs = (x # ys) @ zs \<and> (\<forall>y\<in>set (x # ys). y < cno) \<and> (\<forall>z\<in>set zs. cno < z)"
      using True by simp
    then show ?thesis by blast
  next
    case False
    then have "cno < x" using Cons.prems(2) by auto
    then have "\<forall>z\<in>set (x # xs). cno < z" using Cons.prems(1) by auto
    then have "x # xs = [] @ (x # xs) \<and> (\<forall>y\<in>set []. y < cno) \<and> (\<forall>z\<in>set (x # xs). cno < z)"
      by simp
    then show ?thesis by blast
  qed
qed

lemma insort_split:
  fixes cno :: u64
  assumes "\<forall>y\<in>set ys. y < cno" "\<forall>z\<in>set zs. cno < z"
  shows "insort cno (ys @ zs) = ys @ cno # zs"
  using assms
proof (induction ys)
  case Nil
  then show ?case by (cases zs) auto
next
  case (Cons y ys)
  then show ?case by auto
qed

text \<open>Redirecting the last link of a stretch.\<close>

lemma fwd_seg_retarget:
  assumes "fwd_seg st n ys e" and "distinct ys"
    and "\<And>x. x \<in> set ys \<Longrightarrow> x \<noteq> last ys \<Longrightarrow>
           rel_option (\<lambda>a b. cp_flags a = cp_flags b \<and>
               ssl_next (cp_snapshot_list a) = ssl_next (cp_snapshot_list b))
             (cp_entry st x) (cp_entry st' x)"
    and "ys \<noteq> [] \<Longrightarrow>
           rel_option (\<lambda>a b. cp_flags a = cp_flags b \<and> ssl_next (cp_snapshot_list b) = e')
             (cp_entry st (last ys)) (cp_entry st' (last ys))"
  shows "fwd_seg st' (if ys = [] then e' else n) ys e'"
  using assms
proof (induction ys arbitrary: n)
  case Nil
  show ?case by simp
next
  case (Cons y ys)
  from Cons.prems(1) obtain cp where
    n: "n = y" and y0: "y \<noteq> 0" and cp: "cp_entry st y = Some cp"
    and v: "\<not> nilfs_checkpoint_invalid cp" "nilfs_checkpoint_snapshot cp"
    and rest: "fwd_seg st (ssl_next (cp_snapshot_list cp)) ys e"
    by (auto split: option.splits)
  show ?case
  proof (cases "ys = []")
    case True
    have "rel_option (\<lambda>a b. cp_flags a = cp_flags b \<and> ssl_next (cp_snapshot_list b) = e')
             (cp_entry st y) (cp_entry st' y)"
      using Cons.prems(4) True by simp
    then obtain cp' where "cp_entry st' y = Some cp'" "cp_flags cp = cp_flags cp'"
        "ssl_next (cp_snapshot_list cp') = e'"
      using cp by (cases "cp_entry st' y") auto
    then show ?thesis using True n y0 v
      by (simp add: nilfs_checkpoint_invalid_def nilfs_checkpoint_snapshot_def)
  next
    case False
    have ny: "y \<noteq> last (y # ys)" using False Cons.prems(2) by auto
    have "rel_option (\<lambda>a b. cp_flags a = cp_flags b \<and>
               ssl_next (cp_snapshot_list a) = ssl_next (cp_snapshot_list b))
             (cp_entry st y) (cp_entry st' y)"
      using Cons.prems(3)[of y] ny by simp
    then obtain cp' where cp': "cp_entry st' y = Some cp'" "cp_flags cp = cp_flags cp'"
        "ssl_next (cp_snapshot_list cp) = ssl_next (cp_snapshot_list cp')"
      using cp by (cases "cp_entry st' y") auto
    have "fwd_seg st' (if ys = [] then e' else ssl_next (cp_snapshot_list cp)) ys e'"
    proof (rule Cons.IH[OF rest])
      show "distinct ys" using Cons.prems(2) by simp
      show "rel_option (\<lambda>a b. cp_flags a = cp_flags b \<and>
               ssl_next (cp_snapshot_list a) = ssl_next (cp_snapshot_list b))
             (cp_entry st x) (cp_entry st' x)" if "x \<in> set ys" "x \<noteq> last ys" for x
        using Cons.prems(3)[of x] that False by simp
      show "rel_option (\<lambda>a b. cp_flags a = cp_flags b \<and> ssl_next (cp_snapshot_list b) = e')
             (cp_entry st (last ys)) (cp_entry st' (last ys))" if "ys \<noteq> []"
        using Cons.prems(4) that by simp
    qed
    then show ?thesis using False n y0 v cp'
      by (simp add: nilfs_checkpoint_invalid_def nilfs_checkpoint_snapshot_def)
  qed
qed

lemma bwd_seg_retarget:
  assumes "bwd_seg st n ys e" and "distinct ys"
    and "\<And>x. x \<in> set ys \<Longrightarrow> x \<noteq> last ys \<Longrightarrow>
           rel_option (\<lambda>a b. cp_flags a = cp_flags b \<and>
               ssl_prev (cp_snapshot_list a) = ssl_prev (cp_snapshot_list b))
             (cp_entry st x) (cp_entry st' x)"
    and "ys \<noteq> [] \<Longrightarrow>
           rel_option (\<lambda>a b. cp_flags a = cp_flags b \<and> ssl_prev (cp_snapshot_list b) = e')
             (cp_entry st (last ys)) (cp_entry st' (last ys))"
  shows "bwd_seg st' (if ys = [] then e' else n) ys e'"
  using assms
proof (induction ys arbitrary: n)
  case Nil
  show ?case by simp
next
  case (Cons y ys)
  from Cons.prems(1) obtain cp where
    n: "n = y" and y0: "y \<noteq> 0" and cp: "cp_entry st y = Some cp"
    and v: "\<not> nilfs_checkpoint_invalid cp" "nilfs_checkpoint_snapshot cp"
    and rest: "bwd_seg st (ssl_prev (cp_snapshot_list cp)) ys e"
    by (auto split: option.splits)
  show ?case
  proof (cases "ys = []")
    case True
    have "rel_option (\<lambda>a b. cp_flags a = cp_flags b \<and> ssl_prev (cp_snapshot_list b) = e')
             (cp_entry st y) (cp_entry st' y)"
      using Cons.prems(4) True by simp
    then obtain cp' where "cp_entry st' y = Some cp'" "cp_flags cp = cp_flags cp'"
        "ssl_prev (cp_snapshot_list cp') = e'"
      using cp by (cases "cp_entry st' y") auto
    then show ?thesis using True n y0 v
      by (simp add: nilfs_checkpoint_invalid_def nilfs_checkpoint_snapshot_def)
  next
    case False
    have ny: "y \<noteq> last (y # ys)" using False Cons.prems(2) by auto
    have "rel_option (\<lambda>a b. cp_flags a = cp_flags b \<and>
               ssl_prev (cp_snapshot_list a) = ssl_prev (cp_snapshot_list b))
             (cp_entry st y) (cp_entry st' y)"
      using Cons.prems(3)[of y] ny by simp
    then obtain cp' where cp': "cp_entry st' y = Some cp'" "cp_flags cp = cp_flags cp'"
        "ssl_prev (cp_snapshot_list cp) = ssl_prev (cp_snapshot_list cp')"
      using cp by (cases "cp_entry st' y") auto
    have "bwd_seg st' (if ys = [] then e' else ssl_prev (cp_snapshot_list cp)) ys e'"
    proof (rule Cons.IH[OF rest])
      show "distinct ys" using Cons.prems(2) by simp
      show "rel_option (\<lambda>a b. cp_flags a = cp_flags b \<and>
               ssl_prev (cp_snapshot_list a) = ssl_prev (cp_snapshot_list b))
             (cp_entry st x) (cp_entry st' x)" if "x \<in> set ys" "x \<noteq> last ys" for x
        using Cons.prems(3)[of x] that False by simp
      show "rel_option (\<lambda>a b. cp_flags a = cp_flags b \<and> ssl_prev (cp_snapshot_list b) = e')
             (cp_entry st (last ys)) (cp_entry st' (last ys))" if "ys \<noteq> []"
        using Cons.prems(4) that by simp
    qed
    then show ?thesis using False n y0 v cp'
      by (simp add: nilfs_checkpoint_invalid_def nilfs_checkpoint_snapshot_def)
  qed
qed

lemma fwd_seg_entries:
  "fwd_seg st n xs e \<Longrightarrow> x \<in> set xs \<Longrightarrow>
     x \<noteq> 0 \<and> (\<exists>cp. cp_entry st x = Some cp \<and> \<not> nilfs_checkpoint_invalid cp \<and>
                    nilfs_checkpoint_snapshot cp)"
  by (induction xs arbitrary: n) (auto split: option.splits)

lemma bwd_seg_entries:
  "bwd_seg st n xs e \<Longrightarrow> x \<in> set xs \<Longrightarrow>
     x \<noteq> 0 \<and> (\<exists>cp. cp_entry st x = Some cp \<and> \<not> nilfs_checkpoint_invalid cp \<and>
                    nilfs_checkpoint_snapshot cp)"
  by (induction xs arbitrary: n) (auto split: option.splits)

text \<open>The state \<open>nilfs_cpfile_set_snapshot\<close> leaves when it links \<open>cno\<close> between the next
  node \<open>c\<close> and the previous node \<open>p\<close>.\<close>

definition link_snapshot :: "cpfile \<Rightarrow> u64 \<Rightarrow> u64 \<Rightarrow> u64 \<Rightarrow> cpfile" where
  "link_snapshot st cno c p =
     (let st3 = list_write st (list_bh st c) (list_off st c) (\<lambda>l. l\<lparr>ssl_prev := cno\<rparr>);
          st4 = cp_write st3 (nilfs_cpfile_get_blkoff st cno) (nilfs_cpfile_get_offset st cno)
                  (\<lambda>cp. nilfs_checkpoint_set_snapshot
                           (cp\<lparr>cp_snapshot_list :=
                                 (cp_snapshot_list cp)\<lparr>ssl_next := c, ssl_prev := p\<rparr>\<rparr>));
          st5 = list_write st4 (list_bh st p) (list_off st p) (\<lambda>l. l\<lparr>ssl_next := cno\<rparr>);
          st6 = header_write st5 0 (\<lambda>h. h\<lparr>ch_nsnapshots := ch_nsnapshots h + 1\<rparr>)
      in nilfs_mdt_mark_dirty
           (mark_buffer_dirty
              (mark_buffer_dirty
                 (mark_buffer_dirty (mark_buffer_dirty st6 (list_bh st p)) (list_bh st c))
                 (nilfs_cpfile_get_blkoff st cno))
              0))"

lemma cp_entry_link_snapshot:
  assumes "geometry_ok st"
  shows "cp_entry (link_snapshot st cno c p) x =
           (let e3 = (if c \<noteq> 0 \<and> x = c
                      then map_option (\<lambda>cp. cp\<lparr>cp_snapshot_list :=
                                               (cp_snapshot_list cp)\<lparr>ssl_prev := cno\<rparr>\<rparr>)
                             (cp_entry st x)
                      else cp_entry st x);
                e4 = (if x = cno
                      then map_option
                             (\<lambda>cp. nilfs_checkpoint_set_snapshot
                                (cp\<lparr>cp_snapshot_list :=
                                      (cp_snapshot_list cp)\<lparr>ssl_next := c, ssl_prev := p\<rparr>\<rparr>)) e3
                      else e3)
            in if p \<noteq> 0 \<and> x = p
               then map_option (\<lambda>cp. cp\<lparr>cp_snapshot_list :=
                                        (cp_snapshot_list cp)\<lparr>ssl_next := cno\<rparr>\<rparr>) e4
               else e4)"
proof -
  let ?st3 = "list_write st (list_bh st c) (list_off st c) (\<lambda>l. l\<lparr>ssl_prev := cno\<rparr>)"
  let ?st4 = "cp_write ?st3 (nilfs_cpfile_get_blkoff st cno) (nilfs_cpfile_get_offset st cno)
                  (\<lambda>cp. nilfs_checkpoint_set_snapshot
                           (cp\<lparr>cp_snapshot_list :=
                                 (cp_snapshot_list cp)\<lparr>ssl_next := c, ssl_prev := p\<rparr>\<rparr>))"
  have g3: "geometry_ok ?st3" and g4: "geometry_ok ?st4" using assms by simp_all
  have e3: "cp_entry ?st3 x = (if c \<noteq> 0 \<and> x = c
                      then map_option (\<lambda>cp. cp\<lparr>cp_snapshot_list :=
                                               (cp_snapshot_list cp)\<lparr>ssl_prev := cno\<rparr>\<rparr>)
                             (cp_entry st x)
                      else cp_entry st x)"
    by (rule cp_entry_list_write[OF assms])
  have e4: "cp_entry ?st4 x = (if x = cno
                      then map_option
                             (\<lambda>cp. nilfs_checkpoint_set_snapshot
                                (cp\<lparr>cp_snapshot_list :=
                                      (cp_snapshot_list cp)\<lparr>ssl_next := c, ssl_prev := p\<rparr>\<rparr>))
                             (cp_entry ?st3 x)
                      else cp_entry ?st3 x)"
    using cp_entry_cp_write_at[OF g3, of cno _ x] by simp
  have e5: "cp_entry (list_write ?st4 (list_bh st p) (list_off st p) (\<lambda>l. l\<lparr>ssl_next := cno\<rparr>)) x =
            (if p \<noteq> 0 \<and> x = p
               then map_option (\<lambda>cp. cp\<lparr>cp_snapshot_list :=
                                        (cp_snapshot_list cp)\<lparr>ssl_next := cno\<rparr>\<rparr>) (cp_entry ?st4 x)
               else cp_entry ?st4 x)"
    using cp_entry_list_write[OF g4, of p _ x] by simp
  show ?thesis
    unfolding link_snapshot_def Let_def
    by (simp only: cp_entry_marks cp_entry_header_write e5 e4 e3)
qed

lemma cp_header_link_snapshot:
  "cp_header (link_snapshot st cno c p) =
     map_option
       (\<lambda>h. h\<lparr>ch_snapshot_list :=
                 \<lparr>ssl_next = (if p = 0 then cno else ssl_next (ch_snapshot_list h)),
                  ssl_prev = (if c = 0 then cno else ssl_prev (ch_snapshot_list h))\<rparr>,
               ch_nsnapshots := ch_nsnapshots h + 1\<rparr>)
       (cp_header st)"
proof -
  let ?st3 = "list_write st (list_bh st c) (list_off st c) (\<lambda>l. l\<lparr>ssl_prev := cno\<rparr>)"
  let ?st4 = "cp_write ?st3 (nilfs_cpfile_get_blkoff st cno) (nilfs_cpfile_get_offset st cno)
                  (\<lambda>cp. nilfs_checkpoint_set_snapshot
                           (cp\<lparr>cp_snapshot_list :=
                                 (cp_snapshot_list cp)\<lparr>ssl_next := c, ssl_prev := p\<rparr>\<rparr>))"
  have h5: "cp_header (list_write ?st4 (list_bh st p) (list_off st p) (\<lambda>l. l\<lparr>ssl_next := cno\<rparr>)) =
     (if p = 0 then map_option (\<lambda>h. h\<lparr>ch_snapshot_list := (ch_snapshot_list h)\<lparr>ssl_next := cno\<rparr>\<rparr>)
                       (cp_header ?st4)
      else cp_header ?st4)"
    using cp_header_list_write[of ?st4 p] by simp
  have h3: "cp_header ?st3 =
     (if c = 0 then map_option (\<lambda>h. h\<lparr>ch_snapshot_list := (ch_snapshot_list h)\<lparr>ssl_prev := cno\<rparr>\<rparr>)
                       (cp_header st)
      else cp_header st)"
    by (rule cp_header_list_write)
  show ?thesis
    unfolding link_snapshot_def Let_def
    apply (simp only: cp_header_marks cp_header_header_write h5 cp_header_cp_write h3 refl if_True)
    apply (cases "cp_header st")
     apply (auto)
    done
qed

lemma set_snapshot_links:
  assumes geo: "geometry_ok st" and nf: "\<And>b. mi_get_fault st b = None"
    and cno0: "cno \<noteq> 0"
    and hdr: "cp_header st = Some h"
    and ent: "cp_entry st cno = Some cp"
    and val: "\<not> nilfs_checkpoint_invalid cp" "\<not> nilfs_checkpoint_snapshot cp"
    and bwd: "bwd_seg st (ssl_prev (ch_snapshot_list h)) (rev zs @ rev ys) 0"
    and zs: "\<And>z. z \<in> set zs \<Longrightarrow> cno < z"
    and ys: "\<And>y. y \<in> set ys \<Longrightarrow> y < cno"
  shows "nilfs_cpfile_set_snapshot st cno =
           Some (Inr (), link_snapshot st cno (hd (zs @ [0])) (last (0 # ys)))"
proof -
  define c where "c = hd (zs @ [0])"
  define p where "p = last (0 # ys)"
  have pe: "p = hd (rev ys @ [0])" unfolding p_def by (cases ys rule: rev_cases) auto
  have ce: "last (0 # rev zs) = c" unfolding c_def by (cases zs) auto
  from bwd have b1: "bwd_seg st (ssl_prev (ch_snapshot_list h)) (rev zs) p"
    and b2: "bwd_seg st p (rev ys) 0"
    unfolding pe by (simp_all add: bwd_seg_append)
  have ple: "\<not> cno < p"
  proof (cases ys rule: rev_cases)
    case Nil
    then show ?thesis by (simp add: p_def)
  next
    case (snoc ys' y)
    then show ?thesis using ys[of y] by (auto simp: p_def)
  qed
  have walk: "set_snapshot_walk st cno 0 0 0 ChSnapshotList (ssl_prev (ch_snapshot_list h)) =
                Some (Inr (c, list_bh st c, list_off st c, p))"
  proof -
    have z0: "list_bh st 0 = 0" "list_off st 0 = ChSnapshotList"
      by (simp_all add: list_bh_def list_off_def)
    have "set_snapshot_walk st cno 0 (list_bh st 0) (list_bh st 0) (list_off st 0)
            (ssl_prev (ch_snapshot_list h)) =
          Some (Inr (last (0 # rev zs), list_bh st (last (0 # rev zs)),
                     list_off st (last (0 # rev zs)), p))"
      by (rule set_snapshot_walk_bwd[OF geo nf b1 _ ple]) (use zs in simp)
    then show ?thesis unfolding ce z0 .
  qed
  have pnode: "\<exists>l. node_list st p = Some l"
  proof (cases "p = 0")
    case True
    then show ?thesis using hdr by (simp add: node_list_def)
  next
    case False
    then have "ys \<noteq> []" by (auto simp: p_def)
    then have "p \<in> set (rev ys)" by (simp add: p_def)
    from bwd_seg_entries[OF b2 this] show ?thesis by (auto simp: node_list_def)
  qed
  then obtain l where l: "node_list st p = Some l" by blast
  have nb: "neighbour_list st 0 p = Inr (list_bh st p, list_off st p)"
    by (rule neighbour_list_node[OF nf l])
  have gh: "nilfs_cpfile_get_header_block st = (Inr 0, st)"
    by (rule get_header_block_header[OF nf hdr])
  have gc: "nilfs_cpfile_get_checkpoint_block st cno False = (Inr (nilfs_cpfile_get_blkoff st cno), st)"
    by (rule get_checkpoint_block_present[OF nf ent])
  have rdh: "list_read st 0 ChSnapshotList = ch_snapshot_list h"
    using list_read_node[of st 0 "ch_snapshot_list h"] hdr
    by (simp add: node_list_def list_bh_def list_off_def)
  have rdc: "b_cps (bh_data st (nilfs_cpfile_get_blkoff st cno)) (nilfs_cpfile_get_offset st cno) = cp"
    using ent by (auto simp: cp_entry_def bh_data_def)
  have "nilfs_cpfile_set_snapshot st cno = Some (Inr (), link_snapshot st cno c p)"
    unfolding nilfs_cpfile_set_snapshot_def
    by (simp add: cno0 gh gc rdh rdc val Let_def walk nb link_snapshot_def
        nilfs_cpfile_ch_snapshot_list_offset_def)
  then show ?thesis unfolding c_def p_def .
qed

lemma link_snapshot_other:
  assumes "geometry_ok st" "x \<noteq> cno" "x \<noteq> c \<or> c = 0" "x \<noteq> p \<or> p = 0"
  shows "cp_entry (link_snapshot st cno c p) x = cp_entry st x"
  using assms(2-) by (auto simp: cp_entry_link_snapshot[OF assms(1)] Let_def)

lemma link_snapshot_next_node:
  assumes "geometry_ok st" "c \<noteq> 0" "c \<noteq> cno" "c \<noteq> p"
  shows "cp_entry (link_snapshot st cno c p) c =
           map_option (\<lambda>cp. cp\<lparr>cp_snapshot_list := (cp_snapshot_list cp)\<lparr>ssl_prev := cno\<rparr>\<rparr>)
             (cp_entry st c)"
  using assms(2-) by (auto simp: cp_entry_link_snapshot[OF assms(1)] Let_def)

lemma link_snapshot_prev_node:
  assumes "geometry_ok st" "p \<noteq> 0" "p \<noteq> cno" "c \<noteq> p"
  shows "cp_entry (link_snapshot st cno c p) p =
           map_option (\<lambda>cp. cp\<lparr>cp_snapshot_list := (cp_snapshot_list cp)\<lparr>ssl_next := cno\<rparr>\<rparr>)
             (cp_entry st p)"
  using assms(2-) by (auto simp: cp_entry_link_snapshot[OF assms(1)] Let_def)

lemma link_snapshot_new_node:
  assumes "geometry_ok st" "c \<noteq> cno" "p \<noteq> cno"
  shows "cp_entry (link_snapshot st cno c p) cno =
           map_option
             (\<lambda>cp. nilfs_checkpoint_set_snapshot
                (cp\<lparr>cp_snapshot_list := (cp_snapshot_list cp)\<lparr>ssl_next := c, ssl_prev := p\<rparr>\<rparr>))
             (cp_entry st cno)"
  using assms(2-) by (auto simp: cp_entry_link_snapshot[OF assms(1)] Let_def)

lemma set_snapshot_flags [simp]:
  "nilfs_checkpoint_snapshot (nilfs_checkpoint_set_snapshot cp)"
  "nilfs_checkpoint_invalid (nilfs_checkpoint_set_snapshot cp) = nilfs_checkpoint_invalid cp"
  by (simp_all add: nilfs_checkpoint_set_snapshot_def flag_defs bit_set_bit_iff)

lemma list_upd_flags [simp]:
  "nilfs_checkpoint_invalid (cp\<lparr>cp_snapshot_list := l\<rparr>) = nilfs_checkpoint_invalid cp"
  "nilfs_checkpoint_snapshot (cp\<lparr>cp_snapshot_list := l\<rparr>) = nilfs_checkpoint_snapshot cp"
  by (simp_all add: flag_defs)

lemma set_snapshot_list [simp]:
  "cp_snapshot_list (nilfs_checkpoint_set_snapshot cp) = cp_snapshot_list cp"
  by (simp add: nilfs_checkpoint_set_snapshot_def)

lemma sorted_wrt_less_distinct:
  fixes xs :: "u64 list"
  shows "sorted_wrt (<) xs \<Longrightarrow> distinct xs"
  by (induction xs) auto

lemma link_snapshot_ordered:
  assumes geo: "geometry_ok st"
    and cno0: "cno \<noteq> 0"
    and hdr: "cp_header st = Some h"
    and ent: "cp_entry st cno = Some cp"
    and val: "\<not> nilfs_checkpoint_invalid cp"
    and fwd: "fwd_seg st (ssl_next (ch_snapshot_list h)) (ys @ zs) 0"
    and bwd: "bwd_seg st (ssl_prev (ch_snapshot_list h)) (rev zs @ rev ys) 0"
    and srt: "sorted_wrt (<) (ys @ zs)"
    and zs: "\<And>z. z \<in> set zs \<Longrightarrow> cno < z"
    and ys: "\<And>y. y \<in> set ys \<Longrightarrow> y < cno"
  shows "snapshot_list (link_snapshot st cno (hd (zs @ [0])) (last (0 # ys))) (ys @ cno # zs)"
proof -
  define c where "c = hd (zs @ [0])"
  define p where "p = last (0 # ys)"
  define st' where "st' = link_snapshot st cno c p"
  let ?hn = "ssl_next (ch_snapshot_list h)" and ?hp = "ssl_prev (ch_snapshot_list h)"
  have ce: "c = hd (zs @ [0])" by (simp add: c_def)
  have pe: "p = hd (rev ys @ [0])" unfolding p_def by (cases ys rule: rev_cases) auto
  have ys0: "y \<noteq> 0" if "y \<in> set ys" for y
    using fwd_seg_entries[OF fwd, of y] that by simp
  have zs0: "z \<noteq> 0" if "z \<in> set zs" for z
    using fwd_seg_entries[OF fwd, of z] that by simp
  have c_cases: "(zs = [] \<and> c = 0) \<or> (zs \<noteq> [] \<and> c = hd zs \<and> c \<in> set zs)"
    unfolding c_def by (cases zs) auto
  have p_cases: "(ys = [] \<and> p = 0) \<or> (ys \<noteq> [] \<and> p = last ys \<and> p \<in> set ys)"
    unfolding p_def by (cases ys rule: rev_cases) auto
  have cne: "c \<noteq> cno" using c_cases zs cno0 by auto
  have pne: "p \<noteq> cno" using p_cases ys cno0 by auto
  have cp_ne: "c \<noteq> p \<or> (c = 0 \<and> p = 0)"
    using c_cases p_cases zs ys zs0 ys0 by (metis order_less_asym)
  have f1: "fwd_seg st ?hn ys c" and f2: "fwd_seg st c zs 0"
    using fwd unfolding ce by (simp_all add: fwd_seg_append)
  have b1: "bwd_seg st ?hp (rev zs) p" and b2: "bwd_seg st p (rev ys) 0"
    using bwd unfolding pe by (simp_all add: bwd_seg_append)
  have dys: "distinct ys" and dzs: "distinct zs"
    using sorted_wrt_less_distinct[OF srt] by simp_all
  have other: "cp_entry st' x = cp_entry st x" if "x \<noteq> cno" "x \<noteq> c \<or> c = 0" "x \<noteq> p \<or> p = 0" for x
    unfolding st'_def by (rule link_snapshot_other[OF geo that])
  have new: "cp_entry st' cno =
      Some (nilfs_checkpoint_set_snapshot
              (cp\<lparr>cp_snapshot_list := (cp_snapshot_list cp)\<lparr>ssl_next := c, ssl_prev := p\<rparr>\<rparr>))"
    unfolding st'_def using link_snapshot_new_node[OF geo cne pne] ent by simp
  have nxt: "cp_entry st' c =
      map_option (\<lambda>cp. cp\<lparr>cp_snapshot_list := (cp_snapshot_list cp)\<lparr>ssl_prev := cno\<rparr>\<rparr>)
        (cp_entry st c)" if "c \<noteq> 0"
    unfolding st'_def using link_snapshot_next_node[OF geo that cne] cp_ne that by auto
  have prv: "cp_entry st' p =
      map_option (\<lambda>cp. cp\<lparr>cp_snapshot_list := (cp_snapshot_list cp)\<lparr>ssl_next := cno\<rparr>\<rparr>)
        (cp_entry st p)" if "p \<noteq> 0"
    unfolding st'_def using link_snapshot_prev_node[OF geo that pne] cp_ne that by auto
  have hdr': "cp_header st' =
      Some (h\<lparr>ch_snapshot_list :=
                 \<lparr>ssl_next = (if p = 0 then cno else ?hn),
                  ssl_prev = (if c = 0 then cno else ?hp)\<rparr>,
               ch_nsnapshots := ch_nsnapshots h + 1\<rparr>)"
    unfolding st'_def by (simp add: cp_header_link_snapshot hdr)
  have p0: "p = 0 \<longleftrightarrow> ys = []" using p_cases ys0 by auto
  have c0: "c = 0 \<longleftrightarrow> zs = []" using c_cases zs0 by auto
  \<comment> \<open>the forward walk\<close>
  have FA: "fwd_seg st' (if ys = [] then cno else ?hn) ys cno"
  proof (rule fwd_seg_retarget[OF f1 dys])
    fix x assume x: "x \<in> set ys" "x \<noteq> last ys"
    have "x \<noteq> cno" using ys[OF x(1)] by simp
    moreover have "x \<noteq> c \<or> c = 0" using c_cases zs ys[OF x(1)] by (metis order_less_asym)
    moreover have "x \<noteq> p \<or> p = 0" using p_cases x by auto
    ultimately have "cp_entry st' x = cp_entry st x" by (rule other)
    then show "rel_option (\<lambda>a b. cp_flags a = cp_flags b \<and>
               ssl_next (cp_snapshot_list a) = ssl_next (cp_snapshot_list b))
             (cp_entry st x) (cp_entry st' x)"
      by (cases "cp_entry st x") simp_all
  next
    assume ne: "ys \<noteq> []"
    then have pl: "p = last ys" "p \<noteq> 0" using p_cases p0 by auto
    show "rel_option (\<lambda>a b. cp_flags a = cp_flags b \<and> ssl_next (cp_snapshot_list b) = cno)
             (cp_entry st (last ys)) (cp_entry st' (last ys))"
      using prv[OF pl(2)] unfolding pl(1)[symmetric]
      by (cases "cp_entry st p") simp_all
  qed
  have FB: "fwd_seg st' c zs 0"
  proof -
    have "fwd_seg st' c zs 0 = fwd_seg st c zs 0"
    proof (rule fwd_seg_cong)
      fix x assume x: "x \<in> set zs"
      have xc: "x \<noteq> cno" using zs[OF x] by simp
      have xp: "x \<noteq> p \<or> p = 0" using p_cases ys zs[OF x] by (metis order_less_asym)
      show "rel_option (\<lambda>a b. cp_flags a = cp_flags b \<and>
                 ssl_next (cp_snapshot_list a) = ssl_next (cp_snapshot_list b))
               (cp_entry st x) (cp_entry st' x)"
      proof (cases "x = c")
        case True
        then have "c \<noteq> 0" using zs0[OF x] by simp
        from nxt[OF this] show ?thesis unfolding True
          by (cases "cp_entry st c") simp_all
      next
        case False
        then have "cp_entry st' x = cp_entry st x" using other[OF xc _ xp] by simp
        then show ?thesis by (cases "cp_entry st x") simp_all
      qed
    qed
    then show ?thesis using f2 by simp
  qed
  have F: "fwd_seg st' (if p = 0 then cno else ?hn) (ys @ cno # zs) 0"
    using FA FB new cno0 val by (simp add: fwd_seg_append p0)
  \<comment> \<open>the backward walk\<close>
  have drz: "distinct (rev zs)" using dzs by simp
  have BA: "bwd_seg st' (if rev zs = [] then cno else ?hp) (rev zs) cno"
  proof (rule bwd_seg_retarget[OF b1 drz])
    fix x assume x: "x \<in> set (rev zs)" "x \<noteq> last (rev zs)"
    then have xz: "x \<in> set zs" by simp
    have "x \<noteq> cno" using zs[OF xz] by simp
    moreover have "x \<noteq> p \<or> p = 0" using p_cases ys zs[OF xz] by (metis order_less_asym)
    moreover have "x \<noteq> c \<or> c = 0" using c_cases x by (auto simp: last_rev)
    ultimately have "cp_entry st' x = cp_entry st x" using other by blast
    then show "rel_option (\<lambda>a b. cp_flags a = cp_flags b \<and>
               ssl_prev (cp_snapshot_list a) = ssl_prev (cp_snapshot_list b))
             (cp_entry st x) (cp_entry st' x)"
      by (cases "cp_entry st x") simp_all
  next
    assume ne: "rev zs \<noteq> []"
    then have cl: "c = last (rev zs)" "c \<noteq> 0" using c_cases c0 by (auto simp: last_rev)
    show "rel_option (\<lambda>a b. cp_flags a = cp_flags b \<and> ssl_prev (cp_snapshot_list b) = cno)
             (cp_entry st (last (rev zs))) (cp_entry st' (last (rev zs)))"
      using nxt[OF cl(2)] unfolding cl(1)[symmetric]
      by (cases "cp_entry st c") simp_all
  qed
  have BB: "bwd_seg st' p (rev ys) 0"
  proof -
    have "bwd_seg st' p (rev ys) 0 = bwd_seg st p (rev ys) 0"
    proof (rule bwd_seg_cong)
      fix x assume "x \<in> set (rev ys)"
      then have x: "x \<in> set ys" by simp
      have xc: "x \<noteq> cno" using ys[OF x] by simp
      have xn: "x \<noteq> c \<or> c = 0" using c_cases zs ys[OF x] by (metis order_less_asym)
      show "rel_option (\<lambda>a b. cp_flags a = cp_flags b \<and>
                 ssl_prev (cp_snapshot_list a) = ssl_prev (cp_snapshot_list b))
               (cp_entry st x) (cp_entry st' x)"
      proof (cases "x = p")
        case True
        then have "p \<noteq> 0" using ys0[OF x] by simp
        from prv[OF this] show ?thesis unfolding True
          by (cases "cp_entry st p") simp_all
      next
        case False
        then have "cp_entry st' x = cp_entry st x" using other[OF xc xn] by simp
        then show ?thesis by (cases "cp_entry st x") simp_all
      qed
    qed
    then show ?thesis using b2 by simp
  qed
  have B: "bwd_seg st' (if c = 0 then cno else ?hp) (rev (ys @ cno # zs)) 0"
    using BA BB new cno0 val by (simp add: bwd_seg_append c0)
  have S: "sorted_wrt (<) (ys @ cno # zs)"
    using srt zs ys by (auto simp: sorted_wrt_append)
  have "snapshot_list st' (ys @ cno # zs)"
    unfolding snapshot_list_def using F B S by (simp add: hdr')
  then show ?thesis unfolding st'_def c_def p_def .
qed

lemma snapshot_list_split:
  assumes sl: "snapshot_list st xs"
    and ent: "cp_entry st cno = Some cp" and ns: "\<not> nilfs_checkpoint_snapshot cp"
  obtains h ys zs where "cp_header st = Some h" "xs = ys @ zs"
    "fwd_seg st (ssl_next (ch_snapshot_list h)) (ys @ zs) 0"
    "bwd_seg st (ssl_prev (ch_snapshot_list h)) (rev zs @ rev ys) 0"
    "sorted_wrt (<) (ys @ zs)"
    "\<And>z. z \<in> set zs \<Longrightarrow> cno < z" "\<And>y. y \<in> set ys \<Longrightarrow> y < cno"
proof -
  from sl obtain h where h: "cp_header st = Some h"
    and f: "fwd_seg st (ssl_next (ch_snapshot_list h)) xs 0"
    and b: "bwd_seg st (ssl_prev (ch_snapshot_list h)) (rev xs) 0"
    and s: "sorted_wrt (<) xs"
    by (auto simp: snapshot_list_def split: option.splits)
  have "cno \<notin> set xs"
    using fwd_seg_entries[OF f, of cno] ent ns by auto
  from sorted_split[OF s this] obtain ys zs where
    x: "xs = ys @ zs" and y: "\<forall>y\<in>set ys. y < cno" and z: "\<forall>z\<in>set zs. cno < z"
    by blast
  show ?thesis
    using that[of h ys zs] h f b s x y z by simp
qed

text \<open>C3: let the snapshot list of the file be well formed with the strictly increasing
  sequence \<open>xs\<close> (the forward walk from the header visits \<open>xs\<close>, the backward walk its
  reverse), let \<open>cno \<ge> 1\<close> be a valid entry that is not a snapshot, and let no block fetch
  fail.  Then \<open>set_snapshot cno\<close> returns 0; afterwards the forward walk visits the
  strictly increasing sequence \<open>xs\<close> with \<open>cno\<close> inserted in order and the backward walk
  its reverse; the entry of \<open>cno\<close> has \<open>ssl_prev \<le> cno\<close> and \<open>ssl_next\<close> either 0 (the
  header) or greater than \<open>cno\<close>; and \<open>nsnapshots\<close> of the header has grown by one.\<close>

theorem set_snapshot_keeps_order:
  assumes geo: "geometry_ok st" and nf: "\<And>b. mi_get_fault st b = None"
    and cno1: "1 \<le> cno"
    and sl: "snapshot_list st xs"
    and ent: "cp_entry st cno = Some cp"
    and val: "\<not> nilfs_checkpoint_invalid cp" and ns: "\<not> nilfs_checkpoint_snapshot cp"
  shows "\<exists>st' cp' h h'.
           nilfs_cpfile_set_snapshot st cno = Some (Inr (), st') \<and>
           snapshot_list st' (insort cno xs) \<and>
           cno \<in> set (insort cno xs) \<and>
           cp_entry st' cno = Some cp' \<and>
           ssl_prev (cp_snapshot_list cp') \<le> cno \<and>
           (ssl_next (cp_snapshot_list cp') = 0 \<or> cno < ssl_next (cp_snapshot_list cp')) \<and>
           cp_header st = Some h \<and> cp_header st' = Some h' \<and>
           ch_nsnapshots h' = ch_nsnapshots h + 1"
proof -
  have cno0: "cno \<noteq> 0" using cno1 by simp
  from snapshot_list_split[OF sl ent ns] obtain h ys zs where
    h: "cp_header st = Some h" and x: "xs = ys @ zs"
    and f: "fwd_seg st (ssl_next (ch_snapshot_list h)) (ys @ zs) 0"
    and b: "bwd_seg st (ssl_prev (ch_snapshot_list h)) (rev zs @ rev ys) 0"
    and s: "sorted_wrt (<) (ys @ zs)"
    and z: "\<And>z. z \<in> set zs \<Longrightarrow> cno < z" and y: "\<And>y. y \<in> set ys \<Longrightarrow> y < cno"
    by blast
  define c where "c = hd (zs @ [0])"
  define p where "p = last (0 # ys)"
  define st' where "st' = link_snapshot st cno c p"
  have r: "nilfs_cpfile_set_snapshot st cno = Some (Inr (), st')"
    unfolding st'_def c_def p_def
    by (rule set_snapshot_links[OF geo nf cno0 h ent val ns b z y])
  have o: "snapshot_list st' (insort cno xs)"
    using link_snapshot_ordered[OF geo cno0 h ent val f b s z y] y z
    by (simp add: st'_def c_def p_def x insort_split)
  have cne: "c \<noteq> cno" using z cno0 unfolding c_def by (cases zs) auto
  have pne: "p \<noteq> cno" using y cno0 unfolding p_def by (cases ys rule: rev_cases) auto
  have e: "cp_entry st' cno =
      Some (nilfs_checkpoint_set_snapshot
              (cp\<lparr>cp_snapshot_list := (cp_snapshot_list cp)\<lparr>ssl_next := c, ssl_prev := p\<rparr>\<rparr>))"
    unfolding st'_def using link_snapshot_new_node[OF geo cne pne] ent by simp
  have ple: "p \<le> cno"
  proof (cases ys rule: rev_cases)
    case Nil
    then show ?thesis by (simp add: p_def)
  next
    case (snoc ys' y')
    then have "y' < cno" using y[of y'] by simp
    then show ?thesis using snoc by (simp add: p_def)
  qed
  have cgt: "c = 0 \<or> cno < c" using z unfolding c_def by (cases zs) auto
  have h': "cp_header st' =
      Some (h\<lparr>ch_snapshot_list :=
                 \<lparr>ssl_next = (if p = 0 then cno else ssl_next (ch_snapshot_list h)),
                  ssl_prev = (if c = 0 then cno else ssl_prev (ch_snapshot_list h))\<rparr>,
               ch_nsnapshots := ch_nsnapshots h + 1\<rparr>)"
    unfolding st'_def by (simp add: cp_header_link_snapshot h)
  show ?thesis
    using r o e ple cgt h h' by (simp add: set_insort_key)
qed

text \<open>Unlinking.\<close>

definition unlink_snapshot :: "cpfile \<Rightarrow> u64 \<Rightarrow> u64 \<Rightarrow> u64 \<Rightarrow> cpfile" where
  "unlink_snapshot st cno c p =
     (let st3 = list_write st (list_bh st c) (list_off st c) (\<lambda>l. l\<lparr>ssl_prev := p\<rparr>);
          st4 = list_write st3 (list_bh st p) (list_off st p) (\<lambda>l. l\<lparr>ssl_next := c\<rparr>);
          st5 = cp_write st4 (nilfs_cpfile_get_blkoff st cno) (nilfs_cpfile_get_offset st cno)
                  (\<lambda>cp. nilfs_checkpoint_clear_snapshot
                           (cp\<lparr>cp_snapshot_list :=
                                 (cp_snapshot_list cp)\<lparr>ssl_next := 0, ssl_prev := 0\<rparr>\<rparr>));
          st6 = header_write st5 0 (\<lambda>h. h\<lparr>ch_nsnapshots := ch_nsnapshots h + (- 1)\<rparr>)
      in nilfs_mdt_mark_dirty
           (mark_buffer_dirty
              (mark_buffer_dirty
                 (mark_buffer_dirty (mark_buffer_dirty st6 (list_bh st c)) (list_bh st p))
                 (nilfs_cpfile_get_blkoff st cno))
              0))"

lemma clear_snapshot_unlinks:
  assumes nf: "\<And>b. mi_get_fault st b = None"
    and cno0: "cno \<noteq> 0"
    and hdr: "cp_header st = Some h"
    and ent: "cp_entry st cno = Some cp"
    and val: "\<not> nilfs_checkpoint_invalid cp" "nilfs_checkpoint_snapshot cp"
    and c: "node_list st (ssl_next (cp_snapshot_list cp)) = Some lc"
    and p: "node_list st (ssl_prev (cp_snapshot_list cp)) = Some lp"
  shows "nilfs_cpfile_clear_snapshot st cno =
           (Inr (), unlink_snapshot st cno (ssl_next (cp_snapshot_list cp))
                      (ssl_prev (cp_snapshot_list cp)))"
proof -
  have gh: "nilfs_cpfile_get_header_block st = (Inr 0, st)"
    by (rule get_header_block_header[OF nf hdr])
  have gc: "nilfs_cpfile_get_checkpoint_block st cno False = (Inr (nilfs_cpfile_get_blkoff st cno), st)"
    by (rule get_checkpoint_block_present[OF nf ent])
  have rdc: "b_cps (bh_data st (nilfs_cpfile_get_blkoff st cno)) (nilfs_cpfile_get_offset st cno) = cp"
    using ent by (auto simp: cp_entry_def bh_data_def)
  note nbc = neighbour_list_node[OF nf c] and nbp = neighbour_list_node[OF nf p]
  show ?thesis
    unfolding nilfs_cpfile_clear_snapshot_def
    by (simp add: cno0 gh gc rdc val Let_def nbc nbp unlink_snapshot_def)
qed

lemma cp_entry_unlink_snapshot:
  assumes "geometry_ok st"
  shows "cp_entry (unlink_snapshot st cno c p) x =
           (let e3 = (if c \<noteq> 0 \<and> x = c
                      then map_option (\<lambda>cp. cp\<lparr>cp_snapshot_list :=
                                               (cp_snapshot_list cp)\<lparr>ssl_prev := p\<rparr>\<rparr>)
                             (cp_entry st x)
                      else cp_entry st x);
                e4 = (if p \<noteq> 0 \<and> x = p
                      then map_option (\<lambda>cp. cp\<lparr>cp_snapshot_list :=
                                        (cp_snapshot_list cp)\<lparr>ssl_next := c\<rparr>\<rparr>) e3
                      else e3)
            in if x = cno
               then map_option
                      (\<lambda>cp. nilfs_checkpoint_clear_snapshot
                         (cp\<lparr>cp_snapshot_list :=
                               (cp_snapshot_list cp)\<lparr>ssl_next := 0, ssl_prev := 0\<rparr>\<rparr>)) e4
               else e4)"
proof -
  let ?st3 = "list_write st (list_bh st c) (list_off st c) (\<lambda>l. l\<lparr>ssl_prev := p\<rparr>)"
  let ?st4 = "list_write ?st3 (list_bh st p) (list_off st p) (\<lambda>l. l\<lparr>ssl_next := c\<rparr>)"
  have g3: "geometry_ok ?st3" and g4: "geometry_ok ?st4" using assms by simp_all
  have e3: "cp_entry ?st3 x = (if c \<noteq> 0 \<and> x = c
                      then map_option (\<lambda>cp. cp\<lparr>cp_snapshot_list :=
                                               (cp_snapshot_list cp)\<lparr>ssl_prev := p\<rparr>\<rparr>)
                             (cp_entry st x)
                      else cp_entry st x)"
    by (rule cp_entry_list_write[OF assms])
  have e4: "cp_entry ?st4 x = (if p \<noteq> 0 \<and> x = p
                      then map_option (\<lambda>cp. cp\<lparr>cp_snapshot_list :=
                                        (cp_snapshot_list cp)\<lparr>ssl_next := c\<rparr>\<rparr>) (cp_entry ?st3 x)
                      else cp_entry ?st3 x)"
    using cp_entry_list_write[OF g3, of p _ x] by simp
  have e5: "cp_entry (cp_write ?st4 (nilfs_cpfile_get_blkoff st cno) (nilfs_cpfile_get_offset st cno) f) x =
            (if x = cno then map_option f (cp_entry ?st4 x) else cp_entry ?st4 x)" for f
    using cp_entry_cp_write_at[OF g4, of cno f x] by simp
  show ?thesis
    unfolding unlink_snapshot_def Let_def
    by (simp only: cp_entry_marks cp_entry_header_write e5 e4 e3)
qed

lemma cp_header_unlink_snapshot:
  "cp_header (unlink_snapshot st cno c p) =
     map_option
       (\<lambda>h. h\<lparr>ch_snapshot_list :=
                 \<lparr>ssl_next = (if p = 0 then c else ssl_next (ch_snapshot_list h)),
                  ssl_prev = (if c = 0 then p else ssl_prev (ch_snapshot_list h))\<rparr>,
               ch_nsnapshots := ch_nsnapshots h + (- 1)\<rparr>)
       (cp_header st)"
proof -
  let ?st3 = "list_write st (list_bh st c) (list_off st c) (\<lambda>l. l\<lparr>ssl_prev := p\<rparr>)"
  have h4: "cp_header (list_write ?st3 (list_bh st p) (list_off st p) (\<lambda>l. l\<lparr>ssl_next := c\<rparr>)) =
     (if p = 0 then map_option (\<lambda>h. h\<lparr>ch_snapshot_list := (ch_snapshot_list h)\<lparr>ssl_next := c\<rparr>\<rparr>)
                       (cp_header ?st3)
      else cp_header ?st3)"
    using cp_header_list_write[of ?st3 p] by simp
  have h3: "cp_header ?st3 =
     (if c = 0 then map_option (\<lambda>h. h\<lparr>ch_snapshot_list := (ch_snapshot_list h)\<lparr>ssl_prev := p\<rparr>\<rparr>)
                       (cp_header st)
      else cp_header st)"
    by (rule cp_header_list_write)
  show ?thesis
    unfolding unlink_snapshot_def Let_def
    apply (simp only: cp_header_marks cp_header_header_write h4 cp_header_cp_write h3 refl if_True)
    apply (cases "cp_header st")
     apply (auto)
    done
qed

lemma fwd_seg_last_link:
  "fwd_seg st n ws e \<Longrightarrow> ws \<noteq> [] \<Longrightarrow>
     \<exists>cp. cp_entry st (last ws) = Some cp \<and> ssl_next (cp_snapshot_list cp) = e"
  by (induction ws arbitrary: n) (auto split: option.splits)

lemma bwd_seg_last_link:
  "bwd_seg st n ws e \<Longrightarrow> ws \<noteq> [] \<Longrightarrow>
     \<exists>cp. cp_entry st (last ws) = Some cp \<and> ssl_prev (cp_snapshot_list cp) = e"
  by (induction ws arbitrary: n) (auto split: option.splits)

lemma unset_set_bit_word:
  fixes w :: "'a::len word"
  shows "\<not> bit w n \<Longrightarrow> unset_bit n (set_bit n w) = w"
  by (rule bit_eqI) (auto simp: bit_unset_bit_iff bit_set_bit_iff)

lemma clear_set_snapshot_flags:
  "\<not> nilfs_checkpoint_snapshot cp \<Longrightarrow>
   nilfs_checkpoint_clear_snapshot
     ((nilfs_checkpoint_set_snapshot (cp\<lparr>cp_snapshot_list := l\<rparr>))\<lparr>cp_snapshot_list := l'\<rparr>)
   = cp\<lparr>cp_snapshot_list := l'\<rparr>"
  by (simp add: nilfs_checkpoint_clear_snapshot_def nilfs_checkpoint_set_snapshot_def
      nilfs_checkpoint_snapshot_def unset_set_bit_word)

lemma link_snapshot_fields [simp]:
  "geometry_ok (link_snapshot st cno c p) = geometry_ok st"
  "mi_get_fault (link_snapshot st cno c p) = mi_get_fault st"
  "nilfs_cpfile_get_blkoff (link_snapshot st cno c p) = nilfs_cpfile_get_blkoff st"
  "nilfs_cpfile_get_offset (link_snapshot st cno c p) = nilfs_cpfile_get_offset st"
  by (simp_all add: link_snapshot_def Let_def)

text \<open>C5: under the same conditions, \<open>set_snapshot cno\<close> followed by
  \<open>clear_snapshot cno\<close> both return 0, and afterwards the entry of \<open>cno\<close> is the original
  one (flags included, SNAPSHOT clear) with both list links 0, every other entry, and so
  every link of the snapshot list, is as before, and the header (the ends of the list and
  \<open>nsnapshots\<close>) is as before.\<close>

theorem set_clear_snapshot_round_trip:
  assumes geo: "geometry_ok st" and nf: "\<And>b. mi_get_fault st b = None"
    and cno1: "1 \<le> cno"
    and sl: "snapshot_list st xs"
    and ent: "cp_entry st cno = Some cp"
    and val: "\<not> nilfs_checkpoint_invalid cp" and ns: "\<not> nilfs_checkpoint_snapshot cp"
  shows "\<exists>st1 st2.
           nilfs_cpfile_set_snapshot st cno = Some (Inr (), st1) \<and>
           nilfs_cpfile_clear_snapshot st1 cno = (Inr (), st2) \<and>
           cp_entry st2 cno =
             Some (cp\<lparr>cp_snapshot_list := (cp_snapshot_list cp)\<lparr>ssl_next := 0, ssl_prev := 0\<rparr>\<rparr>) \<and>
           (\<forall>x. x \<noteq> cno \<longrightarrow> cp_entry st2 x = cp_entry st x) \<and>
           cp_header st2 = cp_header st"
proof -
  have cno0: "cno \<noteq> 0" using cno1 by simp
  from snapshot_list_split[OF sl ent ns] obtain h ys zs where
    h: "cp_header st = Some h" and x: "xs = ys @ zs"
    and f: "fwd_seg st (ssl_next (ch_snapshot_list h)) (ys @ zs) 0"
    and b: "bwd_seg st (ssl_prev (ch_snapshot_list h)) (rev zs @ rev ys) 0"
    and s: "sorted_wrt (<) (ys @ zs)"
    and z: "\<And>z. z \<in> set zs \<Longrightarrow> cno < z" and y: "\<And>y. y \<in> set ys \<Longrightarrow> y < cno"
    by blast
  let ?hn = "ssl_next (ch_snapshot_list h)" and ?hp = "ssl_prev (ch_snapshot_list h)"
  define c where "c = hd (zs @ [0])"
  define p where "p = last (0 # ys)"
  define st1 where "st1 = link_snapshot st cno c p"
  define st2 where "st2 = unlink_snapshot st1 cno c p"
  define cp1 where "cp1 = nilfs_checkpoint_set_snapshot
              (cp\<lparr>cp_snapshot_list := (cp_snapshot_list cp)\<lparr>ssl_next := c, ssl_prev := p\<rparr>\<rparr>)"
  have ce: "c = hd (zs @ [0])" by (simp add: c_def)
  have pe: "p = hd (rev ys @ [0])" unfolding p_def by (cases ys rule: rev_cases) auto
  have ys0: "y \<noteq> 0" if "y \<in> set ys" for y
    using fwd_seg_entries[OF f, of y] that by simp
  have zs0: "z \<noteq> 0" if "z \<in> set zs" for z
    using fwd_seg_entries[OF f, of z] that by simp
  have c_cases: "(zs = [] \<and> c = 0) \<or> (zs \<noteq> [] \<and> c = last (rev zs) \<and> c \<in> set zs)"
    unfolding c_def by (cases zs) (auto simp: last_rev)
  have p_cases: "(ys = [] \<and> p = 0) \<or> (ys \<noteq> [] \<and> p = last ys \<and> p \<in> set ys)"
    unfolding p_def by (cases ys rule: rev_cases) auto
  have cne: "c \<noteq> cno" using c_cases z cno0 by auto
  have pne: "p \<noteq> cno" using p_cases y cno0 by auto
  have cp_ne: "c \<noteq> p \<or> (c = 0 \<and> p = 0)"
    using c_cases p_cases z y zs0 ys0 by (metis order_less_asym)
  have f1: "fwd_seg st ?hn ys c" using f unfolding ce by (simp add: fwd_seg_append)
  have b1: "bwd_seg st ?hp (rev zs) p" using b unfolding pe by (simp add: bwd_seg_append)
  \<comment> \<open>the links the two neighbours had before\<close>
  have c_old: "\<exists>cc. cp_entry st c = Some cc \<and> ssl_prev (cp_snapshot_list cc) = p" if "c \<noteq> 0"
    using bwd_seg_last_link[OF b1] c_cases that by auto
  have p_old: "\<exists>pp. cp_entry st p = Some pp \<and> ssl_next (cp_snapshot_list pp) = c" if "p \<noteq> 0"
    using fwd_seg_last_link[OF f1] p_cases that by auto
  have hn: "?hn = c" if "p = 0" using f1 p_cases ys0 that by auto
  have hp: "?hp = p" if "c = 0" using b1 c_cases zs0 that by auto
  \<comment> \<open>the first call\<close>
  have r1: "nilfs_cpfile_set_snapshot st cno = Some (Inr (), st1)"
    unfolding st1_def c_def p_def
    by (rule set_snapshot_links[OF geo nf cno0 h ent val ns b z y])
  have geo1: "geometry_ok st1" and nf1: "\<And>b. mi_get_fault st1 b = None"
    using geo nf by (simp_all add: st1_def)
  have e1: "cp_entry st1 x =
           (let e3 = (if c \<noteq> 0 \<and> x = c
                      then map_option (\<lambda>cp. cp\<lparr>cp_snapshot_list :=
                                               (cp_snapshot_list cp)\<lparr>ssl_prev := cno\<rparr>\<rparr>)
                             (cp_entry st x)
                      else cp_entry st x);
                e4 = (if x = cno
                      then map_option
                             (\<lambda>cp. nilfs_checkpoint_set_snapshot
                                (cp\<lparr>cp_snapshot_list :=
                                      (cp_snapshot_list cp)\<lparr>ssl_next := c, ssl_prev := p\<rparr>\<rparr>)) e3
                      else e3)
            in if p \<noteq> 0 \<and> x = p
               then map_option (\<lambda>cp. cp\<lparr>cp_snapshot_list :=
                                        (cp_snapshot_list cp)\<lparr>ssl_next := cno\<rparr>\<rparr>) e4
               else e4)" for x
    unfolding st1_def by (rule cp_entry_link_snapshot[OF geo])
  have new1: "cp_entry st1 cno = Some cp1"
    using cne pne ent by (auto simp: e1 Let_def cp1_def)
  have h1: "cp_header st1 =
      Some (h\<lparr>ch_snapshot_list :=
                 \<lparr>ssl_next = (if p = 0 then cno else ?hn),
                  ssl_prev = (if c = 0 then cno else ?hp)\<rparr>,
               ch_nsnapshots := ch_nsnapshots h + 1\<rparr>)"
    unfolding st1_def by (simp add: cp_header_link_snapshot h)
  have l1: "ssl_next (cp_snapshot_list cp1) = c" "ssl_prev (cp_snapshot_list cp1) = p"
    and v1: "\<not> nilfs_checkpoint_invalid cp1" "nilfs_checkpoint_snapshot cp1"
    using val by (simp_all add: cp1_def)
  have nc: "\<exists>l. node_list st1 c = Some l"
  proof (cases "c = 0")
    case True
    then show ?thesis by (simp add: node_list_def h1)
  next
    case False
    from c_old[OF False] obtain cc where "cp_entry st c = Some cc" by blast
    then show ?thesis using False cne by (auto simp: node_list_def e1 Let_def)
  qed
  have np: "\<exists>l. node_list st1 p = Some l"
  proof (cases "p = 0")
    case True
    then show ?thesis by (simp add: node_list_def h1)
  next
    case False
    from p_old[OF False] obtain pp where "cp_entry st p = Some pp" by blast
    then show ?thesis using False pne by (auto simp: node_list_def e1 Let_def)
  qed
  from nc np obtain lc lp where lc: "node_list st1 c = Some lc" and lp: "node_list st1 p = Some lp"
    by blast
  \<comment> \<open>the second call\<close>
  have r2: "nilfs_cpfile_clear_snapshot st1 cno = (Inr (), st2)"
    using clear_snapshot_unlinks[OF nf1 cno0 h1 new1 v1] lc lp
    by (simp add: l1 st2_def)
  have e2: "cp_entry st2 x =
           (let e3 = (if c \<noteq> 0 \<and> x = c
                      then map_option (\<lambda>cp. cp\<lparr>cp_snapshot_list :=
                                               (cp_snapshot_list cp)\<lparr>ssl_prev := p\<rparr>\<rparr>)
                             (cp_entry st1 x)
                      else cp_entry st1 x);
                e4 = (if p \<noteq> 0 \<and> x = p
                      then map_option (\<lambda>cp. cp\<lparr>cp_snapshot_list :=
                                        (cp_snapshot_list cp)\<lparr>ssl_next := c\<rparr>\<rparr>) e3
                      else e3)
            in if x = cno
               then map_option
                      (\<lambda>cp. nilfs_checkpoint_clear_snapshot
                         (cp\<lparr>cp_snapshot_list :=
                               (cp_snapshot_list cp)\<lparr>ssl_next := 0, ssl_prev := 0\<rparr>\<rparr>)) e4
               else e4)" for x
    unfolding st2_def by (rule cp_entry_unlink_snapshot[OF geo1])
  have A: "cp_entry st2 cno =
             Some (cp\<lparr>cp_snapshot_list := (cp_snapshot_list cp)\<lparr>ssl_next := 0, ssl_prev := 0\<rparr>\<rparr>)"
  proof -
    have "cp_entry st2 cno =
            Some (nilfs_checkpoint_clear_snapshot
                    (cp1\<lparr>cp_snapshot_list := (cp_snapshot_list cp1)\<lparr>ssl_next := 0, ssl_prev := 0\<rparr>\<rparr>))"
      using cne pne new1 by (auto simp: e2 Let_def)
    also have "\<dots> = Some (cp\<lparr>cp_snapshot_list :=
                               (cp_snapshot_list cp)\<lparr>ssl_next := 0, ssl_prev := 0\<rparr>\<rparr>)"
      unfolding cp1_def using clear_set_snapshot_flags[OF ns] by simp
    finally show ?thesis .
  qed
  have B: "cp_entry st2 x = cp_entry st x" if "x \<noteq> cno" for x
  proof -
    consider (c) "x = c" "c \<noteq> 0" | (p) "x = p" "p \<noteq> 0" | (o) "x \<noteq> c \<or> c = 0" "x \<noteq> p \<or> p = 0"
      by blast
    then show ?thesis
    proof cases
      case c
      from c_old[OF c(2)] obtain cc where cc: "cp_entry st c = Some cc"
          "ssl_prev (cp_snapshot_list cc) = p" by blast
      have "c \<noteq> p" using cp_ne c(2) by auto
      then show ?thesis using c cne cc by (auto simp: e2 e1 Let_def)
    next
      case p
      from p_old[OF p(2)] obtain pp where pp: "cp_entry st p = Some pp"
          "ssl_next (cp_snapshot_list pp) = c" by blast
      have "c \<noteq> p" using cp_ne p(2) by auto
      then show ?thesis using p pne pp by (auto simp: e2 e1 Let_def)
    next
      case o
      then show ?thesis using that by (auto simp: e2 e1 Let_def)
    qed
  qed
  have C: "cp_header st2 = cp_header st"
    unfolding st2_def using hn hp
    by (auto simp: cp_header_unlink_snapshot h1 h)
  show ?thesis using r1 r2 A B C by blast
qed

text \<open>A file with the snapshots 10 and 30 and the plain checkpoint 20 (the second
  boundary scenario of the specification); with four entries per block they lie in the
  blocks 2, 7 and 5.\<close>

definition ex_snap :: cpfile where
  "ex_snap =
     ex_file 31
       [0 \<mapsto> \<lparr>b_header = ex_header 3 2 10 30, b_cps = (\<lambda>_. ex_invalid)\<rparr>,
        2 \<mapsto> \<lparr>b_header = ex_header 0 0 0 0,
               b_cps = (\<lambda>_. ex_invalid)(0 := ex_entry 1 1 0 0 0, 2 := ex_entry 2 0 10 30 0)\<rparr>,
        5 \<mapsto> \<lparr>b_header = ex_header 0 0 0 0,
               b_cps = (\<lambda>_. ex_invalid)(0 := ex_entry 0 1 20 0 0)\<rparr>,
        7 \<mapsto> \<lparr>b_header = ex_header 0 0 0 0,
               b_cps = (\<lambda>_. ex_invalid)(0 := ex_entry 1 1 0 0 0, 2 := ex_entry 2 0 30 0 10)\<rparr>]"

lemma ex_snap_facts:
  "geometry_ok ex_snap"
  "mi_get_fault ex_snap b = None"
  "cp_header ex_snap = Some (ex_header 3 2 10 30)"
  "cp_entry ex_snap 10 = Some (ex_entry 2 0 10 30 0)"
  "cp_entry ex_snap 20 = Some (ex_entry 0 1 20 0 0)"
  "cp_entry ex_snap 30 = Some (ex_entry 2 0 30 0 10)"
  by (simp_all add: geometry_ok_def cp_entry_def cp_header_def ex_snap_def ex_file_def layout_defs)

lemma ex_entry_flags:
  "\<not> nilfs_checkpoint_invalid (ex_entry 0 n c a b)"
  "\<not> nilfs_checkpoint_snapshot (ex_entry 0 n c a b)"
  "\<not> nilfs_checkpoint_invalid (ex_entry 2 n c a b)"
  "nilfs_checkpoint_snapshot (ex_entry 2 n c a b)"
  "nilfs_checkpoint_invalid (ex_entry 1 n c a b)"
  "\<not> nilfs_checkpoint_snapshot (ex_entry 1 n c a b)"
  by (simp_all add: ex_entry_def flag_defs)

lemma ex_snap_list: "snapshot_list ex_snap [10, 30]"
  by (simp add: snapshot_list_def ex_snap_facts ex_entry_flags)
    (simp add: ex_entry_def ex_header_def)

theorem set_snapshot_keeps_order_witness:
  "geometry_ok ex_snap \<and> (\<forall>b. mi_get_fault ex_snap b = None) \<and> (1::u64) \<le> 20 \<and>
   snapshot_list ex_snap [10, 30] \<and>
   cp_entry ex_snap 20 = Some (ex_entry 0 1 20 0 0) \<and>
   \<not> nilfs_checkpoint_invalid (ex_entry 0 1 20 0 0) \<and>
   \<not> nilfs_checkpoint_snapshot (ex_entry 0 1 20 0 0) \<and>
   (\<exists>st' cp' h h'.
      nilfs_cpfile_set_snapshot ex_snap 20 = Some (Inr (), st') \<and>
      snapshot_list st' [10, 20, 30] \<and>
      cp_entry st' 20 = Some cp' \<and>
      ssl_prev (cp_snapshot_list cp') \<le> 20 \<and>
      (ssl_next (cp_snapshot_list cp') = 0 \<or> 20 < ssl_next (cp_snapshot_list cp')) \<and>
      cp_header ex_snap = Some h \<and> cp_header st' = Some h' \<and>
      ch_nsnapshots h' = ch_nsnapshots h + 1)"
proof -
  have le: "(1::u64) \<le> 20" by simp
  show ?thesis
    using set_snapshot_keeps_order[OF ex_snap_facts(1) ex_snap_facts(2) le ex_snap_list
        ex_snap_facts(5) ex_entry_flags(1) ex_entry_flags(2)]
    by (simp add: ex_snap_facts ex_entry_flags ex_snap_list)
qed

theorem set_clear_snapshot_round_trip_witness:
  "geometry_ok ex_snap \<and> (\<forall>b. mi_get_fault ex_snap b = None) \<and> (1::u64) \<le> 20 \<and>
   snapshot_list ex_snap [10, 30] \<and>
   cp_entry ex_snap 20 = Some (ex_entry 0 1 20 0 0) \<and>
   \<not> nilfs_checkpoint_invalid (ex_entry 0 1 20 0 0) \<and>
   \<not> nilfs_checkpoint_snapshot (ex_entry 0 1 20 0 0) \<and>
   (\<exists>st1 st2.
      nilfs_cpfile_set_snapshot ex_snap 20 = Some (Inr (), st1) \<and>
      nilfs_cpfile_clear_snapshot st1 20 = (Inr (), st2) \<and>
      cp_entry st2 20 = Some (ex_entry 0 1 20 0 0) \<and>
      cp_entry st2 10 = Some (ex_entry 2 0 10 30 0) \<and>
      cp_entry st2 30 = Some (ex_entry 2 0 30 0 10) \<and>
      cp_header st2 = Some (ex_header 3 2 10 30))"
proof -
  have le: "(1::u64) \<le> 20" by simp
  have z: "(ex_entry 0 1 20 0 0)\<lparr>cp_snapshot_list :=
             (cp_snapshot_list (ex_entry 0 1 20 0 0))\<lparr>ssl_next := 0, ssl_prev := 0\<rparr>\<rparr>
           = ex_entry 0 1 20 0 0"
    by (simp add: ex_entry_def)
  from set_clear_snapshot_round_trip[OF ex_snap_facts(1) ex_snap_facts(2) le ex_snap_list
        ex_snap_facts(5) ex_entry_flags(1) ex_entry_flags(2)]
  obtain st1 st2 where
    r: "nilfs_cpfile_set_snapshot ex_snap 20 = Some (Inr (), st1)"
       "nilfs_cpfile_clear_snapshot st1 20 = (Inr (), st2)"
       "cp_entry st2 20 = Some (ex_entry 0 1 20 0 0)"
       "\<forall>x. x \<noteq> 20 \<longrightarrow> cp_entry st2 x = cp_entry ex_snap x"
       "cp_header st2 = cp_header ex_snap"
    unfolding z by blast
  have "cp_entry st2 10 = cp_entry ex_snap 10" "cp_entry st2 30 = cp_entry ex_snap 30"
    using r(4) by simp_all
  then show ?thesis
    using r by (simp add: ex_snap_facts ex_entry_flags ex_snap_list)
qed

subsection \<open>C2 and C7: deleting a range of checkpoints\<close>

declare del_loop.simps [simp del]

text \<open>The inner loop in closed form.\<close>

definition plain_cp :: "nilfs_checkpoint \<Rightarrow> bool" where
  "plain_cp cp = (\<not> nilfs_checkpoint_snapshot cp \<and> \<not> nilfs_checkpoint_invalid cp)"

definition cnt :: "(nat \<Rightarrow> bool) \<Rightarrow> nat \<Rightarrow> nat \<Rightarrow> nat" where
  "cnt P a b = length (filter P [a ..< b])"

lemma cnt_empty [simp]: "cnt P a a = 0"
  by (simp add: cnt_def)

lemma cnt_step: "a < b \<Longrightarrow> cnt P a b = (if P a then 1 else 0) + cnt P (Suc a) b"
  by (simp add: cnt_def upt_conv_Cons)

lemma cnt_append: "a \<le> b \<Longrightarrow> b \<le> c \<Longrightarrow> cnt P a c = cnt P a b + cnt P b c"
proof -
  assume "a \<le> b" "b \<le> c"
  then have "[a ..< c] = [a ..< b] @ [b ..< c]"
    by (metis le_Suc_ex upt_add_eq_append)
  then show ?thesis by (simp add: cnt_def)
qed

lemma cnt_cong: "(\<And>i. a \<le> i \<Longrightarrow> i < b \<Longrightarrow> P i = Q i) \<Longrightarrow> cnt P a b = cnt Q a b"
  unfolding cnt_def by (rule arg_cong[where f=length], rule filter_cong) auto

lemma cnt_shift: "cnt (\<lambda>i. P (i + d)) a b = cnt P (a + d) (b + d)"
proof -
  have "[a + d ..< b + d] = map (\<lambda>i. i + d) [a ..< b]"
    by (induction b) (auto simp: le_Suc_eq)
  then show ?thesis by (simp add: cnt_def filter_map o_def)
qed

lemma cnt_pos_iff: "0 < cnt P a b \<longleftrightarrow> (\<exists>i. a \<le> i \<and> i < b \<and> P i)"
  by (auto simp: cnt_def filter_empty_conv)

lemma cnt_zero_iff: "cnt P a b = 0 \<longleftrightarrow> (\<forall>i. a \<le> i \<and> i < b \<longrightarrow> \<not> P i)"
  by (auto simp: cnt_def filter_empty_conv)

definition scan_cps :: "(nat \<Rightarrow> nilfs_checkpoint) \<Rightarrow> nat \<Rightarrow> nat \<Rightarrow> nat \<Rightarrow> nilfs_checkpoint" where
  "scan_cps cps s k =
     (\<lambda>j. if s \<le> j \<and> j < s + k \<and> plain_cp (cps j)
          then nilfs_checkpoint_set_invalid (cps j) else cps j)"

lemma set_invalid_flags [simp]:
  "nilfs_checkpoint_invalid (nilfs_checkpoint_set_invalid cp)"
  "nilfs_checkpoint_snapshot (nilfs_checkpoint_set_invalid cp) = nilfs_checkpoint_snapshot cp"
  by (simp_all add: nilfs_checkpoint_set_invalid_def flag_defs bit_set_bit_iff)

lemma del_scan_closed:
  "del_scan cps s k ni ns =
     (scan_cps cps s k,
      ni + cnt (\<lambda>j. plain_cp (cps j)) s (s + k),
      ns + cnt (\<lambda>j. nilfs_checkpoint_snapshot (cps j)) s (s + k))"
proof (induction k arbitrary: cps s ni ns)
  case 0
  show ?case by (auto simp: scan_cps_def fun_eq_iff)
next
  case (Suc k)
  let ?cps1 = "cps(s := nilfs_checkpoint_set_invalid (cps s))"
  have st: "cnt P s (Suc (s + k)) = (if P s then 1 else 0) + cnt P (Suc s) (Suc (s + k))" for P
    using cnt_step[of s "s + Suc k" P] by simp
  have a: "cnt (\<lambda>j. plain_cp (?cps1 j)) (Suc s) (Suc s + k) = cnt (\<lambda>j. plain_cp (cps j)) (Suc s) (Suc s + k)"
    by (rule cnt_cong) simp
  have b: "cnt (\<lambda>j. nilfs_checkpoint_snapshot (?cps1 j)) (Suc s) (Suc s + k)
           = cnt (\<lambda>j. nilfs_checkpoint_snapshot (cps j)) (Suc s) (Suc s + k)"
    by (rule cnt_cong) simp
  have c: "scan_cps ?cps1 (Suc s) k = scan_cps cps s (Suc k)" if "plain_cp (cps s)"
    using that by (auto simp: scan_cps_def fun_eq_iff)
  have d: "scan_cps cps (Suc s) k = scan_cps cps s (Suc k)" if "\<not> plain_cp (cps s)"
    using that by (auto simp: scan_cps_def fun_eq_iff le_Suc_eq Suc_le_eq)
  consider (snap) "nilfs_checkpoint_snapshot (cps s)"
    | (plain) "\<not> nilfs_checkpoint_snapshot (cps s)" "\<not> nilfs_checkpoint_invalid (cps s)"
    | (inval) "\<not> nilfs_checkpoint_snapshot (cps s)" "nilfs_checkpoint_invalid (cps s)"
    by blast
  then show ?case
  proof cases
    case snap
    then have np: "\<not> plain_cp (cps s)" by (simp add: plain_cp_def)
    show ?thesis
      using snap np by (simp add: Suc.IH st[of "\<lambda>j. plain_cp (cps j)"]
          st[of "\<lambda>j. nilfs_checkpoint_snapshot (cps j)"] d)
  next
    case plain
    then have pp: "plain_cp (cps s)" by (simp add: plain_cp_def)
    have "del_scan cps s (Suc k) ni ns =
            (scan_cps ?cps1 (Suc s) k,
             Suc ni + cnt (\<lambda>j. plain_cp (?cps1 j)) (Suc s) (Suc s + k),
             ns + cnt (\<lambda>j. nilfs_checkpoint_snapshot (?cps1 j)) (Suc s) (Suc s + k))"
      using plain by (simp add: Suc.IH del: fun_upd_apply)
    also have "\<dots> =
            (scan_cps cps s (Suc k),
             Suc ni + cnt (\<lambda>j. plain_cp (cps j)) (Suc s) (Suc s + k),
             ns + cnt (\<lambda>j. nilfs_checkpoint_snapshot (cps j)) (Suc s) (Suc s + k))"
      by (simp only: a b c[OF pp])
    also have "\<dots> =
            (scan_cps cps s (Suc k),
             ni + cnt (\<lambda>j. plain_cp (cps j)) s (s + Suc k),
             ns + cnt (\<lambda>j. nilfs_checkpoint_snapshot (cps j)) s (s + Suc k))"
      using plain pp by (simp add: st[of "\<lambda>j. plain_cp (cps j)"]
          st[of "\<lambda>j. nilfs_checkpoint_snapshot (cps j)"])
    finally show ?thesis .
  next
    case inval
    then have np: "\<not> plain_cp (cps s)" by (simp add: plain_cp_def)
    show ?thesis
      using inval np by (simp add: Suc.IH st[of "\<lambda>j. plain_cp (cps j)"]
          st[of "\<lambda>j. nilfs_checkpoint_snapshot (cps j)"] d)
  qed
qed

lemma geometry_simps:
  assumes "geometry_ok st"
  shows "nilfs_cpfile_get_blkoff st c = unat c div mi_entries_per_block st"
    and "nilfs_cpfile_get_offset st c = unat c mod mi_entries_per_block st"
    and "nilfs_cpfile_checkpoints_per_block st = mi_entries_per_block st"
    and "nilfs_cpfile_is_in_first st c = (unat c div mi_entries_per_block st = 0)"
    and "0 < mi_entries_per_block st"
  using assms by (simp_all add: geometry_ok_def layout_defs)

text \<open>The slots of one block that a stretch of checkpoint numbers occupies.\<close>

lemma chunk_slots:
  fixes u v E k :: nat
  assumes "0 < E" "k \<le> E - u mod E"
  shows "(u \<le> v \<and> v < u + k) \<longleftrightarrow>
         (v div E = u div E \<and> u mod E \<le> v mod E \<and> v mod E < u mod E + k)"
proof
  assume a: "u \<le> v \<and> v < u + k"
  define d where "d = v - u"
  define m where "m = u mod E"
  have gen: "(E * q + r) div E = q \<and> (E * q + r) mod E = r" if "r < E" for q r
    using that assms(1) by simp
  have "u = E * (u div E) + m" by (simp add: m_def)
  then have v: "v = E * (u div E) + (m + d)" using a unfolding d_def by linarith
  have mE: "m < E" using assms(1) by (simp add: m_def)
  have lt: "m + d < E" using a assms(2) mE unfolding d_def m_def[symmetric] by linarith
  from gen[OF lt, of "u div E"] have r: "v div E = u div E" "v mod E = m + d"
    unfolding v[symmetric] by simp_all
  have "m \<le> m + d" "m + d < m + k" using a unfolding d_def by linarith+
  then show "v div E = u div E \<and> u mod E \<le> v mod E \<and> v mod E < u mod E + k"
    using r unfolding m_def by simp
next
  assume a: "v div E = u div E \<and> u mod E \<le> v mod E \<and> v mod E < u mod E + k"
  define q where "q = E * (u div E)"
  have "v = E * (v div E) + v mod E" by simp
  then have v: "v = q + v mod E" using a unfolding q_def by simp
  have u: "u = q + u mod E" unfolding q_def by simp
  show "u \<le> v \<and> v < u + k" using a u v by linarith
qed

text \<open>What one round of the loop does to an existing block \<open>blk\<close> at offset \<open>b\<close>, when
  neither the fetch nor the deletion fails: the block that is left, if any.\<close>

definition del_block :: "nat \<Rightarrow> cp_block \<Rightarrow> nat \<Rightarrow> nat \<Rightarrow> cp_block option" where
  "del_block b blk off k =
     (let cps' = scan_cps (b_cps blk) off k;
          ni = cnt (\<lambda>j. plain_cp (b_cps blk j)) off (off + k)
      in if ni = 0 \<or> b = 0 then Some (blk\<lparr>b_cps := cps'\<rparr>)
         else
           let count = cp_checkpoints_count (cps' 0) - of_nat ni
           in if count \<noteq> 0
              then Some (blk\<lparr>b_cps := cps'(0 := (cps' 0)\<lparr>cp_checkpoints_count := count\<rparr>)\<rparr>)
              else None)"

definition del_step :: "cpfile \<Rightarrow> u64 \<Rightarrow> u64 \<Rightarrow> cpfile" where
  "del_step st cno end_cno =
     (let b = nilfs_cpfile_get_blkoff st cno;
          off = nilfs_cpfile_get_offset st cno;
          k = nilfs_cpfile_checkpoints_in_block st cno end_cno
      in case mi_blocks st b of
           None \<Rightarrow> st
         | Some blk \<Rightarrow>
             let st1 = st\<lparr>mi_blocks := (mi_blocks st)(b := del_block b blk off k)\<rparr>
             in if cnt (\<lambda>j. plain_cp (b_cps blk j)) off (off + k) = 0 then st1
                else nilfs_mdt_mark_dirty (mark_buffer_dirty st1 b))"

definition del_ni :: "cpfile \<Rightarrow> u64 \<Rightarrow> u64 \<Rightarrow> nat" where
  "del_ni st cno end_cno =
     (let off = nilfs_cpfile_get_offset st cno;
          k = nilfs_cpfile_checkpoints_in_block st cno end_cno
      in case mi_blocks st (nilfs_cpfile_get_blkoff st cno) of
           None \<Rightarrow> 0
         | Some blk \<Rightarrow> cnt (\<lambda>j. plain_cp (b_cps blk j)) off (off + k))"

definition del_ns :: "cpfile \<Rightarrow> u64 \<Rightarrow> u64 \<Rightarrow> nat" where
  "del_ns st cno end_cno =
     (let off = nilfs_cpfile_get_offset st cno;
          k = nilfs_cpfile_checkpoints_in_block st cno end_cno
      in case mi_blocks st (nilfs_cpfile_get_blkoff st cno) of
           None \<Rightarrow> 0
         | Some blk \<Rightarrow> cnt (\<lambda>j. nilfs_checkpoint_snapshot (b_cps blk j)) off (off + k))"

lemma del_loop_step:
  assumes geo: "geometry_ok st" and lt: "cno < end_cno"
    and nf: "mi_get_fault st (nilfs_cpfile_get_blkoff st cno) = None"
    and nd: "mi_delete_fault st (nilfs_cpfile_get_blkoff st cno) = None"
  shows "del_loop st cno end_cno tn ns =
           del_loop (del_step st cno end_cno)
             (cno + of_nat (nilfs_cpfile_checkpoints_in_block st cno end_cno)) end_cno
             (tn + del_ni st cno end_cno) (ns + del_ns st cno end_cno)"
proof (cases "mi_blocks st (nilfs_cpfile_get_blkoff st cno)")
  case None
  have g: "nilfs_cpfile_get_checkpoint_block st cno False = (Inl ENOENT, st)"
    using nf None by (simp add: nilfs_cpfile_get_checkpoint_block_def get_block_hole)
  show ?thesis
    apply (subst del_loop.simps)
    using lt geo None
    apply (simp add: g geometry_simps del_step_def del_ni_def del_ns_def Let_def)
    done
next
  case (Some blk)
  define b where "b = nilfs_cpfile_get_blkoff st cno"
  define off where "off = nilfs_cpfile_get_offset st cno"
  define k where "k = nilfs_cpfile_checkpoints_in_block st cno end_cno"
  define ni where "ni = cnt (\<lambda>j. plain_cp (b_cps blk j)) off (off + k)"
  define nsd where "nsd = cnt (\<lambda>j. nilfs_checkpoint_snapshot (b_cps blk j)) off (off + k)"
  define cps' where "cps' = scan_cps (b_cps blk) off k"
  define st2 where "st2 = st\<lparr>mi_blocks := (mi_blocks st)(b \<mapsto> blk\<lparr>b_cps := cps'\<rparr>)\<rparr>"
  define count where "count = cp_checkpoints_count (cps' 0) - of_nat ni"
  define st4 where "st4 = nilfs_mdt_mark_dirty (mark_buffer_dirty
              (st\<lparr>mi_blocks := (mi_blocks st)(b \<mapsto>
                    blk\<lparr>b_cps := cps'(0 := (cps' 0)\<lparr>cp_checkpoints_count := count\<rparr>)\<rparr>)\<rparr>) b)"
  have blk: "mi_blocks st b = Some blk" using Some by (simp add: b_def)
  have nfb: "mi_get_fault st b = None" and ndb: "mi_delete_fault st b = None"
    using nf nd by (simp_all add: b_def)
  have g: "nilfs_cpfile_get_checkpoint_block st cno False = (Inr b, st)"
    using nfb blk by (simp add: nilfs_cpfile_get_checkpoint_block_def get_block_present b_def)
  have d: "bh_data st b = blk" using blk by (simp add: bh_data_def)
  have scan: "del_scan (b_cps blk) off k 0 ns = (cps', ni, ns + nsd)"
    by (simp add: del_scan_closed cps'_def ni_def nsd_def)
  have upd: "bh_update st b (\<lambda>b. b\<lparr>b_cps := cps'\<rparr>) = st2"
    using blk by (simp add: bh_update_def st2_def)
  have first: "nilfs_cpfile_is_in_first st2 cno = (b = 0)"
      "nilfs_cpfile_is_in_first (nilfs_mdt_mark_dirty (mark_buffer_dirty st2 b)) cno = (b = 0)"
    by (simp_all add: st2_def nilfs_cpfile_is_in_first_def b_def)
  have sub: "nilfs_cpfile_block_sub_valid_checkpoints
               (nilfs_mdt_mark_dirty (mark_buffer_dirty st2 b)) b (of_nat ni) = (count, st4)"
    by (simp add: nilfs_cpfile_block_sub_valid_checkpoints_def Let_def bh_data_def st2_def
        count_def st4_def cp_write_def bh_update_def mark_buffer_dirty_def
        nilfs_mdt_mark_dirty_def)
  have del: "nilfs_cpfile_delete_checkpoint_block st4 cno =
              (Inr (), st4\<lparr>mi_blocks := (mi_blocks st4)(b := None)\<rparr>)"
  proof -
    have bl: "nilfs_cpfile_get_blkoff st4 cno = b" by (simp add: st4_def b_def)
    have fl: "mi_delete_fault st4 b = None" using ndb by (simp add: st4_def)
    show ?thesis
      by (simp add: nilfs_cpfile_delete_checkpoint_block_def nilfs_mdt_delete_block_def bl fl)
  qed
  have lhs: "del_loop st cno end_cno tn ns =
      (if ni = 0 then del_loop st2 (cno + of_nat k) end_cno tn (ns + nsd)
       else if b = 0
       then del_loop (nilfs_mdt_mark_dirty (mark_buffer_dirty st2 b)) (cno + of_nat k) end_cno
              (tn + ni) (ns + nsd)
       else if count \<noteq> 0 then del_loop st4 (cno + of_nat k) end_cno (tn + ni) (ns + nsd)
       else del_loop (st4\<lparr>mi_blocks := (mi_blocks st4)(b := None)\<rparr>) (cno + of_nat k) end_cno
              (tn + ni) (ns + nsd))"
    apply (subst del_loop.simps)
    using lt geo
    apply (simp add: g geometry_simps(3,5) Let_def d
        off_def[symmetric] k_def[symmetric] scan upd first sub del)
    done
  have rhs_st: "del_step st cno end_cno =
      (if ni = 0 then st2
       else if b = 0 then nilfs_mdt_mark_dirty (mark_buffer_dirty st2 b)
       else if count \<noteq> 0 then st4
       else st4\<lparr>mi_blocks := (mi_blocks st4)(b := None)\<rparr>)"
    using blk
    by (simp add: del_step_def Let_def b_def[symmetric] off_def[symmetric] k_def[symmetric]
        ni_def[symmetric] del_block_def cps'_def[symmetric] count_def[symmetric] st2_def st4_def
        mark_buffer_dirty_def nilfs_mdt_mark_dirty_def)
  have rhs_ni: "del_ni st cno end_cno = ni" and rhs_ns: "del_ns st cno end_cno = nsd"
    using blk
    by (simp_all add: del_ni_def del_ns_def Let_def b_def[symmetric] off_def[symmetric]
        k_def[symmetric] ni_def nsd_def)
  show ?thesis
    unfolding lhs rhs_st rhs_ni rhs_ns k_def[symmetric] by simp
qed

text \<open>Validity of the entry of a checkpoint number, and the per-block census.\<close>

definition entry_valid :: "cpfile \<Rightarrow> u64 \<Rightarrow> bool" where
  "entry_valid st c =
     (case cp_entry st c of None \<Rightarrow> False | Some cp \<Rightarrow> \<not> nilfs_checkpoint_invalid cp)"

definition plain_valid :: "cpfile \<Rightarrow> u64 \<Rightarrow> bool" where
  "plain_valid st c = (case cp_entry st c of None \<Rightarrow> False | Some cp \<Rightarrow> plain_cp cp)"

definition valid_snapshot :: "cpfile \<Rightarrow> u64 \<Rightarrow> bool" where
  "valid_snapshot st c =
     (case cp_entry st c of
        None \<Rightarrow> False
      | Some cp \<Rightarrow> \<not> nilfs_checkpoint_invalid cp \<and> nilfs_checkpoint_snapshot cp)"

text \<open>Two entries that differ at most in the census word (which belongs to the block, not
  to the checkpoint).\<close>

definition same_entry :: "nilfs_checkpoint \<Rightarrow> nilfs_checkpoint \<Rightarrow> bool" where
  "same_entry cp cp' = (cp'\<lparr>cp_checkpoints_count := cp_checkpoints_count cp\<rparr> = cp)"

definition valid_count :: "nat \<Rightarrow> cp_block \<Rightarrow> nat" where
  "valid_count E blk = cnt (\<lambda>j. \<not> nilfs_checkpoint_invalid (b_cps blk j)) 0 E"

text \<open>Invariant 1 of the data model: in every block but block 0 the census of the first
  slot is the number of valid entries of the block.  Invariant 5: no such block is
  without a valid entry.\<close>

definition census_ok :: "cpfile \<Rightarrow> bool" where
  "census_ok st =
     (\<forall>b blk. b \<noteq> 0 \<longrightarrow> mi_blocks st b = Some blk \<longrightarrow>
        unat (cp_checkpoints_count (b_cps blk 0)) = valid_count (mi_entries_per_block st) blk)"

definition blocks_nonempty :: "cpfile \<Rightarrow> bool" where
  "blocks_nonempty st =
     (\<forall>b blk. b \<noteq> 0 \<longrightarrow> mi_blocks st b = Some blk \<longrightarrow>
        0 < valid_count (mi_entries_per_block st) blk)"

lemma same_entry_refl [simp]: "same_entry cp cp"
  by (simp add: same_entry_def)

lemma same_entry_trans: "same_entry a b \<Longrightarrow> same_entry b c \<Longrightarrow> same_entry a c"
  unfolding same_entry_def
  by (metis nilfs_checkpoint.surjective nilfs_checkpoint.update_convs(2)
      nilfs_checkpoint.select_convs(2))

lemma same_entry_count [simp]: "same_entry cp (cp\<lparr>cp_checkpoints_count := n\<rparr>)"
  by (simp add: same_entry_def)

lemma same_entry_flags:
  "same_entry cp cp' \<Longrightarrow> cp_flags cp' = cp_flags cp"
  unfolding same_entry_def by (metis nilfs_checkpoint.select_convs(1) nilfs_checkpoint.surjective
      nilfs_checkpoint.update_convs(2))

lemma scan_cps_other:
  "\<not> (off \<le> j \<and> j < off + k \<and> plain_cp (cps j)) \<Longrightarrow> scan_cps cps off k j = cps j"
  by (auto simp: scan_cps_def)

lemma scan_cps_plain:
  "off \<le> j \<Longrightarrow> j < off + k \<Longrightarrow> plain_cp (cps j)
     \<Longrightarrow> scan_cps cps off k j = nilfs_checkpoint_set_invalid (cps j)"
  by (simp add: scan_cps_def)

lemma scan_cps_invalid:
  "nilfs_checkpoint_invalid (scan_cps cps off k j) \<longleftrightarrow>
     nilfs_checkpoint_invalid (cps j) \<or> (off \<le> j \<and> j < off + k \<and> plain_cp (cps j))"
  by (auto simp: scan_cps_def plain_cp_def)

lemma del_block_slot:
  assumes "del_block b blk off k = Some blk'"
  shows "same_entry (scan_cps (b_cps blk) off k j) (b_cps blk' j)"
    and "b_header blk' = b_header blk"
  using assms
  by (auto simp: del_block_def Let_def split: if_splits)

lemma del_block_first:
  "del_block 0 blk off k = Some (blk\<lparr>b_cps := scan_cps (b_cps blk) off k\<rparr>)"
  by (simp add: del_block_def Let_def)

lemma invalid_same_entry:
  "same_entry cp cp' \<Longrightarrow> nilfs_checkpoint_invalid cp' = nilfs_checkpoint_invalid cp"
  "same_entry cp cp' \<Longrightarrow> nilfs_checkpoint_snapshot cp' = nilfs_checkpoint_snapshot cp"
  by (simp_all add: flag_defs same_entry_flags)

text \<open>An entry in slot \<open>j\<close> of its block that is kept: it is the same entry, and outside
  the first slot, where the census lives, it is the same record.\<close>

definition kept_entry :: "nat \<Rightarrow> nilfs_checkpoint \<Rightarrow> nilfs_checkpoint \<Rightarrow> bool" where
  "kept_entry j cp cp' = (same_entry cp cp' \<and> (j \<noteq> 0 \<longrightarrow> cp' = cp))"

lemma kept_entry_refl [simp]: "kept_entry j cp cp"
  by (simp add: kept_entry_def)

lemma kept_entry_trans: "kept_entry j a b \<Longrightarrow> kept_entry j b c \<Longrightarrow> kept_entry j a c"
  unfolding kept_entry_def using same_entry_trans by blast

lemma kept_entry_same: "kept_entry j cp cp' \<Longrightarrow> same_entry cp cp'"
  by (simp add: kept_entry_def)

lemma del_block_kept:
  assumes "del_block b blk off k = Some blk'"
  shows "kept_entry j (scan_cps (b_cps blk) off k j) (b_cps blk' j)"
  using assms
  by (auto simp: del_block_def Let_def kept_entry_def split: if_splits)

lemma cnt_split_pred:
  "cnt (\<lambda>j. P j) a b = cnt (\<lambda>j. P j \<and> Q j) a b + cnt (\<lambda>j. P j \<and> \<not> Q j) a b"
proof -
  have "length (filter P xs) =
        length (filter (\<lambda>j. P j \<and> Q j) xs) + length (filter (\<lambda>j. P j \<and> \<not> Q j) xs)"
    for xs :: "nat list"
    by (induction xs) auto
  then show ?thesis unfolding cnt_def .
qed

text \<open>The number of valid entries a round leaves in the block.\<close>

lemma valid_count_scan:
  assumes "off + k \<le> E"
  shows "cnt (\<lambda>j. \<not> nilfs_checkpoint_invalid (scan_cps cps off k j)) 0 E + 
         cnt (\<lambda>j. plain_cp (cps j)) off (off + k)
         = cnt (\<lambda>j. \<not> nilfs_checkpoint_invalid (cps j)) 0 E"
proof -
  let ?V = "\<lambda>j. \<not> nilfs_checkpoint_invalid (cps j)"
  let ?V' = "\<lambda>j. \<not> nilfs_checkpoint_invalid (scan_cps cps off k j)"
  have s: "cnt P 0 E = cnt P 0 off + cnt P off (off + k) + cnt P (off + k) E" for P
    using assms cnt_append[of 0 off E P] cnt_append[of off "off + k" E P] by simp
  have a: "cnt ?V' 0 off = cnt ?V 0 off"
    by (rule cnt_cong) (simp add: scan_cps_invalid)
  have b: "cnt ?V' (off + k) E = cnt ?V (off + k) E"
    by (rule cnt_cong) (simp add: scan_cps_invalid)
  have c: "cnt ?V' off (off + k) = cnt (\<lambda>j. ?V j \<and> \<not> plain_cp (cps j)) off (off + k)"
    by (rule cnt_cong) (auto simp: scan_cps_invalid)
  have d: "cnt (\<lambda>j. ?V j \<and> plain_cp (cps j)) off (off + k) = cnt (\<lambda>j. plain_cp (cps j)) off (off + k)"
    by (rule cnt_cong) (auto simp: plain_cp_def)
  have e: "cnt ?V off (off + k) =
           cnt (\<lambda>j. plain_cp (cps j)) off (off + k) +
           cnt (\<lambda>j. ?V j \<and> \<not> plain_cp (cps j)) off (off + k)"
    using cnt_split_pred[of ?V off "off + k" "\<lambda>j. plain_cp (cps j)"] d by simp
  show ?thesis
    using s[of ?V] s[of ?V'] a b c e by simp
qed

lemma valid_count_same:
  assumes "\<And>j. same_entry (cps j) (cps' j)"
  shows "cnt (\<lambda>j. \<not> nilfs_checkpoint_invalid (cps' j)) 0 E
         = cnt (\<lambda>j. \<not> nilfs_checkpoint_invalid (cps j)) 0 E"
  by (rule cnt_cong) (simp add: invalid_same_entry(1)[OF assms])

lemma del_block_census:
  assumes b0: "b \<noteq> 0" and rng: "off + k \<le> E"
    and cen: "unat (cp_checkpoints_count (b_cps blk 0)) = valid_count E blk"
  shows "case del_block b blk off k of
           None \<Rightarrow> True
         | Some blk' \<Rightarrow>
             unat (cp_checkpoints_count (b_cps blk' 0)) = valid_count E blk' \<and>
             (0 < cnt (\<lambda>j. plain_cp (b_cps blk j)) off (off + k) \<longrightarrow> 0 < valid_count E blk') \<and>
             (0 < valid_count E blk \<longrightarrow> 0 < valid_count E blk')"
    and "del_block b blk off k = None \<Longrightarrow>
           valid_count E blk = cnt (\<lambda>j. plain_cp (b_cps blk j)) off (off + k)"
proof -
  define ni where "ni = cnt (\<lambda>j. plain_cp (b_cps blk j)) off (off + k)"
  define cps' where "cps' = scan_cps (b_cps blk) off k"
  define count where "count = cp_checkpoints_count (cps' 0) - of_nat ni"
  have vs: "cnt (\<lambda>j. \<not> nilfs_checkpoint_invalid (cps' j)) 0 E + ni = valid_count E blk"
    unfolding cps'_def ni_def valid_count_def by (rule valid_count_scan[OF rng])
  have c0: "cp_checkpoints_count (cps' 0) = cp_checkpoints_count (b_cps blk 0)"
    by (simp add: cps'_def scan_cps_def nilfs_checkpoint_set_invalid_def)
  have le: "ni \<le> unat (cp_checkpoints_count (b_cps blk 0))" using vs cen by simp
  have uni: "unat (of_nat ni :: u32) = ni" by (rule le_unat_uoi[OF le])
  have ucount: "unat count = valid_count E blk - ni"
  proof -
    have "(of_nat ni :: u32) \<le> cp_checkpoints_count (b_cps blk 0)"
      using le uni by (simp add: word_le_nat_alt)
    then show ?thesis
      unfolding count_def c0 using uni cen by (simp add: unat_sub)
  qed
  have db: "del_block b blk off k =
      (if ni = 0 then Some (blk\<lparr>b_cps := cps'\<rparr>)
       else if count \<noteq> 0
       then Some (blk\<lparr>b_cps := cps'(0 := (cps' 0)\<lparr>cp_checkpoints_count := count\<rparr>)\<rparr>)
       else None)"
    using b0 by (simp add: del_block_def Let_def ni_def cps'_def count_def)
  have vc1: "valid_count E (blk\<lparr>b_cps := cps'\<rparr>) = valid_count E blk - ni"
    using vs by (simp add: valid_count_def)
  have vc2: "valid_count E (blk\<lparr>b_cps := cps'(0 := (cps' 0)\<lparr>cp_checkpoints_count := count\<rparr>)\<rparr>)
               = valid_count E blk - ni"
  proof -
    have "cnt (\<lambda>j. \<not> nilfs_checkpoint_invalid
                 ((cps'(0 := (cps' 0)\<lparr>cp_checkpoints_count := count\<rparr>)) j)) 0 E =
          cnt (\<lambda>j. \<not> nilfs_checkpoint_invalid (cps' j)) 0 E"
      by (rule valid_count_same) simp
    then show ?thesis using vs by (simp add: valid_count_def)
  qed
  have cz: "count = 0 \<longleftrightarrow> valid_count E blk - ni = 0"
    using ucount by (metis unat_eq_0)
  show "case del_block b blk off k of
           None \<Rightarrow> True
         | Some blk' \<Rightarrow>
             unat (cp_checkpoints_count (b_cps blk' 0)) = valid_count E blk' \<and>
             (0 < cnt (\<lambda>j. plain_cp (b_cps blk j)) off (off + k) \<longrightarrow> 0 < valid_count E blk') \<and>
             (0 < valid_count E blk \<longrightarrow> 0 < valid_count E blk')"
    unfolding db ni_def[symmetric]
    using cen c0 ucount cz by (auto simp: vc1 vc2)
  show "valid_count E blk = ni" if "del_block b blk off k = None"
    using that cz vs unfolding db by (auto split: if_splits)
qed

text \<open>One round of the loop, seen through the entries.\<close>

lemma del_step_fields [simp]:
  "mi_entries_per_block (del_step st cno e) = mi_entries_per_block st"
  "mi_first_entry_offset (del_step st cno e) = mi_first_entry_offset st"
  "mi_get_fault (del_step st cno e) = mi_get_fault st"
  "mi_delete_fault (del_step st cno e) = mi_delete_fault st"
  by (simp_all add: del_step_def Let_def split: option.splits)

lemma del_step_layout [simp]:
  "nilfs_cpfile_get_blkoff (del_step st cno e) = nilfs_cpfile_get_blkoff st"
  "nilfs_cpfile_get_offset (del_step st cno e) = nilfs_cpfile_get_offset st"
  "geometry_ok (del_step st cno e) = geometry_ok st"
  by (rule layout_cong; simp)+

lemma del_step_blocks:
  "mi_blocks (del_step st cno e) b' =
     (if b' = nilfs_cpfile_get_blkoff st cno
      then (case mi_blocks st b' of
              None \<Rightarrow> None
            | Some blk \<Rightarrow> del_block b' blk (nilfs_cpfile_get_offset st cno)
                           (nilfs_cpfile_checkpoints_in_block st cno e))
      else mi_blocks st b')"
  by (simp add: del_step_def Let_def split: option.splits)

lemma del_step_entry_other:
  "nilfs_cpfile_get_blkoff st c \<noteq> nilfs_cpfile_get_blkoff st cno
     \<Longrightarrow> cp_entry (del_step st cno e) c = cp_entry st c"
  by (simp add: cp_entry_def del_step_blocks)

lemma del_step_entry_same:
  "nilfs_cpfile_get_blkoff st c = nilfs_cpfile_get_blkoff st cno
     \<Longrightarrow> cp_entry (del_step st cno e) c =
         (case mi_blocks st (nilfs_cpfile_get_blkoff st cno) of
            None \<Rightarrow> None
          | Some blk \<Rightarrow>
              map_option (\<lambda>blk'. b_cps blk' (nilfs_cpfile_get_offset st c))
                (del_block (nilfs_cpfile_get_blkoff st cno) blk (nilfs_cpfile_get_offset st cno)
                   (nilfs_cpfile_checkpoints_in_block st cno e)))"
  by (simp add: cp_entry_def del_step_blocks split: option.splits)

lemma in_block_range:
  assumes "geometry_ok st"
  shows "nilfs_cpfile_get_offset st cno + nilfs_cpfile_checkpoints_in_block st cno e
           \<le> mi_entries_per_block st"
proof -
  have "unat cno mod mi_entries_per_block st < mi_entries_per_block st"
    using geometry_simps(5)[OF assms] by simp
  moreover have "nilfs_cpfile_checkpoints_in_block st cno e \<le>
      mi_entries_per_block st - unat cno mod mi_entries_per_block st"
    by (simp add: nilfs_cpfile_checkpoints_in_block_def geometry_simps[OF assms])
  ultimately show ?thesis
    unfolding geometry_simps(2)[OF assms] by linarith
qed

lemma chunk_place:
  assumes geo: "geometry_ok st"
    and c: "unat cno \<le> unat c" "unat c < unat cno + nilfs_cpfile_checkpoints_in_block st cno e"
  shows "nilfs_cpfile_get_blkoff st c = nilfs_cpfile_get_blkoff st cno"
    and "nilfs_cpfile_get_offset st cno \<le> nilfs_cpfile_get_offset st c"
    and "nilfs_cpfile_get_offset st c <
           nilfs_cpfile_get_offset st cno + nilfs_cpfile_checkpoints_in_block st cno e"
proof -
  let ?E = "mi_entries_per_block st"
  let ?k = "nilfs_cpfile_checkpoints_in_block st cno e"
  have k: "?k \<le> ?E - unat cno mod ?E"
    by (simp add: nilfs_cpfile_checkpoints_in_block_def geometry_simps[OF geo])
  from chunk_slots[OF geometry_simps(5)[OF geo] k, of "unat c"] c
  show "nilfs_cpfile_get_blkoff st c = nilfs_cpfile_get_blkoff st cno"
    and "nilfs_cpfile_get_offset st cno \<le> nilfs_cpfile_get_offset st c"
    and "nilfs_cpfile_get_offset st c <
           nilfs_cpfile_get_offset st cno + nilfs_cpfile_checkpoints_in_block st cno e"
    by (simp_all add: geometry_simps[OF geo])
qed

lemma del_step_valid_mono:
  assumes "entry_valid (del_step st cno e) c"
  shows "entry_valid st c"
proof (cases "nilfs_cpfile_get_blkoff st c = nilfs_cpfile_get_blkoff st cno")
  case False
  then show ?thesis using assms by (simp add: entry_valid_def del_step_entry_other)
next
  case True
  from assms obtain blk blk' where
    blk: "mi_blocks st (nilfs_cpfile_get_blkoff st cno) = Some blk"
    and d: "del_block (nilfs_cpfile_get_blkoff st cno) blk (nilfs_cpfile_get_offset st cno)
                   (nilfs_cpfile_checkpoints_in_block st cno e) = Some blk'"
    and v: "\<not> nilfs_checkpoint_invalid (b_cps blk' (nilfs_cpfile_get_offset st c))"
    by (auto simp: entry_valid_def del_step_entry_same[OF True] split: option.splits)
  from del_block_slot(1)[OF d, of "nilfs_cpfile_get_offset st c"] v
  have "\<not> nilfs_checkpoint_invalid (b_cps blk (nilfs_cpfile_get_offset st c))"
    by (auto simp: invalid_same_entry scan_cps_invalid)
  then show ?thesis using blk True by (simp add: entry_valid_def cp_entry_def)
qed

lemma del_step_deletes:
  assumes geo: "geometry_ok st"
    and c: "unat cno \<le> unat c" "unat c < unat cno + nilfs_cpfile_checkpoints_in_block st cno e"
    and p: "plain_valid st c"
  shows "\<not> entry_valid (del_step st cno e) c"
proof -
  note pl = chunk_place[OF geo c]
  from p obtain blk where
    blk: "mi_blocks st (nilfs_cpfile_get_blkoff st cno) = Some blk"
    and pc: "plain_cp (b_cps blk (nilfs_cpfile_get_offset st c))"
    by (auto simp: plain_valid_def cp_entry_def pl(1) split: option.splits)
  show ?thesis
  proof (cases "del_block (nilfs_cpfile_get_blkoff st cno) blk (nilfs_cpfile_get_offset st cno)
                   (nilfs_cpfile_checkpoints_in_block st cno e)")
    case None
    then show ?thesis using blk by (simp add: entry_valid_def del_step_entry_same[OF pl(1)])
  next
    case (Some blk')
    from del_block_slot(1)[OF Some, of "nilfs_cpfile_get_offset st c"]
    have "nilfs_checkpoint_invalid (b_cps blk' (nilfs_cpfile_get_offset st c))"
      using pc pl(2,3) by (simp add: invalid_same_entry scan_cps_invalid)
    then show ?thesis using blk Some
      by (simp add: entry_valid_def del_step_entry_same[OF pl(1)])
  qed
qed

lemma del_step_keeps_snapshot:
  assumes geo: "geometry_ok st" and cen: "census_ok st"
    and ent: "cp_entry st c = Some cp"
    and v: "\<not> nilfs_checkpoint_invalid cp" "nilfs_checkpoint_snapshot cp"
  shows "\<exists>cp'. cp_entry (del_step st cno e) c = Some cp' \<and>
               kept_entry (nilfs_cpfile_get_offset st c) cp cp'"
proof (cases "nilfs_cpfile_get_blkoff st c = nilfs_cpfile_get_blkoff st cno")
  case False
  then show ?thesis using ent by (simp add: del_step_entry_other)
next
  case True
  let ?b = "nilfs_cpfile_get_blkoff st cno" and ?off = "nilfs_cpfile_get_offset st cno"
  let ?k = "nilfs_cpfile_checkpoints_in_block st cno e" and ?E = "mi_entries_per_block st"
  let ?j = "nilfs_cpfile_get_offset st c"
  from ent True obtain blk where blk: "mi_blocks st ?b = Some blk" and cp: "b_cps blk ?j = cp"
    by (auto simp: cp_entry_def)
  have np: "\<not> plain_cp (b_cps blk ?j)" using v cp by (simp add: plain_cp_def)
  have sc: "scan_cps (b_cps blk) ?off ?k ?j = cp" using np cp by (simp add: scan_cps_other)
  have jE: "?j < ?E" using geo by (simp add: geometry_simps[OF geo])
  have ex: "del_block ?b blk ?off ?k \<noteq> None"
  proof (cases "?b = 0")
    case True
    then show ?thesis by (simp add: del_block_first)
  next
    case False
    have c1: "unat (cp_checkpoints_count (b_cps blk 0)) = valid_count ?E blk"
      using cen False blk by (simp add: census_ok_def)
    show ?thesis
    proof
      assume n: "del_block ?b blk ?off ?k = None"
      from del_block_census(2)[OF False in_block_range[OF geo] c1 n]
      have eq: "valid_count ?E blk = cnt (\<lambda>j. plain_cp (b_cps blk j)) ?off (?off + ?k)" .
      have "0 < cnt (\<lambda>j. \<not> nilfs_checkpoint_invalid (scan_cps (b_cps blk) ?off ?k j)) 0 ?E"
        unfolding cnt_pos_iff using jE sc v by (intro exI[of _ ?j]) simp
      then show False
        using valid_count_scan[OF in_block_range[OF geo], of "b_cps blk" cno e] eq
        by (simp add: valid_count_def)
    qed
  qed
  then obtain blk' where d: "del_block ?b blk ?off ?k = Some blk'" by auto
  from del_block_kept[OF d, of ?j] have "kept_entry ?j cp (b_cps blk' ?j)" by (simp add: sc)
  then show ?thesis using blk d by (simp add: del_step_entry_same[OF True])
qed

lemma del_step_header:
  "cp_header (del_step st cno e) = cp_header st"
proof (cases "nilfs_cpfile_get_blkoff st cno = 0")
  case True
  show ?thesis
    using True by (auto simp: cp_header_def del_step_blocks del_block_first split: option.splits)
next
  case False
  then show ?thesis by (simp add: cp_header_def del_step_blocks)
qed

lemma del_step_slot0:
  assumes geo: "geometry_ok st" and c0: "cno \<noteq> 0"
  shows "cp_entry (del_step st cno e) 0 = cp_entry st 0"
proof (cases "nilfs_cpfile_get_blkoff st cno = 0")
  case False
  then show ?thesis
    by (simp add: del_step_entry_other geometry_simps[OF geo])
next
  case True
  have same: "nilfs_cpfile_get_blkoff st 0 = nilfs_cpfile_get_blkoff st cno"
    using True by (simp add: geometry_simps[OF geo])
  have "unat cno \<noteq> 0" using c0 by (simp add: unat_eq_0)
  then have off: "0 < nilfs_cpfile_get_offset st cno"
    using True geometry_simps(5)[OF geo]
    by (simp add: geometry_simps(1,2)[OF geo] div_eq_0_iff)
  have z: "nilfs_cpfile_get_offset st 0 = 0" by (simp add: geometry_simps[OF geo])
  have b0: "nilfs_cpfile_get_blkoff st 0 = 0" using same True by simp
  show ?thesis
  proof (cases "mi_blocks st 0")
    case None
    then show ?thesis by (simp add: cp_entry_def b0 del_step_blocks True)
  next
    case (Some blk)
    have "scan_cps (b_cps blk) (nilfs_cpfile_get_offset st cno)
            (nilfs_cpfile_checkpoints_in_block st cno e) 0 = b_cps blk 0"
      using off by (simp add: scan_cps_def)
    then show ?thesis
      using Some by (simp add: cp_entry_def b0 z del_step_blocks True del_block_first)
  qed
qed

lemma del_step_census:
  assumes geo: "geometry_ok st" and cen: "census_ok st"
  shows "census_ok (del_step st cno e)"
  unfolding census_ok_def
proof (intro allI impI)
  fix b blk'
  assume b0: "b \<noteq> 0" and blk': "mi_blocks (del_step st cno e) b = Some blk'"
  show "unat (cp_checkpoints_count (b_cps blk' 0)) =
          valid_count (mi_entries_per_block (del_step st cno e)) blk'"
  proof (cases "b = nilfs_cpfile_get_blkoff st cno")
    case False
    then show ?thesis using cen b0 blk' by (simp add: del_step_blocks census_ok_def)
  next
    case True
    from blk' True obtain blk where blk: "mi_blocks st b = Some blk"
      and d: "del_block b blk (nilfs_cpfile_get_offset st cno)
                 (nilfs_cpfile_checkpoints_in_block st cno e) = Some blk'"
      by (auto simp: del_step_blocks split: option.splits)
    have c1: "unat (cp_checkpoints_count (b_cps blk 0)) = valid_count (mi_entries_per_block st) blk"
      using cen b0 blk by (simp add: census_ok_def)
    from del_block_census(1)[OF b0 in_block_range[OF geo] c1, of cno e] d
    show ?thesis by simp
  qed
qed

lemma del_step_nonempty:
  assumes geo: "geometry_ok st" and cen: "census_ok st" and ne: "blocks_nonempty st"
  shows "blocks_nonempty (del_step st cno e)"
  unfolding blocks_nonempty_def
proof (intro allI impI)
  fix b blk'
  assume b0: "b \<noteq> 0" and blk': "mi_blocks (del_step st cno e) b = Some blk'"
  show "0 < valid_count (mi_entries_per_block (del_step st cno e)) blk'"
  proof (cases "b = nilfs_cpfile_get_blkoff st cno")
    case False
    then show ?thesis using ne b0 blk' by (simp add: del_step_blocks blocks_nonempty_def)
  next
    case True
    from blk' True obtain blk where blk: "mi_blocks st b = Some blk"
      and d: "del_block b blk (nilfs_cpfile_get_offset st cno)
                 (nilfs_cpfile_checkpoints_in_block st cno e) = Some blk'"
      by (auto simp: del_step_blocks split: option.splits)
    have c1: "unat (cp_checkpoints_count (b_cps blk 0)) = valid_count (mi_entries_per_block st) blk"
      using cen b0 blk by (simp add: census_ok_def)
    have "0 < valid_count (mi_entries_per_block st) blk"
      using ne b0 blk by (simp add: blocks_nonempty_def)
    with del_block_census(1)[OF b0 in_block_range[OF geo] c1, of cno e] d
    show ?thesis by simp
  qed
qed

lemma chunk_offset:
  fixes u v E k :: nat
  assumes "0 < E" "k \<le> E - u mod E" "u \<le> v" "v < u + k"
  shows "v mod E = u mod E + (v - u)"
proof -
  define d where "d = v - u"
  define m where "m = u mod E"
  have "u = E * (u div E) + m" by (simp add: m_def)
  then have v: "v = E * (u div E) + (m + d)" using assms(3) unfolding d_def by linarith
  have mE: "m < E" using assms(1) by (simp add: m_def)
  have lt: "m + d < E" using assms(2,3,4) mE unfolding d_def m_def[symmetric] by linarith
  have "(E * (u div E) + (m + d)) mod E = m + d" using lt by simp
  then have "v mod E = m + d" unfolding v[symmetric] .
  then show ?thesis unfolding d_def m_def .
qed

lemma next_block:
  fixes u v E :: nat
  assumes "0 < E" "u + (E - u mod E) \<le> v"
  shows "v div E \<noteq> u div E"
proof
  assume eq: "v div E = u div E"
  have "v = E * (u div E) + v mod E" using eq by (metis mult_div_mod_eq)
  moreover have "u = E * (u div E) + u mod E" by simp
  moreover have "v mod E < E" "u mod E < E" using assms(1) by simp_all
  ultimately show False using assms(2) by linarith
qed

lemma unat_of_nat_below:
  fixes e :: u64
  shows "v < unat e \<Longrightarrow> unat (of_nat v :: u64) = v"
  by (rule le_unat_uoi[of v e]) simp

lemma del_step_later:
  assumes geo: "geometry_ok st" and lt: "cno < e"
    and c: "unat cno + nilfs_cpfile_checkpoints_in_block st cno e \<le> unat c" "unat c < unat e"
  shows "cp_entry (del_step st cno e) c = cp_entry st c"
proof -
  let ?E = "mi_entries_per_block st"
  have ue: "unat (e - cno) = unat e - unat cno" using lt by (simp add: unat_sub)
  have uc: "unat cno < unat e" using lt by (simp add: word_less_nat_alt)
  have k: "nilfs_cpfile_checkpoints_in_block st cno e = ?E - unat cno mod ?E"
  proof -
    have "nilfs_cpfile_checkpoints_in_block st cno e =
            min (?E - unat cno mod ?E) (unat e - unat cno)"
      using ue by (simp add: nilfs_cpfile_checkpoints_in_block_def geometry_simps[OF geo])
    then show ?thesis using c uc by linarith
  qed
  have "unat c div ?E \<noteq> unat cno div ?E"
    using next_block[OF geometry_simps(5)[OF geo], of "unat cno" "unat c"] c(1) k by simp
  then show ?thesis
    by (intro del_step_entry_other) (simp add: geometry_simps[OF geo])
qed

lemma del_ni_count:
  assumes geo: "geometry_ok st" and lt: "cno < e"
  shows "del_ni st cno e =
           cnt (\<lambda>v. plain_valid st (of_nat v)) (unat cno)
             (unat cno + nilfs_cpfile_checkpoints_in_block st cno e)"
proof -
  let ?E = "mi_entries_per_block st" and ?k = "nilfs_cpfile_checkpoints_in_block st cno e"
  let ?u = "unat cno" and ?off = "nilfs_cpfile_get_offset st cno"
  let ?b = "nilfs_cpfile_get_blkoff st cno"
  have ue: "unat (e - cno) = unat e - unat cno" using lt by (simp add: unat_sub)
  have kle: "?u + ?k \<le> unat e"
    using ue lt by (simp add: nilfs_cpfile_checkpoints_in_block_def word_less_nat_alt)
  have kE: "?k \<le> ?E - ?u mod ?E"
    by (simp add: nilfs_cpfile_checkpoints_in_block_def geometry_simps[OF geo])
  have un: "unat (of_nat v :: u64) = v" if "v < ?u + ?k" for v
    using that kle by (intro unat_of_nat_below[of v e]) simp
  have place: "nilfs_cpfile_get_blkoff st (of_nat v) = ?b \<and>
               nilfs_cpfile_get_offset st (of_nat v) = ?off + (v - ?u)"
    if "?u \<le> v" "v < ?u + ?k" for v
    using chunk_place(1)[OF geo, of cno "of_nat v" e] that un[OF that(2)]
      chunk_offset[OF geometry_simps(5)[OF geo] kE that]
    by (simp add: geometry_simps[OF geo])
  show ?thesis
  proof (cases "mi_blocks st ?b")
    case None
    have "cnt (\<lambda>v. plain_valid st (of_nat v)) ?u (?u + ?k) = 0"
      unfolding cnt_zero_iff using None place by (auto simp: plain_valid_def cp_entry_def)
    then show ?thesis using None by (simp add: del_ni_def)
  next
    case (Some blk)
    have "cnt (\<lambda>v. plain_valid st (of_nat v)) ?u (?u + ?k)
            = cnt (\<lambda>v. plain_cp (b_cps blk (?off + (v - ?u)))) ?u (?u + ?k)"
      by (rule cnt_cong) (use Some place in \<open>auto simp: plain_valid_def cp_entry_def\<close>)
    also have "\<dots> = cnt (\<lambda>i. plain_cp (b_cps blk (?off + i))) 0 ?k"
      using cnt_shift[of "\<lambda>v. plain_cp (b_cps blk (?off + (v - ?u)))" ?u 0 ?k]
      by (simp add: add.commute)
    also have "\<dots> = cnt (\<lambda>j. plain_cp (b_cps blk j)) ?off (?off + ?k)"
      using cnt_shift[of "\<lambda>j. plain_cp (b_cps blk j)" ?off 0 ?k]
      by (simp add: add.commute)
    finally show ?thesis using Some by (simp add: del_ni_def Let_def)
  qed
qed

lemma del_ns_pos:
  assumes geo: "geometry_ok st"
    and c: "unat cno \<le> unat c" "unat c < unat cno + nilfs_cpfile_checkpoints_in_block st cno e"
    and v: "valid_snapshot st c"
  shows "0 < del_ns st cno e"
proof -
  note pl = chunk_place[OF geo c]
  from v obtain blk where
    blk: "mi_blocks st (nilfs_cpfile_get_blkoff st cno) = Some blk"
    and s: "nilfs_checkpoint_snapshot (b_cps blk (nilfs_cpfile_get_offset st c))"
    by (auto simp: valid_snapshot_def cp_entry_def pl(1) split: option.splits)
  show ?thesis
    using blk s pl(2,3) by (auto simp: del_ns_def Let_def cnt_pos_iff)
qed

text \<open>The whole loop, when no block operation fails.\<close>

lemma del_loop_result:
  assumes geo: "geometry_ok st"
    and nf: "\<And>b. mi_get_fault st b = None" and nd: "\<And>b. mi_delete_fault st b = None"
    and le: "cno \<le> e" and c0: "cno \<noteq> 0"
  shows "\<exists>st' ns'.
           del_loop st cno e tn ns =
             (Inr (), st', tn + cnt (\<lambda>v. plain_valid st (of_nat v)) (unat cno) (unat e), ns') \<and>
           ns \<le> ns' \<and>
           ((\<exists>c. unat cno \<le> unat c \<and> unat c < unat e \<and> valid_snapshot st c) \<longrightarrow> ns < ns') \<and>
           (\<forall>c. entry_valid st' c \<longrightarrow> entry_valid st c) \<and>
           (\<forall>c. unat cno \<le> unat c \<and> unat c < unat e \<and> plain_valid st c
                 \<longrightarrow> \<not> entry_valid st' c) \<and>
           cp_header st' = cp_header st \<and> cp_entry st' 0 = cp_entry st 0 \<and>
           mi_entries_per_block st' = mi_entries_per_block st \<and>
           mi_first_entry_offset st' = mi_first_entry_offset st \<and>
           (census_ok st \<longrightarrow>
              census_ok st' \<and> (blocks_nonempty st \<longrightarrow> blocks_nonempty st') \<and>
              (\<forall>c cp. cp_entry st c = Some cp \<and> \<not> nilfs_checkpoint_invalid cp \<and>
                       nilfs_checkpoint_snapshot cp
                       \<longrightarrow> (\<exists>cp'. cp_entry st' c = Some cp' \<and>
                              kept_entry (nilfs_cpfile_get_offset st c) cp cp')))"
  using assms
proof (induction "unat e - unat cno" arbitrary: st cno tn ns rule: less_induct)
  case less
  note geo = less.prems(1) and nf = less.prems(2) and nd = less.prems(3)
    and le = less.prems(4) and c0 = less.prems(5)
  show ?case
  proof (cases "cno < e")
    case False
    then have eq: "cno = e" using le by simp
    have "del_loop st cno e tn ns = (Inr (), st, tn, ns)"
      using False by (subst del_loop.simps) simp
    then show ?thesis by (auto simp: eq)
  next
    case True
    define k where "k = nilfs_cpfile_checkpoints_in_block st cno e"
    define st1 where "st1 = del_step st cno e"
    define cno' where "cno' = cno + of_nat k"
    define ni where "ni = del_ni st cno e"
    define nsd where "nsd = del_ns st cno e"
    let ?u = "unat cno" and ?ue = "unat e"
    have kpos: "0 < k"
      unfolding k_def using True geometry_simps(3,5)[OF geo]
      by (intro checkpoints_in_block_pos) simp_all
    have u': "unat cno' = ?u + k"
      unfolding cno'_def k_def by (rule word_advance_unat[OF True checkpoints_in_block_le])
    have ue: "unat (e - cno) = ?ue - ?u" using True by (simp add: unat_sub)
    have kle: "?u + k \<le> ?ue"
      using ue True by (simp add: k_def nilfs_cpfile_checkpoints_in_block_def word_less_nat_alt)
    have le': "cno' \<le> e" using kle u' by (simp add: word_le_nat_alt)
    have c0': "cno' \<noteq> 0"
    proof
      assume "cno' = 0"
      then have "unat cno' = 0" by simp
      then show False using u' kpos by simp
    qed
    have step: "del_loop st cno e tn ns = del_loop st1 cno' e (tn + ni) (ns + nsd)"
      unfolding st1_def cno'_def k_def ni_def nsd_def
      by (rule del_loop_step[OF geo True nf nd])
    have geo1: "geometry_ok st1" using geo by (simp add: st1_def)
    have nf1: "\<And>b. mi_get_fault st1 b = None" using nf by (simp add: st1_def)
    have nd1: "\<And>b. mi_delete_fault st1 b = None" using nd by (simp add: st1_def)
    have m: "?ue - unat cno' < ?ue - ?u" using u' kpos kle by simp
    from less.hyps[OF m geo1 nf1 nd1 le' c0', of "tn + ni" "ns + nsd"]
    obtain st' ns' where
      r: "del_loop st1 cno' e (tn + ni) (ns + nsd) =
            (Inr (), st', tn + ni + cnt (\<lambda>v. plain_valid st1 (of_nat v)) (unat cno') ?ue, ns')"
      and n1: "ns + nsd \<le> ns'"
      and n2: "(\<exists>c. unat cno' \<le> unat c \<and> unat c < ?ue \<and> valid_snapshot st1 c)
                 \<longrightarrow> ns + nsd < ns'"
      and v1: "\<forall>c. entry_valid st' c \<longrightarrow> entry_valid st1 c"
      and d1: "\<forall>c. unat cno' \<le> unat c \<and> unat c < ?ue \<and> plain_valid st1 c
                 \<longrightarrow> \<not> entry_valid st' c"
      and h1: "cp_header st' = cp_header st1" and z1: "cp_entry st' 0 = cp_entry st1 0"
      and e1: "mi_entries_per_block st' = mi_entries_per_block st1"
      and f1: "mi_first_entry_offset st' = mi_first_entry_offset st1"
      and c1: "census_ok st1 \<longrightarrow>
              census_ok st' \<and> (blocks_nonempty st1 \<longrightarrow> blocks_nonempty st') \<and>
              (\<forall>c cp. cp_entry st1 c = Some cp \<and> \<not> nilfs_checkpoint_invalid cp \<and>
                       nilfs_checkpoint_snapshot cp
                       \<longrightarrow> (\<exists>cp'. cp_entry st' c = Some cp' \<and>
                              kept_entry (nilfs_cpfile_get_offset st1 c) cp cp'))"
      by blast
    have later: "cp_entry st1 c = cp_entry st c" if "?u + k \<le> unat c" "unat c < ?ue" for c
      unfolding st1_def using that by (intro del_step_later[OF geo True]) (simp_all add: k_def)
    have un: "unat (of_nat v :: u64) = v" if "v < ?ue" for v
      by (rule unat_of_nat_below[OF that])
    \<comment> \<open>the count\<close>
    have cnt1: "cnt (\<lambda>v. plain_valid st1 (of_nat v)) (unat cno') ?ue
                = cnt (\<lambda>v. plain_valid st (of_nat v)) (?u + k) ?ue"
      unfolding u'
      by (rule cnt_cong) (simp add: plain_valid_def later un)
    have cnt0: "ni = cnt (\<lambda>v. plain_valid st (of_nat v)) ?u (?u + k)"
      unfolding ni_def k_def by (rule del_ni_count[OF geo True])
    have total: "tn + ni + cnt (\<lambda>v. plain_valid st1 (of_nat v)) (unat cno') ?ue
                 = tn + cnt (\<lambda>v. plain_valid st (of_nat v)) ?u ?ue"
      using cnt_append[of ?u "?u + k" ?ue "\<lambda>v. plain_valid st (of_nat v)"] kle cnt0 cnt1
      by simp
    \<comment> \<open>the snapshots met\<close>
    have A: "ns \<le> ns'" using n1 by simp
    have B: "ns < ns'" if "unat cno \<le> unat c" "unat c < ?ue" "valid_snapshot st c" for c
    proof (cases "unat c < ?u + k")
      case True
      have "0 < nsd"
        unfolding nsd_def using that(1) True that(3)
        by (intro del_ns_pos[OF geo, of cno c]) (simp_all add: k_def)
      then show ?thesis using n1 by simp
    next
      case False
      then have "valid_snapshot st1 c" using that by (simp add: valid_snapshot_def later)
      then show ?thesis using n2 False that(2) u' by auto
    qed
    \<comment> \<open>the entries\<close>
    have C: "entry_valid st c" if "entry_valid st' c" for c
      using v1 that del_step_valid_mono[of st cno e c] by (simp add: st1_def)
    have D: "\<not> entry_valid st' c" if "unat cno \<le> unat c" "unat c < ?ue" "plain_valid st c" for c
    proof (cases "unat c < ?u + k")
      case True
      have "\<not> entry_valid st1 c"
        unfolding st1_def using that(1) True that(3)
        by (intro del_step_deletes[OF geo]) (simp_all add: k_def)
      then show ?thesis using v1 by blast
    next
      case False
      then have "plain_valid st1 c" using that by (simp add: plain_valid_def later)
      then show ?thesis using d1 False that(2) u' by auto
    qed
    have H: "cp_header st' = cp_header st" using h1 by (simp add: st1_def del_step_header)
    have Z: "cp_entry st' 0 = cp_entry st 0"
      using z1 del_step_slot0[OF geo c0] by (simp add: st1_def)
    have E: "mi_entries_per_block st' = mi_entries_per_block st" using e1 by (simp add: st1_def)
    have G: "mi_first_entry_offset st' = mi_first_entry_offset st"
      using f1 by (simp add: st1_def)
    have F: "census_ok st' \<and> (blocks_nonempty st \<longrightarrow> blocks_nonempty st') \<and>
              (\<forall>c cp. cp_entry st c = Some cp \<and> \<not> nilfs_checkpoint_invalid cp \<and>
                       nilfs_checkpoint_snapshot cp
                       \<longrightarrow> (\<exists>cp'. cp_entry st' c = Some cp' \<and>
                              kept_entry (nilfs_cpfile_get_offset st c) cp cp'))"
      if cen: "census_ok st"
    proof -
      have cen1: "census_ok st1" unfolding st1_def by (rule del_step_census[OF geo cen])
      have ne1: "blocks_nonempty st1" if "blocks_nonempty st"
        unfolding st1_def by (rule del_step_nonempty[OF geo cen that])
      have keep: "\<exists>cp'. cp_entry st' c = Some cp' \<and>
                        kept_entry (nilfs_cpfile_get_offset st c) cp cp'"
        if "cp_entry st c = Some cp" "\<not> nilfs_checkpoint_invalid cp" "nilfs_checkpoint_snapshot cp"
        for c cp
      proof -
        from del_step_keeps_snapshot[OF geo cen that, of cno e]
        obtain cp1 where cp1: "cp_entry st1 c = Some cp1"
          "kept_entry (nilfs_cpfile_get_offset st c) cp cp1"
          unfolding st1_def by blast
        have "\<not> nilfs_checkpoint_invalid cp1" "nilfs_checkpoint_snapshot cp1"
          using that(2,3) kept_entry_same[OF cp1(2)] by (simp_all add: invalid_same_entry)
        with c1 cen1 cp1(1) obtain cp' where "cp_entry st' c = Some cp'"
          "kept_entry (nilfs_cpfile_get_offset st1 c) cp1 cp'"
          by blast
        then show ?thesis using kept_entry_trans[OF cp1(2)] by (auto simp: st1_def)
      qed
      show ?thesis using c1 cen1 ne1 keep by blast
    qed
    have R: "del_loop st cno e tn ns =
               (Inr (), st', tn + cnt (\<lambda>v. plain_valid st (of_nat v)) ?u ?ue, ns')"
      using step r total by simp
    show ?thesis
      apply (rule exI[of _ st'], rule exI[of _ ns'])
      using R A B C D H Z E G F by blast
  qed
qed

text \<open>The number of valid entries that are not snapshots among the checkpoint numbers
  of the half-open range from \<open>start\<close> to \<open>end_cno\<close>.\<close>

definition count_plain :: "cpfile \<Rightarrow> u64 \<Rightarrow> u64 \<Rightarrow> nat" where
  "count_plain st start end_cno =
     cnt (\<lambda>v. plain_valid st (of_nat v)) (unat start) (unat end_cno)"

lemma delete_checkpoints_no_fault:
  assumes geo: "geometry_ok st"
    and nf: "\<And>b. mi_get_fault st b = None" and nd: "\<And>b. mi_delete_fault st b = None"
    and s1: "1 \<le> start" and se: "start \<le> end_cno"
    and hdr: "cp_header st = Some h"
  shows "\<exists>st' (ns' :: nat).
           nilfs_cpfile_delete_checkpoints st start end_cno =
             (if 0 < ns' then Inl EBUSY else Inr (), st') \<and>
           ((\<exists>c. start \<le> c \<and> c < end_cno \<and> valid_snapshot st c) \<longrightarrow> 0 < ns') \<and>
           (\<forall>c. entry_valid st' c \<longrightarrow> entry_valid st c) \<and>
           (\<forall>c. start \<le> c \<and> c < end_cno \<and> plain_valid st c \<longrightarrow> \<not> entry_valid st' c) \<and>
           cp_header st' =
             Some (h\<lparr>ch_ncheckpoints := ch_ncheckpoints h - of_nat (count_plain st start end_cno)\<rparr>) \<and>
           cp_entry st' 0 = cp_entry st 0 \<and>
           mi_entries_per_block st' = mi_entries_per_block st \<and>
           mi_first_entry_offset st' = mi_first_entry_offset st \<and>
           (census_ok st \<longrightarrow>
              census_ok st' \<and> (blocks_nonempty st \<longrightarrow> blocks_nonempty st') \<and>
              (\<forall>c cp. cp_entry st c = Some cp \<and> \<not> nilfs_checkpoint_invalid cp \<and>
                       nilfs_checkpoint_snapshot cp
                       \<longrightarrow> (\<exists>cp'. cp_entry st' c = Some cp' \<and>
                              kept_entry (nilfs_cpfile_get_offset st c) cp cp')))"
proof -
  have s0: "start \<noteq> 0" using s1 by simp
  define n where "n = count_plain st start end_cno"
  from del_loop_result[OF geo nf nd se s0, of 0 0]
  obtain st2 ns' where
    r: "del_loop st start end_cno 0 0 = (Inr (), st2, n, ns')"
    and B: "(\<exists>c. unat start \<le> unat c \<and> unat c < unat end_cno \<and> valid_snapshot st c) \<longrightarrow> 0 < ns'"
    and C: "\<forall>c. entry_valid st2 c \<longrightarrow> entry_valid st c"
    and D: "\<forall>c. unat start \<le> unat c \<and> unat c < unat end_cno \<and> plain_valid st c
                 \<longrightarrow> \<not> entry_valid st2 c"
    and H: "cp_header st2 = cp_header st" and Z: "cp_entry st2 0 = cp_entry st 0"
    and E: "mi_entries_per_block st2 = mi_entries_per_block st"
    and G: "mi_first_entry_offset st2 = mi_first_entry_offset st"
    and F: "census_ok st \<longrightarrow>
              census_ok st2 \<and> (blocks_nonempty st \<longrightarrow> blocks_nonempty st2) \<and>
              (\<forall>c cp. cp_entry st c = Some cp \<and> \<not> nilfs_checkpoint_invalid cp \<and>
                       nilfs_checkpoint_snapshot cp
                       \<longrightarrow> (\<exists>cp'. cp_entry st2 c = Some cp' \<and>
                              kept_entry (nilfs_cpfile_get_offset st c) cp cp'))"
    unfolding n_def count_plain_def by auto
  define st3 where "st3 =
     (if 0 < n
      then nilfs_mdt_mark_dirty
             (mark_buffer_dirty
                (header_write st2 0 (\<lambda>h. h\<lparr>ch_ncheckpoints := ch_ncheckpoints h + (- of_nat n)\<rparr>)) 0)
      else st2)"
  have gh: "nilfs_cpfile_get_header_block st = (Inr 0, st)"
    by (rule get_header_block_header[OF nf hdr])
  have res: "nilfs_cpfile_delete_checkpoints st start end_cno =
               (if 0 < ns' then Inl EBUSY else Inr (), st3)"
    using s0 se by (simp add: nilfs_cpfile_delete_checkpoints_def gh r st3_def Let_def not_less)
  have ent3: "cp_entry st3 c = cp_entry st2 c" for c by (simp add: st3_def)
  have blk3: "mi_blocks st3 b = None \<longleftrightarrow> mi_blocks st2 b = None" for b
    by (simp add: st3_def header_write_def mi_blocks_bh_update)
  have val3: "entry_valid st3 c = entry_valid st2 c" for c
    by (simp add: entry_valid_def ent3)
  have e3: "mi_entries_per_block st3 = mi_entries_per_block st"
    using E by (simp add: st3_def header_write_def)
  have f3: "mi_first_entry_offset st3 = mi_first_entry_offset st"
    using G by (simp add: st3_def header_write_def)
  have hdr3: "cp_header st3 = Some (h\<lparr>ch_ncheckpoints := ch_ncheckpoints h - of_nat n\<rparr>)"
    using H hdr by (cases "0 < n") (simp_all add: st3_def cp_header_header_write)
  have cps3: "map_option b_cps (mi_blocks st3 b) = map_option b_cps (mi_blocks st2 b)" for b
    by (cases "mi_blocks st2 b")
      (auto simp: st3_def header_write_def mi_blocks_bh_update)
  have cen3: "census_ok st3" if "census_ok st2"
    unfolding census_ok_def
  proof (intro allI impI)
    fix b blk assume b: "b \<noteq> 0" "mi_blocks st3 b = Some blk"
    from cps3[of b] b(2) obtain blk2 where b2: "mi_blocks st2 b = Some blk2" "b_cps blk2 = b_cps blk"
      by (cases "mi_blocks st2 b") auto
    from that b(1) b2(1)
    have "unat (cp_checkpoints_count (b_cps blk2 0)) = valid_count (mi_entries_per_block st2) blk2"
      unfolding census_ok_def by blast
    then show "unat (cp_checkpoints_count (b_cps blk 0)) = valid_count (mi_entries_per_block st3) blk"
      unfolding valid_count_def b2(2) E e3 .
  qed
  have ne3: "blocks_nonempty st3" if "blocks_nonempty st2"
    unfolding blocks_nonempty_def
  proof (intro allI impI)
    fix b blk assume b: "b \<noteq> 0" "mi_blocks st3 b = Some blk"
    from cps3[of b] b(2) obtain blk2 where b2: "mi_blocks st2 b = Some blk2" "b_cps blk2 = b_cps blk"
      by (cases "mi_blocks st2 b") auto
    from that b(1) b2(1)
    have "0 < valid_count (mi_entries_per_block st2) blk2"
      unfolding blocks_nonempty_def by blast
    then show "0 < valid_count (mi_entries_per_block st3) blk"
      unfolding valid_count_def b2(2) E e3 .
  qed
  have rngw: "(start \<le> c \<and> c < end_cno) = (unat start \<le> unat c \<and> unat c < unat end_cno)" for c
    by (simp add: word_le_nat_alt word_less_nat_alt)
  have Q2: "(\<exists>c. start \<le> c \<and> c < end_cno \<and> valid_snapshot st c) \<longrightarrow> 0 < ns'"
    using B unfolding word_le_nat_alt word_less_nat_alt by blast
  have Q3: "\<forall>c. entry_valid st3 c \<longrightarrow> entry_valid st c"
    using C by (simp add: val3)
  have Q4: "\<forall>c. start \<le> c \<and> c < end_cno \<and> plain_valid st c \<longrightarrow> \<not> entry_valid st3 c"
    using D unfolding val3 word_le_nat_alt word_less_nat_alt by blast
  have Q5: "cp_header st3 =
             Some (h\<lparr>ch_ncheckpoints := ch_ncheckpoints h - of_nat (count_plain st start end_cno)\<rparr>)"
    by (simp add: hdr3 n_def)
  have Q6: "cp_entry st3 0 = cp_entry st 0" by (simp add: ent3 Z)
  have Q8: "census_ok st \<longrightarrow>
              census_ok st3 \<and> (blocks_nonempty st \<longrightarrow> blocks_nonempty st3) \<and>
              (\<forall>c cp. cp_entry st c = Some cp \<and> \<not> nilfs_checkpoint_invalid cp \<and>
                       nilfs_checkpoint_snapshot cp
                       \<longrightarrow> (\<exists>cp'. cp_entry st3 c = Some cp' \<and>
                              kept_entry (nilfs_cpfile_get_offset st c) cp cp'))"
    using F cen3 ne3 by (simp add: ent3)
  show ?thesis
    using res Q2 Q3 Q4 Q5 Q6 e3 f3 Q8 by blast
qed

text \<open>The third boundary scenario of the specification: with four entries per block,
  block 1 holds the checkpoints 4 to 7 and block 2 the checkpoints 8 to 11.  The
  checkpoints 5, 6, 8 and 9 are valid plain ones, 7 is a snapshot, and the first slot of
  each of the two blocks carries the census of its block (3 and 2).\<close>

definition ex_blk1 :: cp_block where
  "ex_blk1 =
     \<lparr>b_header = ex_header 0 0 0 0,
      b_cps = (\<lambda>_. ex_invalid)(0 := ex_entry 1 3 0 0 0, 1 := ex_entry 0 0 5 0 0,
                               2 := ex_entry 0 0 6 0 0, 3 := ex_entry 2 0 7 0 0)\<rparr>"

definition ex_blk2 :: cp_block where
  "ex_blk2 =
     \<lparr>b_header = ex_header 0 0 0 0,
      b_cps = (\<lambda>_. ex_invalid)(0 := ex_entry 0 2 8 0 0, 1 := ex_entry 0 0 9 0 0)\<rparr>"

definition ex_range :: cpfile where
  "ex_range =
     ex_file 10
       [0 \<mapsto> \<lparr>b_header = ex_header 5 1 7 7, b_cps = (\<lambda>_. ex_invalid)\<rparr>,
        1 \<mapsto> ex_blk1, 2 \<mapsto> ex_blk2]"

lemma ex_range_facts:
  "geometry_ok ex_range"
  "mi_get_fault ex_range b = None"
  "mi_delete_fault ex_range b = None"
  "cp_header ex_range = Some (ex_header 5 1 7 7)"
  "cp_entry ex_range 5 = Some (ex_entry 0 0 5 0 0)"
  "cp_entry ex_range 6 = Some (ex_entry 0 0 6 0 0)"
  "cp_entry ex_range 7 = Some (ex_entry 2 0 7 0 0)"
  "cp_entry ex_range 8 = Some (ex_entry 0 2 8 0 0)"
  "cp_entry ex_range 9 = Some (ex_entry 0 0 9 0 0)"
  by (simp_all add: geometry_ok_def cp_entry_def cp_header_def ex_range_def ex_file_def
      layout_defs ex_blk1_def ex_blk2_def)

lemma ex_invalid_flags: "nilfs_checkpoint_invalid ex_invalid"
  by (simp add: ex_invalid_def ex_entry_flags)

lemma cnt_numeral:
  "cnt P a (numeral k) =
     (if a < numeral k then (if P a then 1 else 0) + cnt P (Suc a) (numeral k) else 0)"
  by (simp add: cnt_step) (simp add: cnt_def)

lemma cnt_Suc:
  "cnt P a (Suc b) = (if a \<le> b then cnt P a b + (if P b then 1 else 0) else 0)"
  by (simp add: cnt_def)

lemma ex_blk_counts:
  "valid_count 4 ex_blk1 = 3" "valid_count 4 ex_blk2 = 2"
  "cp_checkpoints_count (b_cps ex_blk1 0) = 3" "cp_checkpoints_count (b_cps ex_blk2 0) = 2"
  by (simp_all add: valid_count_def cnt_numeral ex_blk1_def ex_blk2_def ex_entry_flags
      ex_invalid_flags)
    (simp_all add: ex_entry_def)

lemma ex_range_blocks:
  "b \<noteq> 0 \<Longrightarrow> mi_blocks ex_range b = Some blk
     \<Longrightarrow> (b = 1 \<and> blk = ex_blk1) \<or> (b = 2 \<and> blk = ex_blk2)"
  by (auto simp: ex_range_def ex_file_def split: if_splits)

lemma ex_range_epb: "mi_entries_per_block ex_range = 4"
  by (simp add: ex_range_def ex_file_def)

lemma ex_range_census: "census_ok ex_range"
  unfolding census_ok_def ex_range_epb
proof (intro allI impI)
  fix b blk
  assume "b \<noteq> 0" "mi_blocks ex_range b = Some blk"
  then have "blk = ex_blk1 \<or> blk = ex_blk2" using ex_range_blocks by blast
  then show "unat (cp_checkpoints_count (b_cps blk 0)) = valid_count 4 blk"
    by (auto simp: ex_blk_counts)
qed


lemma ex_range_count: "count_plain ex_range 5 10 = 4"
  by (simp add: count_plain_def cnt_numeral plain_valid_def plain_cp_def ex_range_facts
      ex_entry_flags)

text \<open>A file whose only snapshot, 8, sits in the first slot of block 2 and so carries the
  census of that block, 2; the other valid entry of the block is the plain checkpoint
  9.\<close>

definition ex_blk_s0 :: cp_block where
  "ex_blk_s0 =
     \<lparr>b_header = ex_header 0 0 0 0,
      b_cps = (\<lambda>_. ex_invalid)(0 := ex_entry 2 2 8 0 0, 1 := ex_entry 0 0 9 0 0)\<rparr>"

definition ex_s0 :: cpfile where
  "ex_s0 =
     ex_file 10
       [0 \<mapsto> \<lparr>b_header = ex_header 2 1 8 8, b_cps = (\<lambda>_. ex_invalid)\<rparr>, 2 \<mapsto> ex_blk_s0]"

lemma ex_s0_facts:
  "geometry_ok ex_s0"
  "mi_get_fault ex_s0 b = None"
  "mi_delete_fault ex_s0 b = None"
  "cp_header ex_s0 = Some (ex_header 2 1 8 8)"
  "mi_entries_per_block ex_s0 = 4"
  "nilfs_cpfile_get_blkoff ex_s0 8 = 2"
  "nilfs_cpfile_get_offset ex_s0 8 = 0"
  "nilfs_cpfile_checkpoints_in_block ex_s0 8 10 = 2"
  "mi_blocks ex_s0 2 = Some ex_blk_s0"
  "cp_entry ex_s0 8 = Some (ex_entry 2 2 8 0 0)"
  "cp_entry ex_s0 9 = Some (ex_entry 0 0 9 0 0)"
  by (simp_all add: geometry_ok_def cp_header_def cp_entry_def ex_s0_def ex_file_def
      layout_defs nilfs_cpfile_checkpoints_in_block_def ex_blk_s0_def)

lemma ex_s0_census: "census_ok ex_s0"
  unfolding census_ok_def ex_s0_facts(5)
proof (intro allI impI)
  fix b blk
  assume "b \<noteq> 0" "mi_blocks ex_s0 b = Some blk"
  then have "blk = ex_blk_s0" by (auto simp: ex_s0_def ex_file_def split: if_splits)
  then show "unat (cp_checkpoints_count (b_cps blk 0)) = valid_count 4 blk"
    by (simp add: valid_count_def cnt_numeral ex_blk_s0_def ex_entry_flags ex_invalid_flags)
      (simp add: ex_entry_def)
qed

lemma ex_s0_block:
  "del_block 2 ex_blk_s0 0 2 =
     Some (ex_blk_s0\<lparr>b_cps := (\<lambda>_. ex_invalid)
             (0 := ex_entry 2 1 8 0 0, 1 := ex_entry 1 0 9 0 0)\<rparr>)"
    "cnt (\<lambda>j. plain_cp (b_cps ex_blk_s0 j)) 0 2 = 1"
    "cnt (\<lambda>j. nilfs_checkpoint_snapshot (b_cps ex_blk_s0 j)) 0 2 = 1"
proof -
  have p: "plain_cp (ex_entry 0 n c x y)" "\<not> plain_cp (ex_entry 2 n c x y)"
    "\<not> plain_cp ex_invalid" for n c x y
    by (simp_all add: plain_cp_def ex_entry_flags ex_invalid_flags)
  have s: "nilfs_checkpoint_set_invalid (ex_entry 0 n c x y) = ex_entry 1 n c x y" for n c x y
    by (simp add: nilfs_checkpoint_set_invalid_def ex_entry_def NILFS_CHECKPOINT_INVALID_def)
  have cps: "scan_cps (b_cps ex_blk_s0) 0 2 =
               (\<lambda>_. ex_invalid)(0 := ex_entry 2 2 8 0 0, 1 := ex_entry 1 0 9 0 0)"
    by (auto simp: scan_cps_def fun_eq_iff ex_blk_s0_def p s)
  show ni: "cnt (\<lambda>j. plain_cp (b_cps ex_blk_s0 j)) 0 2 = 1"
    by (simp add: cnt_numeral cnt_Suc ex_blk_s0_def p)
  show "cnt (\<lambda>j. nilfs_checkpoint_snapshot (b_cps ex_blk_s0 j)) 0 2 = 1"
    by (simp add: cnt_numeral cnt_Suc ex_blk_s0_def ex_entry_flags ex_invalid_flags)
  have z2: "(0::nat) + 2 = 2" by simp
  have ni': "cnt (\<lambda>j. plain_cp (b_cps ex_blk_s0 j)) 0 (0 + 2) = 1"
    unfolding z2 by (rule ni)
  have c: "cp_checkpoints_count (ex_entry 2 2 8 0 0) - 1 = 1"
    "(ex_entry 2 2 8 0 0)\<lparr>cp_checkpoints_count := 1\<rparr> = ex_entry 2 1 8 0 0"
    by (simp_all add: ex_entry_def)
  show "del_block 2 ex_blk_s0 0 2 =
     Some (ex_blk_s0\<lparr>b_cps := (\<lambda>_. ex_invalid)
             (0 := ex_entry 2 1 8 0 0, 1 := ex_entry 1 0 9 0 0)\<rparr>)"
    unfolding del_block_def Let_def cps ni' by (auto simp: c fun_eq_iff)
qed

lemma ex_s0_loop:
  "del_loop ex_s0 8 10 0 0 = (Inr (), del_step ex_s0 8 10, 1, 1)"
proof -
  have lt: "(8::u64) < 10" by simp
  have z2: "(0::nat) + 2 = 2" by simp
  have ni: "del_ni ex_s0 8 10 = 1" and ns: "del_ns ex_s0 8 10 = 1"
    unfolding del_ni_def del_ns_def Let_def ex_s0_facts z2
    using ex_s0_block(2) ex_s0_block(3) by simp_all
  have nf: "mi_get_fault ex_s0 (nilfs_cpfile_get_blkoff ex_s0 8) = None"
    and nd: "mi_delete_fault ex_s0 (nilfs_cpfile_get_blkoff ex_s0 8) = None"
    by (simp_all add: ex_s0_facts)
  have a: "(8::u64) + of_nat 2 = 10" "(0::nat) + 1 = 1" by simp_all
  have "del_loop ex_s0 8 10 0 0 = del_loop (del_step ex_s0 8 10) 10 10 1 1"
    using del_loop_step[OF ex_s0_facts(1) lt nf nd, of 0 0]
    unfolding ni ns ex_s0_facts(8) a .
  also have "\<dots> = (Inr (), del_step ex_s0 8 10, 1, 1)"
    by (subst del_loop.simps) simp
  finally show ?thesis .
qed

lemma ex_s0_delete:
  "fst (nilfs_cpfile_delete_checkpoints ex_s0 8 10) = Inl EBUSY"
  "cp_entry (snd (nilfs_cpfile_delete_checkpoints ex_s0 8 10)) 8 = Some (ex_entry 2 1 8 0 0)"
proof -
  have gh: "nilfs_cpfile_get_header_block ex_s0 = (Inr 0, ex_s0)"
    by (rule get_header_block_header[OF ex_s0_facts(2) ex_s0_facts(4)])
  have b: "nilfs_cpfile_get_blkoff ex_s0 8 = nilfs_cpfile_get_blkoff ex_s0 8" by simp
  have e: "cp_entry (del_step ex_s0 8 10) 8 = Some (ex_entry 2 1 8 0 0)"
    unfolding del_step_entry_same[OF b] ex_s0_facts by (simp add: ex_s0_block)
  show "fst (nilfs_cpfile_delete_checkpoints ex_s0 8 10) = Inl EBUSY"
    by (simp add: nilfs_cpfile_delete_checkpoints_def gh ex_s0_loop)
  show "cp_entry (snd (nilfs_cpfile_delete_checkpoints ex_s0 8 10)) 8 =
          Some (ex_entry 2 1 8 0 0)"
    by (simp add: nilfs_cpfile_delete_checkpoints_def gh ex_s0_loop e)
qed

lemma ex_s0_count: "count_plain ex_s0 8 10 = 1"
  by (simp add: count_plain_def cnt_numeral plain_valid_def plain_cp_def ex_s0_facts
      ex_entry_flags)

text \<open>C2, as stated, fails for a snapshot in the first slot of its block.  In \<open>ex_s0\<close> the
  range from 8 to 10 holds the snapshot 8 and the valid plain checkpoint 9, no block
  operation fails, and \<open>delete_checkpoints(8, 10)\<close> returns \<open>-EBUSY\<close>; but the entry of
  the snapshot 8 is not as before: the call invalidates 9 and writes the decremented
  census of block 2, 1 for 2, into the field \<open>cp_checkpoints_count\<close> of the first slot,
  which is the entry of 8.\<close>

theorem delete_checkpoints_snapshot_census_counterexample:
  "geometry_ok ex_s0 \<and> census_ok ex_s0 \<and> (1::u64) \<le> 8 \<and> (8::u64) \<le> 10 \<and>
   mi_get_fault ex_s0 0 = None \<and> mi_get_fault ex_s0 2 = None \<and>
   mi_delete_fault ex_s0 2 = None \<and>
   valid_snapshot ex_s0 8 \<and> plain_valid ex_s0 9 \<and> count_plain ex_s0 8 10 = 1 \<and>
   fst (nilfs_cpfile_delete_checkpoints ex_s0 8 10) = Inl EBUSY \<and>
   cp_entry ex_s0 8 = Some (ex_entry 2 2 8 0 0) \<and>
   cp_entry (snd (nilfs_cpfile_delete_checkpoints ex_s0 8 10)) 8 = Some (ex_entry 2 1 8 0 0) \<and>
   ex_entry 2 1 8 0 0 \<noteq> ex_entry 2 2 8 0 0"
proof -
  have v: "valid_snapshot ex_s0 8" "plain_valid ex_s0 9"
    by (simp_all add: valid_snapshot_def plain_valid_def plain_cp_def ex_s0_facts
        ex_entry_flags)
  have ne: "ex_entry 2 1 8 0 0 \<noteq> ex_entry 2 2 8 0 0" by (simp add: ex_entry_def)
  show ?thesis
    using v ne ex_s0_delete ex_s0_count ex_s0_census ex_s0_facts(1) ex_s0_facts(10)
    by (simp add: ex_s0_facts(2) ex_s0_facts(3))
qed

text \<open>C2, amended.  Let \<open>1 \<le> start \<le> end\<close>, let no block operation fail, let the census
  of every block agree with its entries (invariant 1 of the data model), and let the range
  contain a valid snapshot entry.  Then \<open>delete_checkpoints\<close> returns \<open>-EBUSY\<close>; no valid
  plain entry of the range is valid afterwards (its INVALID flag is set, or its block has
  been reclaimed because it held no other valid entry); \<open>ncheckpoints\<close> of the header has
  decreased by exactly the number \<open>n\<close> of valid plain entries of the range, while
  \<open>nsnapshots\<close> and the list head are as before; the census of every block still agrees
  with its entries; and every valid snapshot entry of the file is the same record as
  before, except that a snapshot in the first slot of its block carries the census of
  that block in its field \<open>cp_checkpoints_count\<close>, which \<open>same_entry\<close> leaves out.  The
  statement holds for every \<open>n\<close>, in particular for \<open>n > 0\<close>.\<close>

theorem delete_checkpoints_partial_success:
  assumes "geometry_ok st"
    and "\<And>b. mi_get_fault st b = None" and "\<And>b. mi_delete_fault st b = None"
    and "1 \<le> start" and "start \<le> end_cno"
    and "cp_header st = Some h"
    and "census_ok st"
    and "start \<le> s" and "s < end_cno" and "valid_snapshot st s"
  shows "\<exists>st'. nilfs_cpfile_delete_checkpoints st start end_cno = (Inl EBUSY, st') \<and>
           (\<forall>c. start \<le> c \<and> c < end_cno \<and> plain_valid st c \<longrightarrow> \<not> entry_valid st' c) \<and>
           cp_header st' =
             Some (h\<lparr>ch_ncheckpoints :=
                       ch_ncheckpoints h - of_nat (count_plain st start end_cno)\<rparr>) \<and>
           census_ok st' \<and>
           (\<forall>c cp. cp_entry st c = Some cp \<and> \<not> nilfs_checkpoint_invalid cp \<and>
                    nilfs_checkpoint_snapshot cp
                    \<longrightarrow> (\<exists>cp'. cp_entry st' c = Some cp' \<and> same_entry cp cp' \<and>
                              (nilfs_cpfile_get_offset st c \<noteq> 0 \<longrightarrow> cp' = cp)))"
proof -
  from delete_checkpoints_no_fault[OF assms(1) assms(2) assms(3) assms(4) assms(5) assms(6)]
  obtain st' and ns' :: nat where
    r: "nilfs_cpfile_delete_checkpoints st start end_cno =
          (if 0 < ns' then Inl EBUSY else Inr (), st')"
    and B: "(\<exists>c. start \<le> c \<and> c < end_cno \<and> valid_snapshot st c) \<longrightarrow> 0 < ns'"
    and D: "\<forall>c. start \<le> c \<and> c < end_cno \<and> plain_valid st c \<longrightarrow> \<not> entry_valid st' c"
    and H: "cp_header st' =
             Some (h\<lparr>ch_ncheckpoints :=
                       ch_ncheckpoints h - of_nat (count_plain st start end_cno)\<rparr>)"
    and F: "census_ok st \<longrightarrow>
              census_ok st' \<and> (blocks_nonempty st \<longrightarrow> blocks_nonempty st') \<and>
              (\<forall>c cp. cp_entry st c = Some cp \<and> \<not> nilfs_checkpoint_invalid cp \<and>
                       nilfs_checkpoint_snapshot cp
                       \<longrightarrow> (\<exists>cp'. cp_entry st' c = Some cp' \<and>
                              kept_entry (nilfs_cpfile_get_offset st c) cp cp'))"
    by blast
  have pos: "0 < ns'" using B assms(8) assms(9) assms(10) by blast
  have r': "nilfs_cpfile_delete_checkpoints st start end_cno = (Inl EBUSY, st')"
    using r pos by simp
  have K: "\<exists>cp'. cp_entry st' c = Some cp' \<and> same_entry cp cp' \<and>
                 (nilfs_cpfile_get_offset st c \<noteq> 0 \<longrightarrow> cp' = cp)"
    if "cp_entry st c = Some cp" "\<not> nilfs_checkpoint_invalid cp" "nilfs_checkpoint_snapshot cp"
    for c cp
    using F assms(7) that unfolding kept_entry_def by blast
  have cen: "census_ok st'" using F assms(7) by blast
  show ?thesis
    using r' D H cen K by blast
qed

lemma ex_range_valid:
  "valid_snapshot ex_range 7"
  "plain_valid ex_range 5" "plain_valid ex_range 6"
  "plain_valid ex_range 8" "plain_valid ex_range 9"
  by (simp_all add: valid_snapshot_def plain_valid_def plain_cp_def ex_range_facts
      ex_entry_flags)

theorem delete_checkpoints_partial_success_witness:
  "geometry_ok ex_range \<and> (1::u64) \<le> 5 \<and> (5::u64) \<le> 10 \<and>
   cp_header ex_range = Some (ex_header 5 1 7 7) \<and> census_ok ex_range \<and>
   valid_snapshot ex_range 7 \<and> count_plain ex_range 5 10 = 4 \<and>
   (\<exists>st'. nilfs_cpfile_delete_checkpoints ex_range 5 10 = (Inl EBUSY, st') \<and>
      \<not> entry_valid st' 5 \<and> \<not> entry_valid st' 6 \<and> \<not> entry_valid st' 8 \<and>
      \<not> entry_valid st' 9 \<and>
      cp_header st' = Some (ex_header 1 1 7 7) \<and> census_ok st' \<and>
      cp_entry st' 7 = Some (ex_entry 2 0 7 0 0))"
proof -
  have le: "(1::u64) \<le> 5" "(5::u64) \<le> 10" "(5::u64) \<le> 7" "(7::u64) < 10"
    "(5::u64) \<le> 6" "(6::u64) < 10" "(5::u64) \<le> 8" "(8::u64) < 10" "(5::u64) \<le> 9"
    "(9::u64) < 10" "(5::u64) < 10"
    by simp_all
  from delete_checkpoints_partial_success[OF ex_range_facts(1) ex_range_facts(2)
      ex_range_facts(3) le(1) le(2) ex_range_facts(4) ex_range_census le(3) le(4)
      ex_range_valid(1)]
  obtain st' where
    r: "nilfs_cpfile_delete_checkpoints ex_range 5 10 = (Inl EBUSY, st')"
    and D: "\<forall>c. 5 \<le> c \<and> c < 10 \<and> plain_valid ex_range c \<longrightarrow> \<not> entry_valid st' c"
    and H: "cp_header st' =
             Some ((ex_header 5 1 7 7)\<lparr>ch_ncheckpoints :=
                       ch_ncheckpoints (ex_header 5 1 7 7) - of_nat (count_plain ex_range 5 10)\<rparr>)"
    and C: "census_ok st'"
    and F: "\<forall>c cp. cp_entry ex_range c = Some cp \<and> \<not> nilfs_checkpoint_invalid cp \<and>
                    nilfs_checkpoint_snapshot cp
                    \<longrightarrow> (\<exists>cp'. cp_entry st' c = Some cp' \<and> same_entry cp cp' \<and>
                              (nilfs_cpfile_get_offset ex_range c \<noteq> 0 \<longrightarrow> cp' = cp))"
    by blast
  have d: "\<not> entry_valid st' 5" "\<not> entry_valid st' 6" "\<not> entry_valid st' 8"
    "\<not> entry_valid st' 9"
    using D le ex_range_valid by blast+
  have h: "cp_header st' = Some (ex_header 1 1 7 7)"
    using H by (simp add: ex_range_count ex_header_def)
  have o: "nilfs_cpfile_get_offset ex_range 7 \<noteq> 0"
    by (simp add: geometry_simps(2)[OF ex_range_facts(1)] ex_range_epb)
  have f: "cp_entry st' 7 = Some (ex_entry 2 0 7 0 0)"
    using F ex_range_facts(7) ex_entry_flags(3) ex_entry_flags(4) o by blast
  show ?thesis
    using r d h f C le ex_range_facts ex_range_census ex_range_valid ex_range_count by simp
qed













subsection \<open>C10: deleting a single checkpoint\<close>

text \<open>The search for the first existing block.\<close>

lemma find_block_first:
  assumes nf: "\<And>b. mi_get_fault st b = None"
    and r: "s \<le> b'" "b' \<le> e" and ex: "mi_blocks st b' \<noteq> None"
  shows "\<exists>b. nilfs_mdt_find_block st s e = Inr b \<and> s \<le> b \<and> b \<le> b' \<and>
             mi_blocks st b \<noteq> None \<and> (\<forall>x. s \<le> x \<and> x < b \<longrightarrow> mi_blocks st x = None)"
proof -
  let ?P = "\<lambda>b. mi_blocks st b \<noteq> None \<or> mi_get_fault st b \<noteq> None"
  define n where "n = Suc e"
  have "b' < n" using r(2) unfolding n_def by linarith
  then have "b' \<in> set [s ..< n]" using r(1) by simp
  then have "List.find ?P [s ..< n] \<noteq> None"
    using ex by (auto simp: find_None_iff)
  then obtain b where f: "List.find ?P [s ..< n] = Some b" by auto
  then obtain i where i: "i < length [s ..< n]" "?P ([s ..< n] ! i)"
    "b = [s ..< n] ! i" "\<forall>j<i. \<not> ?P ([s ..< n] ! j)"
    unfolding find_Some_iff by blast
  have bi: "b = s + i" using i(1,3) by simp
  have pb: "mi_blocks st b \<noteq> None" using i(2) i(3) nf by simp
  have before: "mi_blocks st x = None" if "s \<le> x" "x < b" for x
  proof -
    have "x - s < i" using that bi by simp
    then have "\<not> ?P ([s ..< n] ! (x - s))" using i(4) by blast
    moreover have "[s ..< n] ! (x - s) = x" using that bi i(1) by simp
    ultimately show ?thesis by simp
  qed
  have "b \<le> b'"
  proof (rule ccontr)
    assume "\<not> b \<le> b'"
    then have "mi_blocks st b' = None" using before[of b'] r(1) by simp
    then show False using ex by simp
  qed
  moreover have "nilfs_mdt_find_block st s e = Inr b"
    unfolding nilfs_mdt_find_block_def n_def[symmetric] f by (simp add: nf)
  ultimately show ?thesis using bi pb before by auto
qed

text \<open>The inner loop of \<open>nilfs_cpfile_do_get_cpinfo\<close>.\<close>

lemma cpinfo_scan_full: "nci \<le> length buf \<Longrightarrow> cpinfo_scan cps s k nci buf = buf"
  by (cases k) simp_all

lemma cpinfo_scan_skip:
  "(\<And>j. s \<le> j \<Longrightarrow> j < s + k \<Longrightarrow> nilfs_checkpoint_invalid (cps j))
     \<Longrightarrow> cpinfo_scan cps s k nci buf = buf"
proof (induction k arbitrary: s)
  case 0
  show ?case by simp
next
  case (Suc k)
  have "nilfs_checkpoint_invalid (cps s)" using Suc.prems[of s] by simp
  moreover have "cpinfo_scan cps (Suc s) k nci buf = buf"
    using Suc.prems by (intro Suc.IH) simp_all
  ultimately show ?case by simp
qed

lemma cpinfo_scan_first:
  assumes "s \<le> j" "j < s + k" "\<not> nilfs_checkpoint_invalid (cps j)"
    and "\<And>i. s \<le> i \<Longrightarrow> i < j \<Longrightarrow> nilfs_checkpoint_invalid (cps i)"
  shows "cpinfo_scan cps s k 1 [] = [nilfs_cpfile_checkpoint_to_cpinfo (cps j)]"
  using assms
proof (induction k arbitrary: s)
  case 0
  then show ?case by simp
next
  case (Suc k)
  show ?case
  proof (cases "j = s")
    case True
    then show ?thesis using Suc.prems(3) by (simp add: cpinfo_scan_full)
  next
    case False
    then have lt: "s < j" using Suc.prems(1) by simp
    have inv: "nilfs_checkpoint_invalid (cps s)" using Suc.prems(4)[of s] lt by simp
    have "cpinfo_scan cps (Suc s) k 1 [] = [nilfs_cpfile_checkpoint_to_cpinfo (cps j)]"
      using Suc.prems lt by (intro Suc.IH) simp_all
    then show ?thesis using inv by simp
  qed
qed

lemma find_checkpoint_block_first:
  assumes geo: "geometry_ok st" and nf: "\<And>b. mi_get_fault st b = None"
    and le: "unat cno \<le> unat c'" and lt: "unat c' < unat cur"
    and ex: "mi_blocks st (nilfs_cpfile_get_blkoff st c') \<noteq> None"
  shows "\<exists>cno1 b. nilfs_cpfile_find_checkpoint_block st cno (cur - 1) = Inr (cno1, b) \<and>
           b = nilfs_cpfile_get_blkoff st cno1 \<and> mi_blocks st b \<noteq> None \<and>
           unat cno \<le> unat cno1 \<and> unat cno1 \<le> unat c' \<and>
           (\<forall>c. unat cno \<le> unat c \<and> unat c < unat cno1
                \<longrightarrow> mi_blocks st (nilfs_cpfile_get_blkoff st c) = None)"
proof -
  let ?E = "mi_entries_per_block st"
  note gs = geometry_simps[OF geo]
  have E: "0 < ?E" by (rule gs(5))
  have F: "mi_first_entry_offset st = 1" using geo by (simp add: geometry_ok_def)
  have cur0: "cur \<noteq> 0" using lt by (auto simp: unat_eq_zero)
  have um: "unat (cur - 1) = unat cur - 1" using cur0 by (simp add: unat_minus_one)
  have ngt: "\<not> cno > cur - 1" using le lt um by (simp add: word_less_nat_alt)
  define s where "s = unat cno div ?E"
  define e where "e = unat (cur - 1) div ?E"
  define b' where "b' = unat c' div ?E"
  have r: "s \<le> b'" "b' \<le> e"
    unfolding s_def e_def b'_def um using le lt by (simp_all add: div_le_mono)
  have ex': "mi_blocks st b' \<noteq> None" using ex by (simp add: b'_def gs(1))
  from find_block_first[OF nf r ex'] obtain b where
    f: "nilfs_mdt_find_block st s e = Inr b" and b: "s \<le> b" "b \<le> b'"
    and pb: "mi_blocks st b \<noteq> None"
    and before: "\<forall>x. s \<le> x \<and> x < b \<longrightarrow> mi_blocks st x = None"
    by blast
  define cno1 where
    "cno1 = (if b = s then cno else nilfs_cpfile_first_checkpoint_in_block st b)"
  have res: "nilfs_cpfile_find_checkpoint_block st cno (cur - 1) = Inr (cno1, b)"
    using ngt
    by (simp add: nilfs_cpfile_find_checkpoint_block_def Let_def gs(1) s_def[symmetric]
        e_def[symmetric] f cno1_def)
  have bw: "b * ?E \<le> unat c'"
    using b(2) E unfolding b'_def by (simp add: less_eq_div_iff_mult_less_eq)
  show ?thesis
  proof (cases "b = s")
    case True
    then have c1: "cno1 = cno" by (simp add: cno1_def)
    have "b = nilfs_cpfile_get_blkoff st cno1" using True by (simp add: c1 gs(1) s_def)
    then show ?thesis using res pb le by (auto simp: c1)
  next
    case False
    then have sb: "s < b" using b(1) by simp
    have "nilfs_cpfile_first_checkpoint_in_block st b = of_nat (?E * b)"
      by (simp add: nilfs_cpfile_first_checkpoint_in_block_def gs(3) F)
    then have c1: "cno1 = of_nat (?E * b)" using False by (simp add: cno1_def)
    have "?E * b < unat cur" using bw lt by (simp add: mult.commute)
    then have u1: "unat cno1 = ?E * b" unfolding c1 by (rule unat_of_nat_below)
    have blk: "b = nilfs_cpfile_get_blkoff st cno1" using E by (simp add: gs(1) u1)
    have lo: "unat cno < ?E * b"
      using sb E unfolding s_def by (simp add: div_less_iff_less_mult mult.commute)
    have holes: "mi_blocks st (nilfs_cpfile_get_blkoff st c) = None"
      if "unat cno \<le> unat c" "unat c < unat cno1" for c
    proof -
      have "s \<le> unat c div ?E" unfolding s_def using that(1) by (simp add: div_le_mono)
      moreover have "unat c div ?E < b"
        using that(2) E unfolding u1 by (simp add: div_less_iff_less_mult mult.commute)
      ultimately show ?thesis using before by (simp add: gs(1))
    qed
    show ?thesis
      using res blk pb lo bw holes by (auto simp: u1 mult.commute)
  qed
qed

text \<open>The slots of the block that one round of the enumeration scans, and the checkpoint
  numbers they belong to.\<close>

lemma chunk_entry:
  assumes geo: "geometry_ok st"
    and blk: "mi_blocks st (nilfs_cpfile_get_blkoff st cno1) = Some blk"
    and k: "k = nilfs_cpfile_checkpoints_in_block st cno1 cur"
    and bound: "unat cno1 + k \<le> unat cur"
    and off: "off = nilfs_cpfile_get_offset st cno1"
    and i: "off \<le> i" "i < off + k"
  shows "\<exists>c. unat c = unat cno1 + (i - off) \<and> cp_entry st c = Some (b_cps blk i)"
proof -
  let ?E = "mi_entries_per_block st"
  note gs = geometry_simps[OF geo]
  define v where "v = unat cno1 + (i - off)"
  define c :: u64 where "c = of_nat v"
  have "v < unat cur" using i bound unfolding v_def by linarith
  then have uc: "unat c = v" unfolding c_def by (rule unat_of_nat_below)
  have r: "unat cno1 \<le> unat c" "unat c < unat cno1 + nilfs_cpfile_checkpoints_in_block st cno1 cur"
    using i unfolding uc v_def k[symmetric] by linarith+
  have b: "nilfs_cpfile_get_blkoff st c = nilfs_cpfile_get_blkoff st cno1"
    by (rule chunk_place(1)[OF geo r])
  have kk: "k \<le> ?E - unat cno1 mod ?E"
    using in_block_range[OF geo, of cno1 cur] unfolding k gs(2) by linarith
  have "unat c mod ?E = unat cno1 mod ?E + (unat c - unat cno1)"
    using r by (intro chunk_offset[OF gs(5) kk]) (simp_all add: k)
  then have o: "nilfs_cpfile_get_offset st c = i"
    using i(1) unfolding gs(2) uc v_def off gs(2) by simp
  have "cp_entry st c = Some (b_cps blk i)"
    by (simp add: cp_entry_def b blk o)
  then show ?thesis using uc unfolding v_def by blast
qed

lemma chunk_entry_at:
  assumes geo: "geometry_ok st"
    and blk: "mi_blocks st (nilfs_cpfile_get_blkoff st cno1) = Some blk"
    and k: "k = nilfs_cpfile_checkpoints_in_block st cno1 cur"
    and off: "off = nilfs_cpfile_get_offset st cno1"
    and c: "unat cno1 \<le> unat c" "unat c < unat cno1 + k"
  shows "cp_entry st c = Some (b_cps blk (nilfs_cpfile_get_offset st c))"
    and "nilfs_cpfile_get_offset st c = off + (unat c - unat cno1)"
proof -
  let ?E = "mi_entries_per_block st"
  note gs = geometry_simps[OF geo]
  have r: "unat cno1 \<le> unat c" "unat c < unat cno1 + nilfs_cpfile_checkpoints_in_block st cno1 cur"
    using c unfolding k by simp_all
  have b: "nilfs_cpfile_get_blkoff st c = nilfs_cpfile_get_blkoff st cno1"
    by (rule chunk_place(1)[OF geo r])
  show "cp_entry st c = Some (b_cps blk (nilfs_cpfile_get_offset st c))"
    by (simp add: cp_entry_def b blk)
  have kk: "k \<le> ?E - unat cno1 mod ?E"
    using in_block_range[OF geo, of cno1 cur] unfolding k gs(2) by linarith
  have "unat c mod ?E = unat cno1 mod ?E + (unat c - unat cno1)"
    using r by (intro chunk_offset[OF gs(5) kk]) (simp_all add: k)
  then show "nilfs_cpfile_get_offset st c = off + (unat c - unat cno1)"
    unfolding gs(2) off gs(2) .
qed

text \<open>The enumeration asked for one item returns the first valid entry at or after its
  start, when that entry lies below the next checkpoint number.\<close>

lemma cpinfo_loop_first_valid:
  assumes geo: "geometry_ok st" and nf: "\<And>b. mi_get_fault st b = None"
    and lt: "unat c' < unat cur"
    and ent: "cp_entry st c' = Some cp" and v: "\<not> nilfs_checkpoint_invalid cp"
    and le: "unat cno \<le> unat c'"
    and first: "\<And>c. unat cno \<le> unat c \<Longrightarrow> unat c < unat c' \<Longrightarrow> \<not> entry_valid st c"
  shows "cpinfo_loop st cur 1 cno [] = Some (Inr [nilfs_cpfile_checkpoint_to_cpinfo cp])"
  using le first
proof (induction "unat c' - unat cno" arbitrary: cno rule: less_induct)
  case less
  note le = less.prems(1) and first = less.prems(2)
  let ?E = "mi_entries_per_block st"
  note gs = geometry_simps[OF geo]
  have ex: "mi_blocks st (nilfs_cpfile_get_blkoff st c') \<noteq> None"
    using ent by (auto simp: cp_entry_def)
  from find_checkpoint_block_first[OF geo nf le lt ex] obtain cno1 b where
    f: "nilfs_cpfile_find_checkpoint_block st cno (cur - 1) = Inr (cno1, b)"
    and b: "b = nilfs_cpfile_get_blkoff st cno1" and pb: "mi_blocks st b \<noteq> None"
    and r1: "unat cno \<le> unat cno1" "unat cno1 \<le> unat c'"
    by blast
  obtain blk where blk: "mi_blocks st b = Some blk" using pb by auto
  have blk': "mi_blocks st (nilfs_cpfile_get_blkoff st cno1) = Some blk"
    using blk b by simp
  have d: "bh_data st b = blk" using blk by (simp add: bh_data_def)
  define k where "k = nilfs_cpfile_checkpoints_in_block st cno1 cur"
  define off where "off = nilfs_cpfile_get_offset st cno1"
  have lt1: "cno1 < cur" using r1(2) lt by (simp add: word_less_nat_alt)
  have kpos: "0 < k"
    unfolding k_def using lt1 gs(3,5) by (intro checkpoints_in_block_pos) simp_all
  have kle: "k \<le> unat (cur - cno1)" unfolding k_def by (rule checkpoints_in_block_le)
  have ue: "unat (cur - cno1) = unat cur - unat cno1" using lt1 by (simp add: unat_sub)
  have bound: "unat cno1 + k \<le> unat cur" using kle ue r1(2) lt by linarith
  have u2: "unat (cno1 + of_nat k) = unat cno1 + k"
    by (rule word_advance_unat[OF lt1 kle])
  have step: "cpinfo_loop st cur 1 cno [] =
                cpinfo_loop st cur 1 (cno1 + of_nat k) (cpinfo_scan (b_cps blk) off k 1 [])"
    by (subst cpinfo_loop.simps) (simp add: f Let_def d k_def off_def)
  have slot_inv: "nilfs_checkpoint_invalid (b_cps blk i)"
    if "off \<le> i" "i < off + k" "unat cno1 + (i - off) < unat c'" for i
  proof -
    from chunk_entry[OF geo blk' k_def bound off_def that(1,2)] obtain c where
      c: "unat c = unat cno1 + (i - off)" "cp_entry st c = Some (b_cps blk i)"
      by blast
    have "\<not> entry_valid st c" using first[of c] r1(1) that(3) c(1) by simp
    then show ?thesis by (simp add: entry_valid_def c(2))
  qed
  show ?case
  proof (cases "unat c' < unat cno1 + k")
    case True
    note at = chunk_entry_at[OF geo blk' k_def off_def r1(2) True]
    define j where "j = nilfs_cpfile_get_offset st c'"
    have j: "j = off + (unat c' - unat cno1)" unfolding j_def by (rule at(2))
    have cpj: "cp = b_cps blk j" using at(1) ent by (simp add: j_def)
    have j1: "off \<le> j" "j < off + k" using j True r1(2) by linarith+
    have inv: "nilfs_checkpoint_invalid (b_cps blk i)" if "off \<le> i" "i < j" for i
      using that j j1 r1(2) by (intro slot_inv) linarith+
    have "cpinfo_scan (b_cps blk) off k 1 [] = [nilfs_cpfile_checkpoint_to_cpinfo (b_cps blk j)]"
      using v inv by (intro cpinfo_scan_first[OF j1]) (simp_all add: cpj)
    then have "cpinfo_loop st cur 1 cno [] =
                 cpinfo_loop st cur 1 (cno1 + of_nat k) [nilfs_cpfile_checkpoint_to_cpinfo cp]"
      using step by (simp add: cpj)
    also have "\<dots> = Some (Inr [nilfs_cpfile_checkpoint_to_cpinfo cp])"
      by (subst cpinfo_loop.simps) simp
    finally show ?thesis .
  next
    case False
    then have far: "unat cno1 + k \<le> unat c'" by simp
    have inv: "nilfs_checkpoint_invalid (b_cps blk i)" if "off \<le> i" "i < off + k" for i
      using that far by (intro slot_inv) linarith+
    have "cpinfo_scan (b_cps blk) off k 1 [] = []"
      using inv by (intro cpinfo_scan_skip) simp_all
    then have s: "cpinfo_loop st cur 1 cno [] = cpinfo_loop st cur 1 (cno1 + of_nat k) []"
      using step by simp
    have m: "unat c' - unat (cno1 + of_nat k) < unat c' - unat cno"
      using u2 kpos r1(1) far by linarith
    have le2: "unat (cno1 + of_nat k) \<le> unat c'" using u2 far by simp
    have "cpinfo_loop st cur 1 (cno1 + of_nat k) [] =
            Some (Inr [nilfs_cpfile_checkpoint_to_cpinfo cp])"
    proof (rule less.hyps[OF m le2])
      fix c :: u64
      assume "unat (cno1 + of_nat k) \<le> unat c" "unat c < unat c'"
      then show "\<not> entry_valid st c" using first[of c] u2 r1(1) by simp
    qed
    then show ?thesis using s by simp
  qed
qed

text \<open>The single delete compares the stored number of the entry it finds, not the slot:
  when the first valid entry at or after \<open>cno\<close> lies at \<open>c'\<close> below the next checkpoint
  number and stores a number other than \<open>cno\<close>, the call returns \<open>-ENOENT\<close>.\<close>

lemma delete_checkpoint_found_mismatch:
  assumes "geometry_ok st" and "\<And>b. mi_get_fault st b = None"
    and "1 \<le> cno" and "cno \<le> c'" and "c' < nilfs_mdt_cno st"
    and "cp_entry st c' = Some cp" and "\<not> nilfs_checkpoint_invalid cp"
    and "\<And>c. cno \<le> c \<Longrightarrow> c < c' \<Longrightarrow> \<not> entry_valid st c"
    and "cp_cno cp \<noteq> cno"
  shows "nilfs_cpfile_delete_checkpoint st cno = Some (Inl ENOENT, st)"
proof -
  have c0: "cno \<noteq> 0" using assms(3) by simp
  have lt: "unat c' < unat (nilfs_mdt_cno st)" using assms(5) by (simp add: word_less_nat_alt)
  have le: "unat cno \<le> unat c'" using assms(4) by (simp add: word_le_nat_alt)
  have first: "\<not> entry_valid st c" if "unat cno \<le> unat c" "unat c < unat c'" for c
    using that assms(8)[of c] by (simp add: word_le_nat_alt word_less_nat_alt)
  have loop: "cpinfo_loop st (nilfs_mdt_cno st) 1 cno [] =
                Some (Inr [nilfs_cpfile_checkpoint_to_cpinfo cp])"
    by (rule cpinfo_loop_first_valid[OF assms(1) assms(2) lt assms(6) assms(7) le first])
  have "ci_cno (nilfs_cpfile_checkpoint_to_cpinfo cp) \<noteq> cno"
    using assms(9) by (simp add: nilfs_cpfile_checkpoint_to_cpinfo_def)
  then show ?thesis
    using c0 loop
    by (simp add: nilfs_cpfile_delete_checkpoint_def nilfs_cpfile_do_get_cpinfo_def)
qed

text \<open>A checkpoint number at or above the next checkpoint number is outside the range
  the enumeration looks at.\<close>

lemma delete_checkpoint_beyond:
  assumes "1 \<le> cno" and "1 \<le> nilfs_mdt_cno st" and "nilfs_mdt_cno st \<le> cno"
  shows "nilfs_cpfile_delete_checkpoint st cno = Some (Inl ENOENT, st)"
proof -
  let ?cur = "nilfs_mdt_cno st"
  have c0: "cno \<noteq> 0" using assms(1) by simp
  have cur0: "?cur \<noteq> 0" using assms(2) by simp
  have um: "unat (?cur - 1) = unat ?cur - 1" using cur0 by (simp add: unat_minus_one)
  have "0 < unat ?cur" using cur0 by (simp add: unat_gt_0)
  then have gt: "cno > ?cur - 1"
    using assms(3) um by (simp add: word_less_nat_alt word_le_nat_alt)
  have f: "nilfs_cpfile_find_checkpoint_block st cno (?cur - 1) = Inl ENOENT"
    using gt by (simp add: nilfs_cpfile_find_checkpoint_block_def)
  have loop: "cpinfo_loop st ?cur 1 cno [] = Some (Inr [])"
    by (subst cpinfo_loop.simps) (simp add: f)
  show ?thesis
    using c0 loop
    by (simp add: nilfs_cpfile_delete_checkpoint_def nilfs_cpfile_do_get_cpinfo_def)
qed

text \<open>A file with the header block only and next checkpoint number 10, and the file that
  \<open>create_checkpoint(5)\<close> makes of it: block 1 is allocated, and the entry of 5 is valid
  with every field zero, since nothing but \<open>finalize_checkpoint\<close> stores \<open>cp_cno\<close>.\<close>

definition ex_hole :: cpfile where
  "ex_hole = ex_file 10 [0 \<mapsto> \<lparr>b_header = ex_header 0 0 0 0, b_cps = (\<lambda>_. ex_invalid)\<rparr>]"

definition ex_created :: cpfile where
  "ex_created = snd (nilfs_cpfile_create_checkpoint ex_hole 5)"

lemma unset_bit_one: "unset_bit 0 (1::u32) = 0"
  using unset_set_bit_word[of "0::u32" 0] by simp

lemmas create_eval_defs =
  nilfs_cpfile_create_checkpoint_def
  nilfs_cpfile_get_header_block_def nilfs_cpfile_get_checkpoint_block_def
  nilfs_mdt_get_block_def nilfs_cpfile_block_init_def zero_block_def layout_defs
  bh_data_def cp_write_def header_write_def bh_update_def
  nilfs_cpfile_block_add_valid_checkpoints_def Let_def geometry_ok_def cp_entry_def
  cp_header_def nilfs_mdt_cno_def mark_buffer_dirty_def nilfs_mdt_mark_dirty_def
  nilfs_checkpoint_set_invalid_def nilfs_checkpoint_clear_invalid_def
  nilfs_checkpoint_invalid_def NILFS_CHECKPOINT_INVALID_def zero_checkpoint_def unset_bit_one

lemma ex_created_facts:
  "fst (nilfs_cpfile_create_checkpoint ex_hole 5) = Inr ()"
  "geometry_ok ex_created"
  "mi_get_fault ex_created b = None"
  "nilfs_mdt_cno ex_created = 10"
  "cp_entry ex_created 5 = Some zero_checkpoint"
  "stored_cno ex_hole 5 = 0"
  by (simp_all add: ex_created_def ex_hole_def ex_file_def stored_cno_def create_eval_defs)

text \<open>A file in which the checkpoint 5 was finalized and deleted earlier: its slot in
  block 1 is INVALID and still stores the number 5; the block is kept by the valid
  checkpoint 6.  \<open>ex_recreated\<close> is the file that \<open>create_checkpoint(5)\<close> makes of it.\<close>

definition ex_blk_stale :: cp_block where
  "ex_blk_stale =
     \<lparr>b_header = ex_header 0 0 0 0,
      b_cps = (\<lambda>_. ex_invalid)(0 := ex_entry 1 1 0 0 0, 1 := ex_entry 1 0 5 0 0,
                               2 := ex_entry 0 0 6 0 0)\<rparr>"

definition ex_stale :: cpfile where
  "ex_stale =
     ex_file 10
       [0 \<mapsto> \<lparr>b_header = ex_header 1 0 0 0, b_cps = (\<lambda>_. ex_invalid)\<rparr>, 1 \<mapsto> ex_blk_stale]"

definition ex_recreated :: cpfile where
  "ex_recreated = snd (nilfs_cpfile_create_checkpoint ex_stale 5)"

definition ex_blk_recreated :: cp_block where
  "ex_blk_recreated =
     \<lparr>b_header = ex_header 0 0 0 0,
      b_cps = (\<lambda>_. ex_invalid)(0 := ex_entry 1 2 0 0 0, 1 := ex_entry 0 0 5 0 0,
                               2 := ex_entry 0 0 6 0 0)\<rparr>"

lemma ex_stale_facts:
  "stored_cno ex_stale 5 = 5"
  "\<not> entry_valid ex_stale 5"
  "fst (nilfs_cpfile_create_checkpoint ex_stale 5) = Inr ()"
  by (simp_all add: ex_stale_def ex_blk_stale_def ex_file_def stored_cno_def entry_valid_def
      create_eval_defs ex_entry_def ex_invalid_def)

lemma ex_recreated_facts:
  "geometry_ok ex_recreated"
  "mi_get_fault ex_recreated b = None"
  "mi_delete_fault ex_recreated b = None"
  "nilfs_mdt_cno ex_recreated = 10"
  "mi_entries_per_block ex_recreated = 4"
  "cp_header ex_recreated = Some (ex_header 2 0 0 0)"
  "mi_blocks ex_recreated (Suc 0) = Some ex_blk_recreated"
  by (simp_all add: ex_recreated_def ex_stale_def ex_blk_stale_def ex_blk_recreated_def
      ex_file_def create_eval_defs ex_entry_def ex_invalid_def ex_header_def fun_eq_iff)

lemma ex_recreated_entry:
  "cp_entry ex_recreated 5 = Some (ex_entry 0 0 5 0 0)"
  "nilfs_cpfile_get_blkoff ex_recreated 5 = Suc 0"
  "nilfs_cpfile_get_offset ex_recreated 5 = Suc 0"
  "nilfs_cpfile_checkpoints_in_block ex_recreated 5 6 = Suc 0"
  by (simp_all add: cp_entry_def geometry_simps[OF ex_recreated_facts(1)]
      ex_recreated_facts ex_blk_recreated_def nilfs_cpfile_checkpoints_in_block_def)

lemma ex_recreated_loop:
  "del_loop ex_recreated 5 6 0 0 = (Inr (), del_step ex_recreated 5 6, 1, 0)"
proof -
  have lt: "(5::u64) < 6" by simp
  have p: "plain_cp (ex_entry 0 n c x y)" for n c x y
    by (simp add: plain_cp_def ex_entry_flags)
  have ni: "del_ni ex_recreated 5 6 = 1" and ns: "del_ns ex_recreated 5 6 = 0"
    unfolding del_ni_def del_ns_def Let_def ex_recreated_entry ex_recreated_facts
    by (simp_all add: cnt_Suc ex_blk_recreated_def p ex_entry_flags)
  have nf: "mi_get_fault ex_recreated (nilfs_cpfile_get_blkoff ex_recreated 5) = None"
    and nd: "mi_delete_fault ex_recreated (nilfs_cpfile_get_blkoff ex_recreated 5) = None"
    by (simp_all add: ex_recreated_facts)
  have a: "(5::u64) + of_nat (Suc 0) = 6" "(0::nat) + 1 = 1" "(0::nat) + 0 = 0" by simp_all
  have "del_loop ex_recreated 5 6 0 0 = del_loop (del_step ex_recreated 5 6) 6 6 1 0"
    using del_loop_step[OF ex_recreated_facts(1) lt nf nd, of 0 0]
    unfolding ni ns ex_recreated_entry(4) a .
  also have "\<dots> = (Inr (), del_step ex_recreated 5 6, 1, 0)"
    by (subst del_loop.simps) simp
  finally show ?thesis .
qed

lemma ex_recreated_delete:
  "nilfs_cpfile_delete_checkpoint ex_recreated 5 =
     Some (nilfs_cpfile_delete_checkpoints ex_recreated 5 6)"
  "fst (nilfs_cpfile_delete_checkpoints ex_recreated 5 6) = Inr ()"
proof -
  have lt: "unat (5::u64) < unat (nilfs_mdt_cno ex_recreated)"
    by (simp add: ex_recreated_facts)
  have le: "unat (5::u64) \<le> unat (5::u64)" by simp
  have first: "\<not> entry_valid ex_recreated c" if "unat (5::u64) \<le> unat c" "unat c < unat (5::u64)"
    for c :: u64
    using that by simp
  have loop: "cpinfo_loop ex_recreated (nilfs_mdt_cno ex_recreated) 1 5 [] =
                Some (Inr [nilfs_cpfile_checkpoint_to_cpinfo (ex_entry 0 0 5 0 0)])"
    by (rule cpinfo_loop_first_valid[OF ex_recreated_facts(1) ex_recreated_facts(2) lt
          ex_recreated_entry(1) ex_entry_flags(1) le first])
  have ci: "ci_cno (nilfs_cpfile_checkpoint_to_cpinfo (ex_entry 0 0 5 0 0)) = 5"
    "\<not> nilfs_cpinfo_snapshot (nilfs_cpfile_checkpoint_to_cpinfo (ex_entry 0 0 5 0 0))"
    by (simp_all add: nilfs_cpfile_checkpoint_to_cpinfo_def nilfs_cpinfo_snapshot_def
        ex_entry_def)
  show "nilfs_cpfile_delete_checkpoint ex_recreated 5 =
          Some (nilfs_cpfile_delete_checkpoints ex_recreated 5 6)"
    using loop ci
    by (simp add: nilfs_cpfile_delete_checkpoint_def nilfs_cpfile_do_get_cpinfo_def)
  have gh: "nilfs_cpfile_get_header_block ex_recreated = (Inr 0, ex_recreated)"
    by (rule get_header_block_header[OF ex_recreated_facts(2) ex_recreated_facts(6)])
  show "fst (nilfs_cpfile_delete_checkpoints ex_recreated 5 6) = Inr ()"
    by (simp add: nilfs_cpfile_delete_checkpoints_def gh ex_recreated_loop)
qed

text \<open>C10, as stated, fails in its second half: \<open>create_checkpoint\<close> does not store
  \<open>cp_cno\<close>, it leaves the field as the slot holds it, which is 0 only in a slot never
  finalized before.  In \<open>ex_stale\<close> the INVALID slot of 5 still stores the number 5;
  \<open>create_checkpoint(5)\<close> makes the entry valid again, nothing finalizes it, and
  \<open>delete_checkpoint(5)\<close> finds the stored number 5, goes on to
  \<open>delete_checkpoints(5, 6)\<close> and returns 0: the entry is deleted through the single-delete
  path.\<close>

theorem delete_checkpoint_recreated_counterexample:
  "stored_cno ex_stale 5 = 5 \<and> \<not> entry_valid ex_stale 5 \<and>
   nilfs_cpfile_create_checkpoint ex_stale 5 = (Inr (), ex_recreated) \<and>
   cp_entry ex_recreated 5 = Some (ex_entry 0 0 5 0 0) \<and> entry_valid ex_recreated 5 \<and>
   nilfs_cpfile_delete_checkpoint ex_recreated 5 =
     Some (nilfs_cpfile_delete_checkpoints ex_recreated 5 6) \<and>
   fst (nilfs_cpfile_delete_checkpoints ex_recreated 5 6) = Inr () \<and>
   \<not> entry_valid (snd (nilfs_cpfile_delete_checkpoints ex_recreated 5 6)) 5"
proof -
  have c: "nilfs_cpfile_create_checkpoint ex_stale 5 = (Inr (), ex_recreated)"
    using ex_stale_facts(3) by (simp add: ex_recreated_def prod_eq_iff)
  have v: "entry_valid ex_recreated 5"
    by (simp add: entry_valid_def ex_recreated_entry ex_entry_flags)
  have pv: "plain_valid ex_recreated 5"
    by (simp add: plain_valid_def plain_cp_def ex_recreated_entry ex_entry_flags)
  have le: "(1::u64) \<le> 5" "(5::u64) \<le> 6" "(5::u64) \<le> 5" "(5::u64) < 6" by simp_all
  from delete_checkpoints_no_fault[OF ex_recreated_facts(1) ex_recreated_facts(2)
      ex_recreated_facts(3) le(1) le(2) ex_recreated_facts(6)]
  obtain st' and ns' :: nat where
    r: "nilfs_cpfile_delete_checkpoints ex_recreated 5 6 =
          (if 0 < ns' then Inl EBUSY else Inr (), st')"
    and D: "\<forall>c. 5 \<le> c \<and> c < 6 \<and> plain_valid ex_recreated c \<longrightarrow> \<not> entry_valid st' c"
    by blast
  have gone: "\<not> entry_valid (snd (nilfs_cpfile_delete_checkpoints ex_recreated 5 6)) 5"
    using D le(3) le(4) pv by (simp add: r)
  show ?thesis
    using c v gone ex_stale_facts(1) ex_stale_facts(2) ex_recreated_entry(1)
      ex_recreated_delete
    by simp
qed

text \<open>C10, amended.  Let no block fetch fail and let \<open>cno \<ge> 1\<close>.  First, if the first
  valid entry at or after \<open>cno\<close> lies at \<open>c'\<close> below the next checkpoint number (every
  entry from \<open>cno\<close> up to \<open>c'\<close> is INVALID or in a hole) and the \<open>cp_cno\<close> field stored in
  it differs from \<open>cno\<close>, then \<open>delete_checkpoint(cno)\<close> returns \<open>-ENOENT\<close> and changes
  nothing; in particular the enumeration loop it runs returns.  Second, if the file is
  the result of a successful \<open>create_checkpoint(cno)\<close> on a file \<open>st0\<close> whose slot of
  \<open>cno\<close> did not store the number \<open>cno\<close> (\<open>stored_cno\<close> is 0 for a slot in a hole, so for
  every entry created in a block allocated by the call), and the next checkpoint number
  is at least 1, then \<open>delete_checkpoint(cno)\<close> on the file as created, not finalized,
  returns \<open>-ENOENT\<close> and changes nothing.\<close>

theorem delete_checkpoint_cno_mismatch:
  assumes "geometry_ok st" and "\<And>b. mi_get_fault st b = None" and "1 \<le> cno"
  shows "(cno \<le> c' \<and> c' < nilfs_mdt_cno st \<and>
          cp_entry st c' = Some cp \<and> \<not> nilfs_checkpoint_invalid cp \<and>
          (\<forall>c. cno \<le> c \<and> c < c' \<longrightarrow> \<not> entry_valid st c) \<and> cp_cno cp \<noteq> cno
          \<longrightarrow> nilfs_cpfile_delete_checkpoint st cno = Some (Inl ENOENT, st)) \<and>
         (nilfs_cpfile_create_checkpoint st0 cno = (Inr (), st) \<and>
          stored_cno st0 cno \<noteq> cno \<and> 1 \<le> nilfs_mdt_cno st
          \<longrightarrow> nilfs_cpfile_delete_checkpoint st cno = Some (Inl ENOENT, st))"
proof (intro conjI impI)
  assume a: "cno \<le> c' \<and> c' < nilfs_mdt_cno st \<and>
          cp_entry st c' = Some cp \<and> \<not> nilfs_checkpoint_invalid cp \<and>
          (\<forall>c. cno \<le> c \<and> c < c' \<longrightarrow> \<not> entry_valid st c) \<and> cp_cno cp \<noteq> cno"
  show "nilfs_cpfile_delete_checkpoint st cno = Some (Inl ENOENT, st)"
    using a by (intro delete_checkpoint_found_mismatch[OF assms, of c' cp]) simp_all
next
  assume b: "nilfs_cpfile_create_checkpoint st0 cno = (Inr (), st) \<and>
          stored_cno st0 cno \<noteq> cno \<and> 1 \<le> nilfs_mdt_cno st"
  then have cr: "nilfs_cpfile_create_checkpoint st0 cno = (Inr (), st)" by simp
  from create_checkpoint_entry(1)[OF cr] obtain cp1 where
    cp1: "cp_entry st cno = Some cp1" "\<not> nilfs_checkpoint_invalid cp1"
      "cp_cno cp1 = stored_cno st0 cno"
    by blast
  show "nilfs_cpfile_delete_checkpoint st cno = Some (Inl ENOENT, st)"
  proof (cases "cno < nilfs_mdt_cno st")
    case True
    have le: "cno \<le> cno" by simp
    have ne: "cp_cno cp1 \<noteq> cno" using cp1(3) b by simp
    have none: "\<not> entry_valid st c" if "cno \<le> c" "c < cno" for c
      using that by simp
    show ?thesis
      by (rule delete_checkpoint_found_mismatch[OF assms le True cp1(1) cp1(2) none ne])
  next
    case False
    then have "nilfs_mdt_cno st \<le> cno" by simp
    then show ?thesis using b assms(3) by (intro delete_checkpoint_beyond) simp_all
  qed
qed

theorem delete_checkpoint_cno_mismatch_witness:
  "geometry_ok ex_range \<and> (1::u64) \<le> 4 \<and> (4::u64) \<le> 5 \<and> (5::u64) < nilfs_mdt_cno ex_range \<and>
   \<not> entry_valid ex_range 4 \<and> cp_entry ex_range 5 = Some (ex_entry 0 0 5 0 0) \<and>
   \<not> nilfs_checkpoint_invalid (ex_entry 0 0 5 0 0) \<and> cp_cno (ex_entry 0 0 5 0 0) \<noteq> 4 \<and>
   nilfs_cpfile_delete_checkpoint ex_range 4 = Some (Inl ENOENT, ex_range) \<and>
   geometry_ok ex_created \<and> (1::u64) \<le> 5 \<and> (1::u64) \<le> nilfs_mdt_cno ex_created \<and>
   nilfs_cpfile_create_checkpoint ex_hole 5 = (Inr (), ex_created) \<and>
   stored_cno ex_hole 5 \<noteq> 5 \<and> cp_entry ex_created 5 = Some zero_checkpoint \<and>
   \<not> nilfs_checkpoint_invalid zero_checkpoint \<and>
   nilfs_cpfile_delete_checkpoint ex_created 5 = Some (Inl ENOENT, ex_created)"
proof -
  have le: "(1::u64) \<le> 5" "(1::u64) \<le> nilfs_mdt_cno ex_created"
    "(1::u64) \<le> 4" "(4::u64) \<le> 5" "(5::u64) < nilfs_mdt_cno ex_range"
    by (simp_all add: ex_created_facts) (simp add: nilfs_mdt_cno_def ex_range_def ex_file_def)
  have z: "\<not> nilfs_checkpoint_invalid zero_checkpoint"
    by (simp add: zero_checkpoint_def nilfs_checkpoint_invalid_def)
  have cr: "nilfs_cpfile_create_checkpoint ex_hole 5 = (Inr (), ex_created)"
    using ex_created_facts(1) by (simp add: ex_created_def prod_eq_iff)
  have s: "stored_cno ex_hole 5 \<noteq> 5" by (simp add: ex_created_facts)
  have e4: "\<not> entry_valid ex_range 4"
    by (simp add: entry_valid_def cp_entry_def ex_range_def ex_file_def layout_defs
        ex_blk1_def ex_entry_flags)
  have four: "\<forall>c. 4 \<le> c \<and> c < 5 \<longrightarrow> \<not> entry_valid ex_range c"
  proof (intro allI impI)
    fix c :: u64
    assume "4 \<le> c \<and> c < 5"
    then have u: "unat c = 4" by (simp add: word_le_nat_alt word_less_nat_alt)
    have "c = of_nat (unat c)" by simp
    then have "c = of_nat 4" unfolding u .
    then show "\<not> entry_valid ex_range c" using e4 by simp
  qed
  have m: "cp_cno (ex_entry 0 0 5 0 0) \<noteq> 4" by (simp add: ex_entry_def)
  have a: "nilfs_cpfile_delete_checkpoint ex_range 4 = Some (Inl ENOENT, ex_range)"
    using delete_checkpoint_cno_mismatch[OF ex_range_facts(1) ex_range_facts(2) le(3),
        of 5 "ex_entry 0 0 5 0 0" ex_range]
      le(4) le(5) ex_range_facts(5) ex_entry_flags(1) four m
    by blast
  have b: "nilfs_cpfile_delete_checkpoint ex_created 5 = Some (Inl ENOENT, ex_created)"
    using delete_checkpoint_cno_mismatch[OF ex_created_facts(2) ex_created_facts(3) le(1),
        of 5 zero_checkpoint ex_hole]
      cr s le(2)
    by blast
  show ?thesis
    using a b e4 z m cr s le ex_created_facts(2) ex_created_facts(5) ex_range_facts(1)
      ex_range_facts(5) ex_entry_flags(1)
    by simp
qed

end
